(* ===== verification/Prelude.thy ===== *)
theory Prelude
  imports Main "HOL-Library.Word" "HOL-Library.Sublist"
begin

text \<open>
  What every component shares: Go's byte slices and strings as lists of bytes, the functions of
  the packages \<^verbatim>\<open>bytes\<close> and \<^verbatim>\<open>encoding/binary\<close> the sources call, two's complement
  integers of 32 and 64 bits as \<^typ>\<open>int\<close> with the wrap-around written out, the result type of
  the incremental parsers and the interfaces (locales) that their clients rely on.
\<close>

unbundle bit_operations_syntax

named_theorems bytes_simps \<open>rewriting of the byte-slice functions\<close>
named_theorems stable_intros \<open>a parser's answer is unchanged by bytes that arrive later\<close>

section \<open>Bytes, strings, machine integers\<close>

type_synonym byte = "8 word"
type_synonym gostring = "byte list"

text \<open>A Go string literal: one byte per character.\<close>

definition str :: "string \<Rightarrow> gostring" where
  "str s = map of_char s"

lemma str_simps [bytes_simps]:
  "str [] = []" "str (c # cs) = of_char c # str cs"
  by (simp_all add: str_def)

abbreviation CR :: byte where "CR \<equiv> 13"
abbreviation LF :: byte where "LF \<equiv> 10"
abbreviation SP :: byte where "SP \<equiv> 32"
abbreviation HTAB :: byte where "HTAB \<equiv> 9"
abbreviation bCRLF :: "byte list" where "bCRLF \<equiv> [CR, LF]"

definition wrap64 :: "int \<Rightarrow> int" where
  "wrap64 x = (x + 2 ^ 63) mod 2 ^ 64 - 2 ^ 63"

definition wrap32 :: "int \<Rightarrow> int" where
  "wrap32 x = (x + 2 ^ 31) mod 2 ^ 32 - 2 ^ 31"

definition MaxInt64 :: int where "MaxInt64 = 2 ^ 63 - 1"
definition MinInt64 :: int where "MinInt64 = - (2 ^ 63)"

lemma wrap64_id: "MinInt64 \<le> x \<Longrightarrow> x \<le> MaxInt64 \<Longrightarrow> wrap64 x = x"
  by (simp add: wrap64_def MinInt64_def MaxInt64_def)

lemma wrap32_id: "- (2 ^ 31) \<le> x \<Longrightarrow> x < 2 ^ 31 \<Longrightarrow> wrap32 x = x"
  by (simp add: wrap32_def)

lemma uint_byte_bounds: "0 \<le> uint (b::byte)" "uint (b::byte) < 256"
  using uint_lt2p [of b] by simp_all

section \<open>The package bytes\<close>

text \<open>\<^verbatim>\<open>bytes.Index\<close> and \<^verbatim>\<open>bytes.IndexByte\<close>; Go's \<open>-1\<close> is \<^const>\<open>None\<close>.\<close>

fun bytes_Index :: "'a list \<Rightarrow> 'a list \<Rightarrow> nat option" where
  "bytes_Index [] sep = (if sep = [] then Some 0 else None)"
| "bytes_Index (x # xs) sep =
     (if prefix sep (x # xs) then Some 0 else map_option Suc (bytes_Index xs sep))"

fun bytes_IndexByte :: "'a list \<Rightarrow> 'a \<Rightarrow> nat option" where
  "bytes_IndexByte [] c = None"
| "bytes_IndexByte (x # xs) c = (if x = c then Some 0 else map_option Suc (bytes_IndexByte xs c))"

lemma bytes_Index_Some:
  "bytes_Index b sep = Some i \<Longrightarrow> b = take i b @ sep @ drop (i + length sep) b"
proof (induction b arbitrary: i)
  case (Cons x xs)
  show ?case
  proof (cases "prefix sep (x # xs)")
    case True
    then show ?thesis using Cons.prems by (auto elim!: prefixE)
  next
    case False
    then obtain j where "bytes_Index xs sep = Some j" "i = Suc j" using Cons.prems by auto
    with Cons.IH [of j] show ?thesis by simp
  qed
qed (auto split: if_splits)

lemma bytes_Index_bound: "bytes_Index b sep = Some i \<Longrightarrow> i + length sep \<le> length b"
  by (induction b arbitrary: i) (auto split: if_splits dest: prefix_length_le)

lemma bytes_Index_prefix: "prefix sep b \<Longrightarrow> bytes_Index b sep = Some 0"
  by (cases b) auto

lemma bytes_Index_append [stable_intros]:
  "bytes_Index b sep = Some i \<Longrightarrow> bytes_Index (b @ c) sep = Some i"
proof (induction b arbitrary: i)
  case Nil
  then show ?case by (auto simp: bytes_Index_prefix split: if_splits)
next
  case (Cons x xs)
  show ?case
  proof (cases "prefix sep (x # xs)")
    case True
    then have "prefix sep (x # (xs @ c))" by (metis append_Cons prefix_prefix)
    then show ?thesis using Cons.prems True by simp
  next
    case False
    then obtain j where j: "bytes_Index xs sep = Some j" "i = Suc j" using Cons.prems by auto
    then have "length sep \<le> length xs" using bytes_Index_bound by fastforce
    then have "length sep \<le> length (x # xs)" by simp
    moreover have "prefix (x # xs) (x # (xs @ c))" by simp
    ultimately have "\<not> prefix sep (x # (xs @ c))" using False prefix_length_prefix by blast
    then show ?thesis using Cons.IH [OF j(1)] j(2) by simp
  qed
qed

lemma bytes_Index_first:
  "bytes_Index (a @ sep @ b) sep = Some (length a)"
  if "\<And>i. i < length a \<Longrightarrow> \<not> prefix sep (drop i (a @ sep @ b))"
  using that
proof (induction a)
  case Nil
  then show ?case by (simp add: bytes_Index_prefix)
next
  case (Cons x a)
  have "\<not> prefix sep (x # a @ sep @ b)" using Cons.prems [of 0] by simp
  moreover have "bytes_Index (a @ sep @ b) sep = Some (length a)"
    by (rule Cons.IH) (use Cons.prems [of "Suc _"] in auto)
  ultimately show ?case by simp
qed

lemma bytes_IndexByte_None: "bytes_IndexByte b c = None \<longleftrightarrow> c \<notin> set b"
  by (induction b) auto

lemma bytes_IndexByte_Some:
  "bytes_IndexByte b c = Some i \<longleftrightarrow> i < length b \<and> b ! i = c \<and> c \<notin> set (take i b)"
proof (induction b arbitrary: i)
  case (Cons x b)
  then show ?case by (cases i) auto
qed simp

text \<open>CRLF is found first where no CR precedes it.\<close>

lemma bytes_Index_CRLF_first:
  assumes "CR \<notin> set a"
  shows "bytes_Index (a @ CR # LF # b) bCRLF = Some (length a)"
proof -
  have "\<not> prefix bCRLF (drop i (a @ bCRLF @ b))" if "i < length a" for i
  proof -
    have "drop i (a @ bCRLF @ b) = a ! i # drop (Suc i) a @ bCRLF @ b"
      using that by (simp add: Cons_nth_drop_Suc [symmetric])
    moreover have "a ! i \<noteq> CR" using assms that by (metis nth_mem)
    ultimately show ?thesis by simp
  qed
  then show ?thesis using bytes_Index_first [of a bCRLF b] by simp
qed

section \<open>Little-endian words and the word-at-a-time byte scans\<close>

text \<open>\<^verbatim>\<open>binary.LittleEndian.Uint64\<close> and \<open>Uint32\<close>, and the explicit or-of-shifts form.\<close>

primrec le_uint :: "byte list \<Rightarrow> 'a::len word" where
  "le_uint [] = 0"
| "le_uint (b # bs) = ucast b OR push_bit 8 (le_uint bs)"

primrec le_val :: "byte list \<Rightarrow> int" where
  "le_val [] = 0"
| "le_val (b # bs) = uint b + 256 * le_val bs"

primrec ones_val :: "nat \<Rightarrow> int" where
  "ones_val 0 = 0"
| "ones_val (Suc n) = 1 + 256 * ones_val n"

lemma bit_add_256:
  assumes "0 \<le> a" "a < (256::int)"
  shows "bit (a + 256 * v) (8 + n) = bit v n"
proof -
  have "drop_bit 8 (a + 256 * v) = v" using assms by (simp add: drop_bit_eq_div)
  then show ?thesis by (metis bit_drop_bit_eq comp_apply)
qed

lemma bit_7_low: "bit (a + 256 * v) 7 = bit (a::int) 7"
proof -
  have "take_bit 8 (a + 256 * v) = take_bit 8 a" by (simp add: take_bit_eq_mod)
  then have "bit (take_bit 8 (a + 256 * v)) 7 = bit (take_bit 8 a) 7" by simp
  then show ?thesis by (simp add: bit_take_bit_iff)
qed

lemma bit7_neg: "- 128 \<le> (a::int) \<Longrightarrow> a < 0 \<Longrightarrow> bit a 7"
  by (simp add: bit_iff_odd) presburger

lemma bit7_small: "0 \<le> (a::int) \<Longrightarrow> a < 128 \<Longrightarrow> \<not> bit a 7"
  by (simp add: bit_iff_odd)

lemma le_val_borrow:
  assumes c: "c \<le> 128" and ex: "\<exists>b\<in>set bs. uint b < c"
  shows "\<exists>k < length bs. bit (le_val bs - c * ones_val (length bs)) (8 * k + 7)
                         \<and> \<not> bit (le_val bs) (8 * k + 7)"
  using ex
proof (induction bs)
  case (Cons b bs)
  let ?d = "le_val bs - c * ones_val (length bs)"
  have eq: "le_val (b # bs) - c * ones_val (length (b # bs)) = (uint b - c) + 256 * ?d"
    by (simp add: algebra_simps)
  note bb = uint_byte_bounds [of b]
  show ?case
  proof (cases "uint b < c")
    case True
    have "bit (uint b - c) 7" by (rule bit7_neg) (use True c bb in linarith)+
    moreover have "\<not> bit (uint b) 7" by (rule bit7_small) (use True c bb in linarith)+
    ultimately have "bit (le_val (b # bs) - c * ones_val (length (b # bs))) 7
                     \<and> \<not> bit (le_val (b # bs)) 7"
      unfolding eq by (simp only: le_val.simps bit_7_low simp_thms)
    then show ?thesis by (intro exI [of _ 0]) simp
  next
    case False
    then have "\<exists>b\<in>set bs. uint b < c" using Cons.prems by auto
    then obtain k where k: "k < length bs" "bit ?d (8 * k + 7)" "\<not> bit (le_val bs) (8 * k + 7)"
      using Cons.IH by blast
    have "0 \<le> uint b - c" "uint b - c < 256" if "0 \<le> c" using False bb that by linarith+
    moreover obtain b' where "uint (b'::byte) < c" using ex by blast
    then have "0 \<le> c" using uint_byte_bounds(1) [of b'] by linarith
    ultimately have "bit (le_val (b # bs) - c * ones_val (length (b # bs))) (8 + (8 * k + 7))"
      unfolding eq using k(2) by (subst bit_add_256) auto
    moreover have "\<not> bit (le_val (b # bs)) (8 + (8 * k + 7))"
      unfolding le_val.simps using k(3) bb by (subst bit_add_256) auto
    ultimately show ?thesis using k(1) by (intro exI [of _ "Suc k"]) (auto simp: ac_simps)
  qed
qed simp

lemma byte_bit_bound: "8 \<le> n \<Longrightarrow> \<not> bit (b::byte) n"
  using bit_imp_le_length [of b n] by auto

lemma le_uint_val: "(le_uint bs :: 'a::len word) = word_of_int (le_val bs)"
proof (induction bs)
  case (Cons b bs)
  have "ucast b OR push_bit 8 (le_uint bs :: 'a word) = ucast b + push_bit 8 (le_uint bs)"
    by (rule disjunctive_add_eq_or [symmetric]) (auto intro!: bit_word_eqI simp: bit_simps byte_bit_bound)
  then show ?case using Cons by (simp add: push_bit_eq_mult)
qed simp

text \<open>
  The scan test of the sources, \<^verbatim>\<open>(w - c*ones) &^ w & high\<close>: it is not zero whenever one of the
  eight bytes of \<^verbatim>\<open>w\<close> is below \<^verbatim>\<open>c\<close> (no false negative), for every bound \<^verbatim>\<open>c\<close> up to 128.
\<close>

lemma bit_high: "k < 8 \<Longrightarrow> bit (0x8080808080808080 :: 64 word) (8 * k + 7)"
proof -
  assume "k < 8"
  then consider "k = 0" | "k = 1" | "k = 2" | "k = 3" | "k = 4" | "k = 5" | "k = 6" | "k = 7"
    by linarith
  then show ?thesis by cases simp_all
qed

lemma scan_below:
  assumes "length bs = 8" and "c \<le> 128" and "\<exists>b\<in>set bs. uint b < c"
  shows "(le_uint bs - word_of_int (c * 0x0101010101010101)) AND NOT (le_uint bs)
           AND (0x8080808080808080 :: 64 word) \<noteq> 0"
proof -
  have ones: "ones_val (length bs) = 0x0101010101010101"
    using assms(1) by (simp add: eval_nat_numeral)
  obtain k where k: "k < 8" "bit (le_val bs - c * 0x0101010101010101) (8 * k + 7)"
      "\<not> bit (le_val bs) (8 * k + 7)"
    using le_val_borrow [OF assms(2,3)] assms(1) ones by auto
  let ?w = "le_uint bs :: 64 word"
  have d: "?w - word_of_int (c * 0x0101010101010101)
             = word_of_int (le_val bs - c * 0x0101010101010101)"
    by (simp add: le_uint_val)
  have "bit (?w - word_of_int (c * 0x0101010101010101)) (8 * k + 7)"
    unfolding d bit_word_of_int_iff using k by simp
  moreover have "\<not> bit ?w (8 * k + 7)"
    using k by (simp add: le_uint_val bit_word_of_int_iff)
  ultimately have "bit ((?w - word_of_int (c * 0x0101010101010101)) AND NOT ?w
           AND 0x8080808080808080) (8 * k + 7)"
    using k(1) bit_high [OF k(1)] by (simp add: bit_and_iff bit_not_iff)
  then show ?thesis by (auto simp only: bit_0_eq bot_fun_def bot_bool_def)
qed

end
