(* ===== verification/H1_Ascii.thy ===== *)
theory H1_Ascii
  imports Prelude
begin

text \<open>
  The byte classes and the byte-slice helpers of the HTTP/1 parser: \<^verbatim>\<open>ascii.go\<close> and
  \<^verbatim>\<open>intern.go\<close> of \<^verbatim>\<open>internal/protocol/h1\<close>.
\<close>

section \<open>Definitions\<close>

subsection \<open>Byte classes\<close>

definition isUpper :: "byte \<Rightarrow> bool" where
  "isUpper c \<longleftrightarrow> 0x41 \<le> c \<and> c \<le> 0x5A"

definition tcharTable :: "byte \<Rightarrow> bool" where
  "tcharTable c \<longleftrightarrow>
     (0x61 \<le> c \<and> c \<le> 0x7A) \<or> (0x41 \<le> c \<and> c \<le> 0x5A) \<or> (0x30 \<le> c \<and> c \<le> 0x39)
     \<or> c \<in> set (str ''!#$%&'' @ [0x27] @ str ''*+-.^_'' @ [0x60] @ str ''|~'')"

definition fieldVCharTable :: "byte \<Rightarrow> bool" where
  "fieldVCharTable c \<longleftrightarrow> c = 0x09 \<or> c = 0x20 \<or> (0x21 \<le> c \<and> c \<le> 0x7E) \<or> 0x80 \<le> c"

definition targetBadTable :: "byte \<Rightarrow> bool" where
  "targetBadTable c \<longleftrightarrow> c < 0x20 \<or> c = 0x7F"

definition isValidHeaderName :: "byte list \<Rightarrow> bool" where
  "isValidHeaderName b \<longleftrightarrow> b \<noteq> [] \<and> list_all tcharTable b"

definition isValidHeaderValue :: "byte list \<Rightarrow> bool" where
  "isValidHeaderValue b \<longleftrightarrow> list_all fieldVCharTable b"

definition isToken :: "byte list \<Rightarrow> bool" where
  "isToken b = isValidHeaderName b"

text \<open>The eight-byte scan; the slice is \<^verbatim>\<open>b[i:]\<close> of the source's loop index.\<close>

definition targetSuspect :: "64 word \<Rightarrow> bool" where
  "targetSuspect w \<longleftrightarrow>
     (let x = w XOR (0x7F * 0x0101010101010101) in
      (((w - 0x20 * 0x0101010101010101) AND NOT w) OR ((x - 0x0101010101010101) AND NOT x))
        AND 0x8080808080808080 \<noteq> 0)"

fun isValidRequestTarget :: "byte list \<Rightarrow> bool" where
  "isValidRequestTarget b =
     (if 8 \<le> length b
      then (if targetSuspect (le_uint (take 8 b)) \<and> list_ex targetBadTable (take 8 b) then False
            else isValidRequestTarget (drop 8 b))
      else \<not> list_ex targetBadTable b)"

declare isValidRequestTarget.simps [simp del]

subsection \<open>Case-insensitive comparison\<close>

definition fold_byte :: "byte \<Rightarrow> byte" where
  "fold_byte c = (if isUpper c then c OR 0x20 else c)"

text \<open>The comparison loop of \<^verbatim>\<open>asciiEqualFold\<close> and of the substring searches.\<close>

fun foldLoop :: "byte list \<Rightarrow> byte list \<Rightarrow> bool" where
  "foldLoop (cb # b) (cs # s) = (if fold_byte cb \<noteq> fold_byte cs then False else foldLoop b s)"
| "foldLoop _ _ = True"

definition asciiEqualFold :: "byte list \<Rightarrow> gostring \<Rightarrow> bool" where
  "asciiEqualFold b s = (if length b \<noteq> length s then False else foldLoop b s)"

text \<open>The positions are tried from the left while \<^verbatim>\<open>i <= n-m\<close>.\<close>

fun containsLoop :: "byte list \<Rightarrow> gostring \<Rightarrow> bool" where
  "containsLoop [] sub = False"
| "containsLoop (c # s) sub =
     (if length (c # s) < length sub then False
      else if foldLoop (take (length sub) (c # s)) sub then True
      else containsLoop s sub)"

definition asciiContainsFoldString :: "gostring \<Rightarrow> gostring \<Rightarrow> bool" where
  "asciiContainsFoldString s sub =
     (if length sub = 0 then True else if length sub > length s then False else containsLoop s sub)"

definition asciiContainsFoldBytes :: "byte list \<Rightarrow> gostring \<Rightarrow> bool" where
  "asciiContainsFoldBytes b sub =
     (if length sub = 0 then True else if length sub > length b then False else containsLoop b sub)"

subsection \<open>Numbers and white space\<close>

fun parseInt64Loop :: "int \<Rightarrow> byte list \<Rightarrow> int option" where
  "parseInt64Loop n [] = Some n"
| "parseInt64Loop n (c # b) =
     (if c < 0x30 \<or> 0x39 < c then None
      else let digit = uint (c - 0x30) in
        if n > (MaxInt64 - digit) div 10 then None
        else parseInt64Loop (wrap64 (n * 10 + digit)) b)"

definition parseInt64Bytes :: "byte list \<Rightarrow> int option" where
  "parseInt64Bytes b = (if length b = 0 then None else parseInt64Loop 0 b)"

definition isOWS :: "byte \<Rightarrow> bool" where
  "isOWS c \<longleftrightarrow> c = SP \<or> c = HTAB"

definition trimSpace :: "byte list \<Rightarrow> byte list" where
  "trimSpace b = rev (dropWhile isOWS (rev (dropWhile isOWS b)))"

subsection \<open>Interning\<close>

definition internMethod :: "byte list \<Rightarrow> gostring" where
  "internMethod b =
     (if b = str ''GET'' then str ''GET''
      else if b = str ''PUT'' then str ''PUT''
      else if b = str ''POST'' then str ''POST''
      else if b = str ''HEAD'' then str ''HEAD''
      else if b = str ''PATCH'' then str ''PATCH''
      else if b = str ''DELETE'' then str ''DELETE''
      else if b = str ''OPTIONS'' then str ''OPTIONS''
      else [])"

abbreviation sHTTP11 :: gostring where "sHTTP11 \<equiv> str ''HTTP/1.1''"
abbreviation sHTTP10 :: gostring where "sHTTP10 \<equiv> str ''HTTP/1.0''"

definition internVersion :: "byte list \<Rightarrow> gostring" where
  "internVersion b =
     (if length b = 8 \<and> take 7 b = str ''HTTP/1.''
      then (if b ! 7 = 0x31 then sHTTP11 else if b ! 7 = 0x30 then sHTTP10 else b)
      else b)"

definition internPath :: "byte list \<Rightarrow> gostring" where
  "internPath b = (if length b = 1 \<and> b ! 0 = 0x2F then str ''/'' else b)"

text \<open>
  The header names of the interning switch, by first byte, each with the string it returns; the
  names of a case are tried in the order of the source.
\<close>

definition internTable :: "byte \<Rightarrow> (gostring \<times> gostring) list" where
  "internTable c =
     (if c = 0x61 then
        [(str ''Accept'', str ''accept''), (str ''Accept-Encoding'', str ''accept-encoding''),
         (str ''Accept-Language'', str ''accept-language''), (str ''Authorization'', str ''authorization'')]
      else if c = 0x63 then
        [(str ''Content-Type'', str ''content-type''), (str ''Content-Length'', str ''content-length''),
         (str ''Connection'', str ''connection''), (str ''Cookie'', str ''cookie''),
         (str ''Cache-Control'', str ''cache-control'')]
      else if c = 0x65 then [(str ''Expect'', str ''expect'')]
      else if c = 0x68 then [(str ''Host'', str ''host'')]
      else if c = 0x69 then
        [(str ''If-None-Match'', str ''if-none-match''), (str ''If-Modified-Since'', str ''if-modified-since'')]
      else if c = 0x6F then [(str ''Origin'', str ''origin'')]
      else if c = 0x72 then [(str ''Referer'', str ''referer'')]
      else if c = 0x74 then [(str ''Transfer-Encoding'', str ''transfer-encoding'')]
      else if c = 0x75 then [(str ''User-Agent'', str ''user-agent''), (str ''Upgrade'', str ''upgrade'')]
      else if c = 0x78 then
        [(str ''X-Forwarded-For'', str ''x-forwarded-for''), (str ''X-Real-IP'', str ''x-real-ip''),
         (str ''X-Request-ID'', str ''x-request-id'')]
      else [])"

definition LowerInPlace :: "byte list \<Rightarrow> byte list" where
  "LowerInPlace b = map (\<lambda>c. if 0x41 \<le> c \<and> c \<le> 0x5A then c + 0x20 else c) b"

definition internOrLowerHeader :: "byte list \<Rightarrow> gostring" where
  "internOrLowerHeader raw =
     (if length raw = 0 then []
      else case find (\<lambda>e. asciiEqualFold raw (fst e)) (internTable (hd raw OR 0x20)) of
             Some e \<Rightarrow> snd e
           | None \<Rightarrow> map (\<lambda>c. if 0x41 \<le> c \<and> c \<le> 0x5A then c + 0x20 else c) raw)"

text \<open>The name returned, and the bytes of \<^verbatim>\<open>raw\<close> after the call (it may lower them in place).\<close>

definition UnsafeLowerHeader :: "byte list \<Rightarrow> gostring \<times> byte list" where
  "UnsafeLowerHeader raw =
     (if length raw = 0 then ([], raw)
      else case find (\<lambda>e. asciiEqualFold raw (fst e)) (internTable (hd raw OR 0x20)) of
             Some e \<Rightarrow> (snd e, raw)
           | None \<Rightarrow> (LowerInPlace raw, LowerInPlace raw))"

definition LowerHeaderCopy :: "byte list \<Rightarrow> gostring" where
  "LowerHeaderCopy raw = internOrLowerHeader raw"

section \<open>Lemmas\<close>

subsection \<open>Case folding\<close>

lemma byte_all:
  assumes "list_all (\<lambda>n. P (word_of_nat n)) [0..<256]"
  shows "P (c::byte)"
proof -
  have "unat c \<in> set [0..<256]" using unsigned_less [of c] by simp
  with assms have "P (word_of_nat (unat c))" unfolding list_all_iff by blast
  then show ?thesis by simp
qed

lemma upper_or_add: "isUpper c \<longrightarrow> c OR 0x20 = c + 0x20"
  by (rule byte_all) code_simp

lemma fold_byte_or: "fold_byte c OR 0x20 = c OR 0x20"
  by (simp add: fold_byte_def or.assoc)

lemma fold_byte_add: "(if 0x41 \<le> c \<and> c \<le> 0x5A then c + 0x20 else c) = fold_byte c"
  using upper_or_add [of c] by (simp add: fold_byte_def isUpper_def)

lemma LowerInPlace_fold: "LowerInPlace b = map fold_byte b"
  unfolding LowerInPlace_def fold_byte_add ..

lemma foldLoop_iff:
  "length b = length s \<Longrightarrow> foldLoop b s \<longleftrightarrow> map fold_byte b = map fold_byte s"
  by (induction b s rule: foldLoop.induct) auto

lemma asciiEqualFold_iff: "asciiEqualFold b s \<longleftrightarrow> map fold_byte b = map fold_byte s"
  unfolding asciiEqualFold_def
  by (auto simp: foldLoop_iff dest: map_eq_imp_length_eq)

lemma asciiEqualFold_hd:
  assumes "asciiEqualFold b s" "s \<noteq> []"
  shows "b \<noteq> [] \<and> hd b OR 0x20 = hd s OR 0x20"
proof -
  from assms have "map fold_byte b = map fold_byte s" by (simp add: asciiEqualFold_iff)
  then have "b \<noteq> [] \<and> fold_byte (hd b) = fold_byte (hd s)"
    using assms(2) by (metis list.map_disc_iff hd_map)
  then show ?thesis by (metis fold_byte_or)
qed

text \<open>The substring searches find the folded text at some position.\<close>

lemma containsLoop_iff:
  "sub \<noteq> [] \<Longrightarrow> containsLoop s sub \<longleftrightarrow>
     (\<exists>a m b. s = a @ m @ b \<and> map fold_byte m = map fold_byte sub)"
proof (induction s)
  case Nil
  then show ?case by auto
next
  case (Cons c s)
  show ?case
  proof (cases "length (c # s) < length sub")
    case True
    have "\<not> (\<exists>a m b. c # s = a @ m @ b \<and> map fold_byte m = map fold_byte sub)"
    proof clarify
      fix a m b assume "c # s = a @ m @ b" "map fold_byte m = map fold_byte sub"
      then have "length (c # s) = length a + length sub + length b"
        by (metis length_append length_map add.assoc)
      then show False using True by simp
    qed
    then show ?thesis using True by simp
  next
    case False
    then have len: "length (take (length sub) (c # s)) = length sub" by simp
    note fl = foldLoop_iff [OF len]
    show ?thesis
    proof (cases "foldLoop (take (length sub) (c # s)) sub")
      case True
      then have "\<exists>a m b. c # s = a @ m @ b \<and> map fold_byte m = map fold_byte sub"
        unfolding fl
        by (intro exI [of _ "[]"] exI [of _ "take (length sub) (c # s)"]
            exI [of _ "drop (length sub) (c # s)"]) simp
      then show ?thesis using True False by simp
    next
      case nf: False
      have "(\<exists>a m b. c # s = a @ m @ b \<and> map fold_byte m = map fold_byte sub)
          \<longleftrightarrow> (\<exists>a m b. s = a @ m @ b \<and> map fold_byte m = map fold_byte sub)" (is "?l \<longleftrightarrow> ?r")
      proof
        assume ?l
        then obtain a m b where *: "c # s = a @ m @ b" "map fold_byte m = map fold_byte sub"
          by blast
        have "a \<noteq> []"
        proof
          assume "a = []"
          then have "take (length sub) (c # s) = m"
            using * by (metis append_Nil append_eq_conv_conj length_map)
          then show False using nf * fl by simp
        qed
        then show ?r using * by (auto simp: Cons_eq_append_conv)
      next
        assume ?r
        then show ?l by (metis append_Cons)
      qed
      then show ?thesis using Cons.IH [OF Cons.prems] False nf by simp
    qed
  qed
qed

lemma contains_bytes_string: "asciiContainsFoldBytes b sub = asciiContainsFoldString b sub"
  by (simp add: asciiContainsFoldBytes_def asciiContainsFoldString_def)

subsection \<open>Interning changes no value\<close>

lemma internMethod_id: "internMethod b = b \<or> internMethod b = []"
  by (simp add: internMethod_def)

lemma internVersion_id: "internVersion b = b"
proof (cases "length b = 8 \<and> take 7 b = str ''HTTP/1.''")
  case True
  then have "b = take 7 b @ [b ! 7]"
    by (metis append_take_drop_id Cons_nth_drop_Suc drop_all eval_nat_numeral(3) lessI numeral_eq_Suc
        order_refl pred_numeral_simps(2) semiring_norm(26-28))
  then have "b = str ''HTTP/1.'' @ [b ! 7]" using True by simp
  then show ?thesis by (auto simp: internVersion_def str_simps)
qed (auto simp: internVersion_def)

lemma internPath_id: "internPath b = b"
  by (cases b) (auto simp: internPath_def str_simps)

lemma internTable_fold: "e \<in> set (internTable c) \<Longrightarrow> snd e = map fold_byte (fst e)"
  by (auto simp: internTable_def fold_byte_def isUpper_def str_simps split: if_splits)

lemma internOrLowerHeader_fold: "internOrLowerHeader raw = map fold_byte raw"
proof (cases "find (\<lambda>e. asciiEqualFold raw (fst e)) (internTable (hd raw OR 0x20))")
  case None
  then show ?thesis by (simp add: internOrLowerHeader_def fold_byte_add)
next
  case (Some e)
  then have "e \<in> set (internTable (hd raw OR 0x20))" "asciiEqualFold raw (fst e)"
    by (auto simp: find_Some_iff)
  then have "snd e = map fold_byte raw"
    using internTable_fold by (simp add: asciiEqualFold_iff)
  then show ?thesis using Some by (simp add: internOrLowerHeader_def)
qed

lemma UnsafeLowerHeader_fold: "fst (UnsafeLowerHeader raw) = map fold_byte raw"
  using internOrLowerHeader_fold [of raw]
  by (auto simp: UnsafeLowerHeader_def internOrLowerHeader_def LowerInPlace_fold
      split: option.splits if_splits)

subsection \<open>Numbers\<close>

definition isDigit :: "byte \<Rightarrow> bool" where
  "isDigit c \<longleftrightarrow> 0x30 \<le> c \<and> c \<le> 0x39"

definition decVal :: "byte list \<Rightarrow> int" where
  "decVal b = foldl (\<lambda>n c. n * 10 + (uint c - 48)) 0 b"

lemma digit_value: "isDigit c \<Longrightarrow> uint (c - 0x30) = uint c - 48 \<and> 48 \<le> uint c \<and> uint c \<le> 57"
  unfolding isDigit_def by (simp add: word_le_def uint_minus_simple_alt [THEN iffD1] word_le_def)

lemma foldl_dec_mono:
  "list_all isDigit b \<Longrightarrow> 0 \<le> n \<Longrightarrow> n \<le> foldl (\<lambda>n c. n * 10 + (uint c - 48)) n b"
proof (induction b arbitrary: n)
  case (Cons c b)
  then have "n \<le> n * 10 + (uint c - 48)" "0 \<le> n * 10 + (uint c - 48)"
    using digit_value [of c] by auto
  moreover have "n * 10 + (uint c - 48)
      \<le> foldl (\<lambda>n c. n * 10 + (uint c - 48)) (n * 10 + (uint c - 48)) b"
    using Cons.IH calculation(2) Cons.prems(1) by simp
  ultimately show ?case by simp
qed simp

lemma parseInt64Loop_iff:
  assumes "0 \<le> n" "n \<le> MaxInt64"
  shows "parseInt64Loop n b = Some m \<longleftrightarrow>
     list_all isDigit b \<and> m = foldl (\<lambda>n c. n * 10 + (uint c - 48)) n b \<and> m \<le> MaxInt64"
  using assms
proof (induction b arbitrary: n)
  case Nil
  then show ?case by auto
next
  case (Cons c b)
  show ?case
  proof (cases "isDigit c")
    case False
    then show ?thesis by (auto simp: isDigit_def)
  next
    case True
    let ?d = "uint c - 48"
    have d: "uint (c - 0x30) = ?d" "0 \<le> ?d" "?d \<le> 9" using digit_value [OF True] by auto
    have nd: "\<not> (c < 0x30 \<or> 0x39 < c)" using True by (auto simp: isDigit_def)
    show ?thesis
    proof (cases "n > (MaxInt64 - ?d) div 10")
      case over: True
      then have gt: "n * 10 + ?d > MaxInt64" by linarith
      have "\<not> foldl (\<lambda>n c. n * 10 + (uint c - 48)) (n * 10 + ?d) b \<le> MaxInt64"
        if "list_all isDigit b"
        using foldl_dec_mono [OF that, of "n * 10 + ?d"] gt Cons.prems d by linarith
      then show ?thesis using True over d nd by (auto simp: Let_def)
    next
      case ok: False
      then have le: "n * 10 + ?d \<le> MaxInt64" by linarith
      have w: "wrap64 (n * 10 + ?d) = n * 10 + ?d"
        by (rule wrap64_id) (use le Cons.prems d in \<open>auto simp: MinInt64_def\<close>)
      have "parseInt64Loop n (c # b) = parseInt64Loop (n * 10 + ?d) b"
        using nd ok d w by (simp add: Let_def)
      moreover have "0 \<le> n * 10 + ?d" using Cons.prems d by linarith
      ultimately show ?thesis using Cons.IH [OF _ le] True by simp
    qed
  qed
qed

lemma parseInt64Bytes_iff:
  "parseInt64Bytes b = Some m \<longleftrightarrow>
     b \<noteq> [] \<and> list_all isDigit b \<and> m = decVal b \<and> decVal b \<le> MaxInt64"
  unfolding parseInt64Bytes_def decVal_def
  using parseInt64Loop_iff [of 0 b m] by (auto simp: MaxInt64_def)

lemma decVal_nonneg: "list_all isDigit b \<Longrightarrow> 0 \<le> decVal b"
  unfolding decVal_def using foldl_dec_mono [of b 0] by simp

subsection \<open>White space\<close>

lemma trimSpace_sub: "\<exists>a c. b = a @ trimSpace b @ c \<and> list_all isOWS a \<and> list_all isOWS c"
proof -
  let ?d = "dropWhile isOWS b"
  have 1: "b = takeWhile isOWS b @ ?d" by simp
  have "rev ?d = takeWhile isOWS (rev ?d) @ dropWhile isOWS (rev ?d)" by simp
  then have 2: "?d = trimSpace b @ rev (takeWhile isOWS (rev ?d))"
    unfolding trimSpace_def by (metis rev_append rev_rev_ident)
  have "list_all isOWS (takeWhile isOWS b)" "list_all isOWS (rev (takeWhile isOWS (rev ?d)))"
    by (auto simp: list_all_iff dest: set_takeWhileD)
  with 1 2 show ?thesis by metis
qed

lemma trimSpace_no_ows:
  assumes "trimSpace b \<noteq> []"
  shows "\<not> isOWS (hd (trimSpace b)) \<and> \<not> isOWS (last (trimSpace b))"
proof -
  let ?d = "dropWhile isOWS b"
  let ?r = "dropWhile isOWS (rev ?d)"
  have r: "?r \<noteq> []" using assms by (simp add: trimSpace_def)
  then have l: "\<not> isOWS (hd ?r)" by (rule hd_dropWhile)
  have "hd (rev ?r) = last ?r" using r by (simp add: hd_rev)
  also have "last ?r = last (rev ?d)" using r by (metis last_appendR takeWhile_dropWhile_id)
  also have "\<dots> = hd ?d" using r by (metis dropWhile.simps(1) hd_rev rev.simps(1) rev_rev_ident)
  finally have "hd (trimSpace b) = hd ?d" by (simp add: trimSpace_def)
  moreover have "?d \<noteq> []" using r by (metis dropWhile.simps(1) rev.simps(1))
  ultimately have "\<not> isOWS (hd (trimSpace b))" using hd_dropWhile by metis
  then show ?thesis using l r by (simp add: trimSpace_def last_rev)
qed

lemma trimSpace_set: "set (trimSpace b) \<subseteq> set b"
  by (auto simp: trimSpace_def dest!: set_dropWhileD)

subsection \<open>The request-target scan\<close>

lemma le_uint_xor:
  "(le_uint (map (\<lambda>b. b XOR m) bs) :: 'a::len word) = le_uint bs XOR le_uint (map (\<lambda>_. m) bs)"
proof (induction bs)
  case (Cons b bs)
  show ?case
    by (rule bit_word_eqI) (auto simp: Cons bit_simps byte_bit_bound)
qed simp

lemma targetSuspect_complete:
  assumes "length bs = 8" "list_ex targetBadTable bs"
  shows "targetSuspect (le_uint bs)"
proof -
  let ?w = "le_uint bs :: 64 word"
  let ?x = "?w XOR (0x7F * 0x0101010101010101)"
  from assms(2) obtain b where b: "b \<in> set bs" "b < 0x20 \<or> b = 0x7F"
    by (auto simp: list_ex_iff targetBadTable_def)
  have "map (\<lambda>_. 0x7F :: byte) bs = replicate 8 0x7F"
    using assms(1) by (simp add: map_replicate_const)
  moreover have "le_uint (replicate 8 (0x7F :: byte)) = (0x7F * 0x0101010101010101 :: 64 word)"
    by code_simp
  ultimately have "le_uint (map (\<lambda>_. 0x7F :: byte) bs) = (0x7F * 0x0101010101010101 :: 64 word)"
    by simp
  then have x: "?x = le_uint (map (\<lambda>b. b XOR 0x7F) bs)" by (simp add: le_uint_xor)
  show ?thesis
  proof (cases "b < 0x20")
    case True
    then have "\<exists>b\<in>set bs. uint b < 0x20" using b(1) by (auto simp: word_less_def)
    from scan_below [OF assms(1) _ this]
    have "(?w - 0x20 * 0x0101010101010101) AND NOT ?w AND 0x8080808080808080 \<noteq> 0" by simp
    then show ?thesis
      unfolding targetSuspect_def Let_def by (simp add: bit.conj_disj_distrib2 and.assoc or_eq_0_iff)
  next
    case False
    then have "(0::byte) \<in> set (map (\<lambda>b. b XOR 0x7F) bs)" using b by force
    then have "\<exists>b\<in>set (map (\<lambda>b. b XOR 0x7F) bs). uint b < 1" by force
    from scan_below [OF _ _ this] assms(1)
    have "(le_uint (map (\<lambda>b. b XOR 0x7F) bs) - 0x0101010101010101)
        AND NOT (le_uint (map (\<lambda>b. b XOR 0x7F) bs)) AND (0x8080808080808080 :: 64 word) \<noteq> 0"
      by simp
    then have "(?x - 0x0101010101010101) AND NOT ?x AND 0x8080808080808080 \<noteq> 0"
      unfolding x .
    then show ?thesis
      unfolding targetSuspect_def Let_def by (simp add: bit.conj_disj_distrib2 and.assoc or_eq_0_iff)
  qed
qed

lemma isValidRequestTarget_iff: "isValidRequestTarget b \<longleftrightarrow> \<not> list_ex targetBadTable b"
proof (induction b rule: isValidRequestTarget.induct)
  case (1 b)
  show ?case
  proof (cases "8 \<le> length b")
    case True
    have split: "list_ex targetBadTable b
        \<longleftrightarrow> list_ex targetBadTable (take 8 b) \<or> list_ex targetBadTable (drop 8 b)"
      by (metis append_take_drop_id list_ex_append)
    have "targetSuspect (le_uint (take 8 b))" if "list_ex targetBadTable (take 8 b)"
      using that True by (intro targetSuspect_complete) auto
    then show ?thesis
      using True 1 split by (subst isValidRequestTarget.simps) auto
  next
    case False
    then show ?thesis by (subst isValidRequestTarget.simps) simp
  qed
qed

end
