(* ===== verification/Incremental.thy ===== *)
theory Incremental
  imports Prelude
begin

text \<open>
  The contract the connection layer relies on whenever it parses a byte stream that arrives in
  segments: it keeps a buffer, appends what it received, runs a parser on the whole buffer and, on
  "incomplete", waits for more. The interfaces below state what such a parser must promise; the
  theories of the HTTP/1, RESP and WebSocket parsers interpret them on the code's own functions.
\<close>

section \<open>Outcomes\<close>

text \<open>
  \<open>More\<close>: the input is incomplete (Go: zero bytes consumed and a nil error, or an
  \<^verbatim>\<open>ErrIncomplete\<close>). \<open>Fail e\<close>: the error \<open>e\<close>. \<open>Done a n\<close>: the value \<open>a\<close>, read from
  the first \<open>n\<close> bytes.
\<close>

datatype ('e, 'a) outcome = More | Fail 'e | Done 'a nat

text \<open>A receive loop: run the parser after each segment until it answers.\<close>

fun feed :: "(byte list \<Rightarrow> ('e, 'a) outcome) \<Rightarrow> byte list \<Rightarrow> byte list list \<Rightarrow> ('e, 'a) outcome" where
  "feed run buf [] = run buf"
| "feed run buf (s # ss) = (case run buf of More \<Rightarrow> feed run (buf @ s) ss | r \<Rightarrow> r)"

text \<open>
  A drain loop: take values off the front of a buffer until the parser wants more or fails. The
  values, the error if any, and the bytes left.
\<close>

function drain :: "(byte list \<Rightarrow> ('e, 'a) outcome) \<Rightarrow> byte list \<Rightarrow> 'a list \<times> 'e option \<times> byte list" where
  "drain run buf =
     (case run buf of
        More \<Rightarrow> ([], None, buf)
      | Fail e \<Rightarrow> ([], Some e, buf)
      | Done a n \<Rightarrow>
          if 0 < n \<and> n \<le> length buf
          then (let (xs, e, r) = drain run (drop n buf) in (a # xs, e, r))
          else ([a], None, buf))"
  by pat_completeness auto
termination
  by (relation "measure (\<lambda>(run, buf). length buf)") auto

declare drain.simps [simp del]

section \<open>Parsers whose answers do not depend on later bytes\<close>

locale prefix_parser =
  fixes run :: "byte list \<Rightarrow> ('e, 'a) outcome"
  assumes done_bound: "run b = Done a n \<Longrightarrow> n \<le> length b"
    and done_stable: "run b = Done a n \<Longrightarrow> run (b @ c) = Done a n"
begin

lemma done_unique:
  assumes "run b = Done a n" and "run (b @ c) = Done a' n'"
  shows "a' = a \<and> n' = n"
  using assms done_stable by fastforce

lemma feed_Done: "feed run buf ss = Done a n \<Longrightarrow> run (buf @ concat ss) = Done a n"
proof (induction ss arbitrary: buf)
  case (Cons s ss)
  show ?case
  proof (cases "run buf")
    case More
    then show ?thesis using Cons.IH [of "buf @ s"] Cons.prems by simp
  qed (use Cons.prems done_stable in auto)
qed simp

end

text \<open>The stronger contract: a refusal does not depend on later bytes either.\<close>

locale strict_parser = prefix_parser +
  assumes fail_stable: "run b = Fail e \<Longrightarrow> run (b @ c) = Fail e"
begin

lemma feed_run: "feed run buf ss = run (buf @ concat ss)"
proof (induction ss arbitrary: buf)
  case (Cons s ss)
  show ?case
  proof (cases "run buf")
    case More
    then show ?thesis using Cons by simp
  qed (auto simp: done_stable fail_stable)
qed simp

lemma feed_segments: "concat ss = concat ts \<Longrightarrow> feed run buf ss = feed run buf ts"
  by (simp add: feed_run)

lemma more_prefix: "run (b @ c) = More \<Longrightarrow> run b = More"
  by (cases "run b") (use done_stable fail_stable in auto)

end

text \<open>
  Draining a buffer as it grows gives the same values as draining all of it at once, for a parser that
  consumes at least one byte for a value.
\<close>

context strict_parser
begin

lemma drain_append:
  assumes "\<And>b a n. run b = Done a n \<Longrightarrow> 0 < n" "drain run b = (xs, None, r)"
  shows "drain run (b @ c) = (let (ys, e, r') = drain run (r @ c) in (xs @ ys, e, r'))"
  using assms(2)
proof (induction "length b" arbitrary: b xs rule: less_induct)
  case less
  show ?case
  proof (cases "run b")
    case More
    then have "xs = []" "r = b" using less.prems by (simp_all add: drain.simps)
    then show ?thesis by (simp split: prod.split)
  next
    case (Fail e)
    then show ?thesis using less.prems by (simp add: drain.simps)
  next
    case (Done a n)
    have n: "0 < n" "n \<le> length b" using assms(1) [OF Done] done_bound [OF Done] by auto
    obtain ys where ys: "drain run (drop n b) = (ys, None, r)" "xs = a # ys"
      using less.prems Done n by (subst (asm) drain.simps) (auto split: prod.splits)
    have "drain run (drop n b @ c) = (let (zs, e, r') = drain run (r @ c) in (ys @ zs, e, r'))"
      using less.hyps [OF _ ys(1)] n by simp
    moreover have "drain run (b @ c) = (let (zs, e, r') = drain run (drop n b @ c) in (a # zs, e, r'))"
      using done_stable [OF Done, of c] n by (subst drain.simps) simp
    ultimately show ?thesis using ys(2) by (simp add: Let_def split: prod.splits)
  qed
qed

lemma drain_left:
  assumes "\<And>b a n. run b = Done a n \<Longrightarrow> 0 < n" "drain run b = (xs, None, r)"
  shows "run r = More"
  using assms(2)
proof (induction "length b" arbitrary: b xs rule: less_induct)
  case less
  show ?case
  proof (cases "run b")
    case (Done a n)
    have n: "0 < n" "n \<le> length b" using assms(1) [OF Done] done_bound [OF Done] by auto
    obtain ys where "drain run (drop n b) = (ys, None, r)"
      using less.prems Done n by (subst (asm) drain.simps) (auto split: prod.splits)
    then show ?thesis using less.hyps [of "drop n b" ys] n by simp
  qed (use less.prems in \<open>simp_all add: drain.simps\<close>)
qed

lemma drain_prefix:
  assumes "\<And>b a n. run b = Done a n \<Longrightarrow> 0 < n" "drain run (b @ c) = (xs, None, r)"
  shows "\<exists>ys r1. drain run b = (ys, None, r1)"
  using assms(2)
proof (induction "length b" arbitrary: b xs rule: less_induct)
  case less
  show ?case
  proof (cases "run b")
    case More
    then show ?thesis by (simp add: drain.simps)
  next
    case (Fail e)
    then show ?thesis using less.prems fail_stable [OF Fail] by (simp add: drain.simps)
  next
    case (Done a n)
    have n: "0 < n" "n \<le> length b" using assms(1) [OF Done] done_bound [OF Done] by auto
    obtain zs where zs: "drain run (drop n b @ c) = (zs, None, r)"
      using less.prems done_stable [OF Done, of c] n by (subst (asm) drain.simps) (auto split: prod.splits)
    have "length (drop n b) < length b" using n by simp
    then obtain ys r1 where "drain run (drop n b) = (ys, None, r1)" using less.hyps [OF _ zs] by blast
    then show ?thesis using Done n by (subst drain.simps) simp
  qed
qed

end

section \<open>Framed protocols\<close>

text \<open>
  A writer and a reader of the same frames: what is written is read back, whatever follows it. A
  pipelined stream of frames then drains to the list that was written, and no frame is a prefix of
  another.
\<close>

locale framing = prefix_parser run for run :: "byte list \<Rightarrow> ('e, 'a) outcome" +
  fixes enc :: "'x \<Rightarrow> byte list" and wf :: "'x \<Rightarrow> bool" and val :: "'x \<Rightarrow> 'a"
  assumes read_back: "wf x \<Longrightarrow> run (enc x @ c) = Done (val x) (length (enc x))"
    and enc_nonempty: "wf x \<Longrightarrow> enc x \<noteq> []"
begin

lemma drain_written:
  assumes "\<And>x. x \<in> set xs \<Longrightarrow> wf x"
  shows "drain run (concat (map enc xs) @ c)
       = (let (ys, e, r) = drain run c in (map val xs @ ys, e, r))"
  using assms
proof (induction xs)
  case (Cons x xs)
  have "run (enc x @ concat (map enc xs) @ c) = Done (val x) (length (enc x))"
    using Cons.prems by (intro read_back) simp
  then show ?case
    using Cons enc_nonempty [of x]
    by (subst drain.simps) (simp add: Let_def split: prod.splits)
qed simp

lemma enc_determines:
  assumes "wf x" "wf y" "enc x @ b = enc y @ c"
  shows "val x = val y \<and> b = c"
proof -
  from read_back [OF assms(1), of b] read_back [OF assms(2), of c] assms(3)
  have "Done (val x) (length (enc x)) = (Done (val y) (length (enc y)) :: ('e, 'a) outcome)"
    by simp
  then show ?thesis using assms(3) by simp
qed

end

end
