(* ===== verification/H1_Parser.thy ===== *)
theory H1_Parser
  imports H1_Ascii Incremental
begin

text \<open>
  The HTTP/1.x request parser: \<^verbatim>\<open>parser.go\<close> and \<^verbatim>\<open>request.go\<close> of
  \<^verbatim>\<open>internal/protocol/h1\<close>. The parser and the request are records threaded through the methods;
  a method that returns an error returns it with the state it leaves behind.
\<close>

section \<open>Definitions\<close>

datatype h1_error =
    ErrBufferExhausted
  | ErrInvalidRequestLine
  | ErrInvalidHeader
  | ErrMissingHost
  | ErrUnsupportedVersion
  | ErrHeadersTooLarge
  | ErrTooManyHeaders
  | ErrInvalidContentLength
  | ErrDuplicateContentLength
  | ErrRequestLineTooLong
  | ErrConflictingFraming
  | ErrInvalidTransferEncoding

definition MaxRequestLineSize :: nat where "MaxRequestLineSize = 8 * 1024"
definition MaxHeaderSize :: nat where "MaxHeaderSize = 64 * 1024"
definition MaxHeaderCount :: nat where "MaxHeaderCount = 200"

record parser =
  p_buf :: "byte list"
  p_pos :: nat
  noStringHeaders :: bool
  disableH2CDetect :: bool
  upgradeH2CSeen :: bool
  upgradeH2CDisqualified :: bool
  http2SettingsSeen :: bool
  http2SettingsRepeated :: bool
  connectionHasUpgradeToken :: bool
  connectionHasSettingsToken :: bool

record request =
  Method :: gostring
  Path :: gostring
  Version :: gostring
  Headers :: "(gostring \<times> gostring) list"
  RawHeaders :: "(byte list \<times> byte list) list"
  Host :: gostring
  ContentLength :: int
  ChunkedEncoding :: bool
  KeepAlive :: bool
  HeadersComplete :: bool
  BodyRead :: int
  ExpectContinue :: bool
  UpgradeH2C :: bool
  HTTP2Settings :: gostring

definition NewParser :: parser where
  "NewParser = \<lparr>p_buf = [], p_pos = 0, noStringHeaders = False, disableH2CDetect = False,
     upgradeH2CSeen = False, upgradeH2CDisqualified = False, http2SettingsSeen = False,
     http2SettingsRepeated = False, connectionHasUpgradeToken = False,
     connectionHasSettingsToken = False\<rparr>"

definition SetZeroCopy :: "parser \<Rightarrow> bool \<Rightarrow> parser" where
  "SetZeroCopy p enabled = p\<lparr>noStringHeaders := enabled\<rparr>"

definition SetDisableH2CDetect :: "parser \<Rightarrow> bool \<Rightarrow> parser" where
  "SetDisableH2CDetect p disabled = p\<lparr>disableH2CDetect := disabled\<rparr>"

definition ResetParser :: "parser \<Rightarrow> byte list \<Rightarrow> parser" where
  "ResetParser p b = p\<lparr>p_buf := b, p_pos := 0\<rparr>"

text \<open>\<^verbatim>\<open>Request.Reset\<close>.\<close>

definition ResetRequest :: "request \<Rightarrow> request" where
  "ResetRequest r = r\<lparr>Method := [], Path := [], Version := [], Headers := [], RawHeaders := [],
     Host := [], ContentLength := 0, ChunkedEncoding := False, KeepAlive := False,
     HeadersComplete := False, BodyRead := 0, ExpectContinue := False, UpgradeH2C := False,
     HTTP2Settings := []\<rparr>"

text \<open>Go's zero value \<^verbatim>\<open>Request{}\<close>.\<close>

definition zeroRequest :: request where
  "zeroRequest = \<lparr>Method = [], Path = [], Version = [], Headers = [], RawHeaders = [], Host = [],
     ContentLength = 0, ChunkedEncoding = False, KeepAlive = False, HeadersComplete = False,
     BodyRead = 0, ExpectContinue = False, UpgradeH2C = False, HTTP2Settings = []\<rparr>"

subsection \<open>The request line\<close>

text \<open>
  \<^verbatim>\<open>parseRequestLine\<close> in two parts: the fields of the line, and the search for its end with the bound
  on its length.
\<close>

definition requestLineFields :: "byte list \<Rightarrow> request \<Rightarrow> (h1_error + bool) \<times> request" where
  "requestLineFields line req =
     (case bytes_IndexByte line SP of
        None \<Rightarrow> (Inl ErrInvalidRequestLine, req)
      | Some sp1 \<Rightarrow>
          let methodBytes = take sp1 line; rest = drop (sp1 + 1) line
          in case bytes_IndexByte rest SP of
               None \<Rightarrow> (Inl ErrInvalidRequestLine, req)
             | Some sp2 \<Rightarrow>
                 let pathBytes = take sp2 rest; versionBytes = drop (sp2 + 1) rest;
                     interned = internMethod methodBytes
                 in if interned = [] \<and> \<not> isToken methodBytes then (Inl ErrInvalidRequestLine, req)
                    else if pathBytes = [] \<or> \<not> isValidRequestTarget pathBytes
                    then (Inl ErrInvalidRequestLine, req)
                    else
                      let req' = req\<lparr>Method := if interned = [] then methodBytes else interned,
                                     Path := internPath pathBytes,
                                     Version := internVersion versionBytes\<rparr>
                      in if Version req' \<noteq> sHTTP11 \<and> Version req' \<noteq> sHTTP10
                         then (Inl ErrUnsupportedVersion, req')
                         else (Inr True, req'))"

definition parseRequestLine :: "parser \<Rightarrow> request \<Rightarrow> (h1_error + bool) \<times> parser \<times> request" where
  "parseRequestLine p0 req =
     (let lineEnd0 = bytes_Index (drop (p_pos p0) (p_buf p0)) bCRLF;
          p = (if lineEnd0 = Some 0 then p0\<lparr>p_pos := p_pos p0 + 2\<rparr> else p0);
          lineEnd1 = (if lineEnd0 = Some 0 then bytes_Index (drop (p_pos p) (p_buf p)) bCRLF
                      else lineEnd0)
      in case lineEnd1 of
           None \<Rightarrow>
             if length (p_buf p) - p_pos p > MaxRequestLineSize then (Inl ErrRequestLineTooLong, p, req)
             else (Inr False, p, req)
         | Some lineEnd \<Rightarrow>
             if lineEnd > MaxRequestLineSize then (Inl ErrRequestLineTooLong, p, req)
             else
               let line = take lineEnd (drop (p_pos p) (p_buf p));
                   (r, req') = requestLineFields line req
               in (r, p\<lparr>p_pos := p_pos p + lineEnd + 2\<rparr>, req'))"

subsection \<open>Header fields\<close>

text \<open>The comma-separated pieces of a field value, in order: the loops over \<^verbatim>\<open>bytes.IndexByte(b, ',')\<close>.\<close>

function splitComma :: "byte list \<Rightarrow> byte list list" where
  "splitComma b =
     (case bytes_IndexByte b 0x2C of
        None \<Rightarrow> [b]
      | Some idx \<Rightarrow> take idx b # splitComma (drop (idx + 1) b))"
  by pat_completeness auto
termination
  by (relation "measure length") (auto simp: bytes_IndexByte_Some)

declare splitComma.simps [simp del]

text \<open>
  The scan of \<^verbatim>\<open>transferEncodingIsChunked\<close>: the last non-empty token so far (Go: nil at first) and
  whether a "chunked" was followed by another token.
\<close>

fun teScan :: "byte list option \<Rightarrow> bool \<Rightarrow> byte list list \<Rightarrow> byte list option \<times> bool" where
  "teScan lastTok notLast [] = (lastTok, notLast)"
| "teScan lastTok notLast (piece # ps) =
     (let tok = trimSpace piece in
      if length tok > 0 then
        teScan (Some tok)
          (notLast \<or> (case lastTok of None \<Rightarrow> False | Some t \<Rightarrow> asciiEqualFold t (str ''chunked''))) ps
      else teScan lastTok notLast ps)"

definition teListContainsChunked :: "byte list \<Rightarrow> bool" where
  "teListContainsChunked value =
     list_ex (\<lambda>piece. asciiEqualFold (trimSpace piece) (str ''chunked'')) (splitComma value)"

definition transferEncodingIsChunked :: "byte list \<Rightarrow> h1_error + bool" where
  "transferEncodingIsChunked value =
     (case teScan None False (splitComma value) of
        (None, _) \<Rightarrow> Inr False
      | (Some lastTok, sawChunkedNotLast) \<Rightarrow>
          let lastIsChunked = asciiEqualFold lastTok (str ''chunked'') in
          if sawChunkedNotLast \<or> (\<not> lastIsChunked \<and> teListContainsChunked value)
          then Inl ErrInvalidTransferEncoding
          else Inr lastIsChunked)"

text \<open>The Connection token loop of \<^verbatim>\<open>detectH2CHeader\<close>; an empty rest ends it.\<close>

fun connTokens :: "parser \<Rightarrow> byte list list \<Rightarrow> parser" where
  "connTokens p [] = p"
| "connTokens p (piece # ps) =
     (let tok = trimSpace piece in
      connTokens
        (if asciiEqualFold tok (str ''upgrade'') then p\<lparr>connectionHasUpgradeToken := True\<rparr>
         else if asciiEqualFold tok (str ''http2-settings'') then p\<lparr>connectionHasSettingsToken := True\<rparr>
         else p) ps)"

definition detectH2CHeader :: "parser \<Rightarrow> request \<Rightarrow> byte list \<Rightarrow> byte list \<Rightarrow> parser \<times> request" where
  "detectH2CHeader p req rawName rawValue =
     (if length rawName = 0 then (p, req)
      else let c = hd rawName OR 0x20 in
        if c = 0x75 then
          (if asciiEqualFold rawName (str ''Upgrade'') then
             (let trimmed = trimSpace rawValue in
              if bytes_IndexByte trimmed 0x2C \<noteq> None
              then (p\<lparr>upgradeH2CSeen := False, upgradeH2CDisqualified := True\<rparr>, req)
              else if asciiEqualFold trimmed (str ''h2c'') then
                (if \<not> upgradeH2CDisqualified p then (p\<lparr>upgradeH2CSeen := True\<rparr>, req) else (p, req))
              else (p\<lparr>upgradeH2CSeen := False, upgradeH2CDisqualified := True\<rparr>, req))
           else (p, req))
        else if c = 0x68 then
          (if asciiEqualFold rawName (str ''HTTP2-Settings'') then
             (if http2SettingsSeen p then (p\<lparr>http2SettingsRepeated := True\<rparr>, req)
              else (p\<lparr>http2SettingsSeen := True\<rparr>, req\<lparr>HTTP2Settings := trimSpace rawValue\<rparr>))
           else (p, req))
        else if c = 0x63 then
          (if asciiEqualFold rawName (str ''Connection'')
           then (connTokens p (splitComma rawValue), req)
           else (p, req))
        else (p, req))"

text \<open>The field actions, shared by the two modes of \<^verbatim>\<open>appendHeader\<close>.\<close>

definition contentLengthField :: "request \<Rightarrow> byte list \<Rightarrow> h1_error option \<times> request" where
  "contentLengthField req rawValue =
     (if ChunkedEncoding req then (Some ErrConflictingFraming, req)
      else case parseInt64Bytes rawValue of
             None \<Rightarrow> (Some ErrInvalidContentLength, req)
           | Some cl \<Rightarrow>
               if ContentLength req \<ge> 0 \<and> ContentLength req \<noteq> cl
               then (Some ErrDuplicateContentLength, req)
               else (None, req\<lparr>ContentLength := cl\<rparr>))"

definition transferEncodingField :: "request \<Rightarrow> byte list \<Rightarrow> h1_error option \<times> request" where
  "transferEncodingField req rawValue =
     (case transferEncodingIsChunked rawValue of
        Inl terr \<Rightarrow> (Some terr, req)
      | Inr chunked \<Rightarrow>
          if chunked then
            (if ContentLength req \<ge> 0 then (Some ErrConflictingFraming, req)
             else (None, req\<lparr>ChunkedEncoding := True, ContentLength := -1\<rparr>))
          else (None, req))"

definition connectionField :: "(gostring \<Rightarrow> gostring \<Rightarrow> bool) \<Rightarrow> request \<Rightarrow> byte list \<Rightarrow> request" where
  "connectionField contains req value =
     (if contains value (str ''close'') then req\<lparr>KeepAlive := False\<rparr>
      else if contains value (str ''keep-alive'') then req\<lparr>KeepAlive := True\<rparr>
      else req)"

definition expectField :: "(gostring \<Rightarrow> gostring \<Rightarrow> bool) \<Rightarrow> request \<Rightarrow> byte list \<Rightarrow> request" where
  "expectField contains req value =
     (if contains value (str ''100-continue'') then req\<lparr>ExpectContinue := True\<rparr> else req)"

text \<open>The switch on the interned name (string mode).\<close>

definition appendStringHeader :: "request \<Rightarrow> byte list \<Rightarrow> byte list \<Rightarrow> h1_error option \<times> request" where
  "appendStringHeader req0 rawName rawValue =
     (let name = internOrLowerHeader rawName;
          req = req0\<lparr>Headers := Headers req0 @ [(name, rawValue)]\<rparr>
      in if name = str ''host'' then (None, req\<lparr>Host := rawValue\<rparr>)
         else if name = str ''content-length'' then contentLengthField req rawValue
         else if name = str ''transfer-encoding'' then transferEncodingField req rawValue
         else if name = str ''connection'' then (None, connectionField asciiContainsFoldString req rawValue)
         else if name = str ''expect'' then (None, expectField asciiContainsFoldString req rawValue)
         else (None, req))"

text \<open>The first-byte dispatch (zero-copy mode).\<close>

definition appendRawHeader :: "request \<Rightarrow> byte list \<Rightarrow> byte list \<Rightarrow> h1_error option \<times> request" where
  "appendRawHeader req rawName rawValue =
     (if length rawName = 0 then (None, req)
      else let c = hd rawName OR 0x20 in
        if c = 0x68 then
          (if asciiEqualFold rawName (str ''Host'') then (None, req\<lparr>Host := rawValue\<rparr>) else (None, req))
        else if c = 0x63 then
          (if asciiEqualFold rawName (str ''Content-Length'') then contentLengthField req rawValue
           else if asciiEqualFold rawName (str ''Connection'')
           then (None, connectionField asciiContainsFoldBytes req rawValue)
           else (None, req))
        else if c = 0x74 then
          (if asciiEqualFold rawName (str ''Transfer-Encoding'') then transferEncodingField req rawValue
           else (None, req))
        else if c = 0x65 then
          (if asciiEqualFold rawName (str ''Expect'')
           then (None, expectField asciiContainsFoldBytes req rawValue) else (None, req))
        else (None, req))"

definition appendHeader ::
  "parser \<Rightarrow> request \<Rightarrow> byte list \<Rightarrow> byte list \<Rightarrow> h1_error option \<times> parser \<times> request" where
  "appendHeader p req0 rawName rawValue =
     (let req1 = req0\<lparr>RawHeaders := RawHeaders req0 @ [(rawName, rawValue)]\<rparr>;
          (p2, req2) = (if \<not> disableH2CDetect p then detectH2CHeader p req1 rawName rawValue else (p, req1));
          (e, req3) = (if \<not> noStringHeaders p2 then appendStringHeader req2 rawName rawValue
                       else appendRawHeader req2 rawName rawValue)
      in (e, p2, req3))"

lemma connTokens_frame:
  "p_buf (connTokens p ps) = p_buf p" "p_pos (connTokens p ps) = p_pos p"
  "noStringHeaders (connTokens p ps) = noStringHeaders p"
  "disableH2CDetect (connTokens p ps) = disableH2CDetect p"
  by (induction p ps rule: connTokens.induct) (auto simp: Let_def)

lemma appendHeader_frame:
  assumes "appendHeader p req n v = (e, p', req')"
  shows "p_buf p' = p_buf p" "p_pos p' = p_pos p"
    "noStringHeaders p' = noStringHeaders p" "disableH2CDetect p' = disableH2CDetect p"
  using assms
  by (auto simp: appendHeader_def detectH2CHeader_def Let_def connTokens_frame
      split: prod.splits if_splits)

subsection \<open>The header block\<close>

function parseHeadersLoop ::
  "parser \<Rightarrow> request \<Rightarrow> nat \<Rightarrow> (h1_error + bool) \<times> parser \<times> request" where
  "parseHeadersLoop p req totalHeaderBytes =
     (case bytes_Index (drop (p_pos p) (p_buf p)) bCRLF of
        None \<Rightarrow> (Inr False, p, req)
      | Some lineEnd \<Rightarrow>
          let line = take lineEnd (drop (p_pos p) (p_buf p));
              p1 = p\<lparr>p_pos := p_pos p + lineEnd + 2\<rparr>;
              total = totalHeaderBytes + lineEnd + 2
          in if total > MaxHeaderSize then (Inl ErrHeadersTooLarge, p1, req)
             else if length line = 0 then (Inr True, p1, req\<lparr>HeadersComplete := True\<rparr>)
             else if length (RawHeaders req) \<ge> MaxHeaderCount then (Inl ErrTooManyHeaders, p1, req)
             else case bytes_IndexByte line 0x3A of
                    None \<Rightarrow> (Inl ErrInvalidHeader, p1, req)
                  | Some colonIdx \<Rightarrow>
                      if colonIdx = 0 \<or> line ! (colonIdx - 1) = SP \<or> line ! (colonIdx - 1) = HTAB
                      then (Inl ErrInvalidHeader, p1, req)
                      else
                        let rawName = take colonIdx line;
                            rawValue = trimSpace (drop (colonIdx + 1) line)
                        in if \<not> isValidHeaderName rawName \<or> \<not> isValidHeaderValue rawValue
                           then (Inl ErrInvalidHeader, p1, req)
                           else case appendHeader p1 req rawName rawValue of
                                  (Some err, p2, req2) \<Rightarrow> (Inl err, p2, req2)
                                | (None, p2, req2) \<Rightarrow> parseHeadersLoop p2 req2 total)"
  by pat_completeness auto
termination
proof (relation "measure (\<lambda>(p, req, t). length (p_buf p) - p_pos p)", goal_cases)
  case (2 p req t lineEnd line p1 total colonIdx rawName rawValue e y p2 req2)
  then have "lineEnd + 2 \<le> length (p_buf p) - p_pos p"
    using bytes_Index_bound [of "drop (p_pos p) (p_buf p)" bCRLF lineEnd] by simp
  moreover have "appendHeader p1 req rawName rawValue = (e, p2, req2)" using 2 by simp
  then have "p_buf p2 = p_buf p1" "p_pos p2 = p_pos p1" by (rule appendHeader_frame)+
  ultimately show ?case using 2(3) by simp
qed simp

declare parseHeadersLoop.simps [simp del]

definition parseHeaders :: "parser \<Rightarrow> request \<Rightarrow> (h1_error + bool) \<times> parser \<times> request" where
  "parseHeaders p req = parseHeadersLoop p req 0"

subsection \<open>A whole request\<close>

text \<open>
  \<^verbatim>\<open>ParseRequest\<close> returns the number of bytes consumed, 0 when the request is incomplete. The capacity
  of the Headers slice is not modelled: both branches of the source leave it empty.
\<close>

definition ParseRequest :: "parser \<Rightarrow> request \<Rightarrow> (h1_error + nat) \<times> parser \<times> request" where
  "ParseRequest p0 req0 =
     (if p_pos p0 \<ge> length (p_buf p0) then (Inl ErrBufferExhausted, p0, req0)
      else case parseRequestLine p0 req0 of
             (Inl err, p, req) \<Rightarrow> (Inl err, p, req)
           | (Inr False, p, req) \<Rightarrow> (Inr 0, p, req)
           | (Inr True, p, req) \<Rightarrow>
               let req1 = req\<lparr>Headers := [], RawHeaders := [], ContentLength := -1,
                             KeepAlive := (Version req = sHTTP11)\<rparr>;
                   p1 = p\<lparr>upgradeH2CSeen := False, upgradeH2CDisqualified := False,
                         http2SettingsSeen := False, http2SettingsRepeated := False,
                         connectionHasUpgradeToken := False, connectionHasSettingsToken := False\<rparr>
               in case parseHeaders p1 req1 of
                    (Inl err, p2, req2) \<Rightarrow> (Inl err, p2, req2)
                  | (Inr False, p2, req2) \<Rightarrow> (Inr 0, p2, req2)
                  | (Inr True, p2, req2) \<Rightarrow>
                      if Host req2 = [] then (Inl ErrMissingHost, p2, req2)
                      else
                        (Inr (p_pos p2), p2,
                         if upgradeH2CSeen p2 \<and> http2SettingsSeen p2 \<and> \<not> http2SettingsRepeated p2
                            \<and> connectionHasUpgradeToken p2 \<and> connectionHasSettingsToken p2
                         then req2\<lparr>UpgradeH2C := True\<rparr> else req2))"

definition Remaining :: "parser \<Rightarrow> nat" where
  "Remaining p = length (p_buf p) - p_pos p"

definition GetBody :: "parser \<Rightarrow> int \<Rightarrow> byte list \<times> parser" where
  "GetBody p contentLength =
     (if contentLength \<le> 0 then ([], p)
      else let available = length (p_buf p) - p_pos p in
        if int available < contentLength then (drop (p_pos p) (p_buf p), p)
        else (take (nat contentLength) (drop (p_pos p) (p_buf p)),
              p\<lparr>p_pos := p_pos p + nat contentLength\<rparr>))"

definition ConsumeBody :: "parser \<Rightarrow> nat \<Rightarrow> parser" where
  "ConsumeBody p n = p\<lparr>p_pos := p_pos p + n\<rparr>"

text \<open>
  What a connection runs on its receive buffer: reset the parser and the request, parse. \<open>zc\<close> is
  the zero-copy mode, \<open>nodetect\<close> the switch that skips the h2c detection.
\<close>

definition parse_buffer :: "bool \<Rightarrow> bool \<Rightarrow> byte list \<Rightarrow> (h1_error + nat) \<times> parser \<times> request" where
  "parse_buffer zc nodetect b =
     ParseRequest (ResetParser (SetDisableH2CDetect (SetZeroCopy NewParser zc) nodetect) b)
       zeroRequest"

definition request_outcome :: "bool \<Rightarrow> bool \<Rightarrow> byte list \<Rightarrow> (h1_error, request) outcome" where
  "request_outcome zc nodetect b =
     (case parse_buffer zc nodetect b of
        (Inl e, _, _) \<Rightarrow> Fail e
      | (Inr n, _, r) \<Rightarrow> if n = 0 then More else Done r n)"

end
