(* ===== verification/H1_Correct.thy ===== *)
theory H1_Correct
  imports H1_Parser
begin

text \<open>
  What the HTTP/1.x request parser guarantees: its answers do not depend on how the request was cut
  into segments, the two header modes agree, the framing it reports is the one the header fields
  determine, and what it accepts is bounded and free of control bytes.
\<close>

section \<open>Bytes that arrive later\<close>

lemma connTokens_buf: "connTokens (p\<lparr>p_buf := b\<rparr>) ps = (connTokens p ps)\<lparr>p_buf := b\<rparr>"
proof (induction p ps rule: connTokens.induct)
  case (2 p piece ps)
  let ?u = "asciiEqualFold (trimSpace piece) (str ''upgrade'')"
  let ?h = "asciiEqualFold (trimSpace piece) (str ''http2-settings'')"
  have "(if ?u then (p\<lparr>p_buf := b\<rparr>)\<lparr>connectionHasUpgradeToken := True\<rparr>
         else if ?h then (p\<lparr>p_buf := b\<rparr>)\<lparr>connectionHasSettingsToken := True\<rparr> else p\<lparr>p_buf := b\<rparr>)
      = (if ?u then p\<lparr>connectionHasUpgradeToken := True\<rparr>
         else if ?h then p\<lparr>connectionHasSettingsToken := True\<rparr> else p)\<lparr>p_buf := b\<rparr>"
    by simp
  then show ?case using 2 [OF refl] by (simp only: connTokens.simps Let_def)
qed simp

lemma detectH2CHeader_buf:
  "detectH2CHeader (p\<lparr>p_buf := b\<rparr>) req n v
     = (case detectH2CHeader p req n v of (p', r') \<Rightarrow> (p'\<lparr>p_buf := b\<rparr>, r'))"
  by (simp add: detectH2CHeader_def Let_def connTokens_buf)

lemma appendHeader_buf:
  "appendHeader (p\<lparr>p_buf := b\<rparr>) req n v
     = (case appendHeader p req n v of (e, p', r') \<Rightarrow> (e, p'\<lparr>p_buf := b\<rparr>, r'))"
  by (simp add: appendHeader_def Let_def detectH2CHeader_buf split: prod.splits)

lemma appendHeader_buf_pos:
  assumes "appendHeader (p\<lparr>p_pos := k\<rparr>) req n v = (e, p2, req2)"
  shows "appendHeader (p\<lparr>p_buf := b, p_pos := k\<rparr>) req n v = (e, p2\<lparr>p_buf := b\<rparr>, req2)"
proof -
  have "p\<lparr>p_buf := b, p_pos := k\<rparr> = (p\<lparr>p_pos := k\<rparr>)\<lparr>p_buf := b\<rparr>" by simp
  then show ?thesis by (simp only: appendHeader_buf assms prod.case)
qed

text \<open>One turn of the header loop, as a case distinction on the line at the cursor.\<close>

datatype line_result = LEnd | LBad h1_error | LField "byte list" "byte list"

definition classifyLine :: "request \<Rightarrow> nat \<Rightarrow> byte list \<Rightarrow> line_result" where
  "classifyLine req tot line =
     (if tot > MaxHeaderSize then LBad ErrHeadersTooLarge
      else if line = [] then LEnd
      else if length (RawHeaders req) \<ge> MaxHeaderCount then LBad ErrTooManyHeaders
      else case bytes_IndexByte line 0x3A of
             None \<Rightarrow> LBad ErrInvalidHeader
           | Some k \<Rightarrow>
               if k = 0 \<or> line ! (k - 1) = SP \<or> line ! (k - 1) = HTAB
                  \<or> \<not> isValidHeaderName (take k line)
                  \<or> \<not> isValidHeaderValue (trimSpace (drop (k + 1) line))
               then LBad ErrInvalidHeader
               else LField (take k line) (trimSpace (drop (k + 1) line)))"

lemma parseHeadersLoop_line:
  "parseHeadersLoop p req t =
     (case bytes_Index (drop (p_pos p) (p_buf p)) bCRLF of
        None \<Rightarrow> (Inr False, p, req)
      | Some le \<Rightarrow>
          let p1 = p\<lparr>p_pos := p_pos p + le + 2\<rparr>
          in case classifyLine req (t + le + 2) (take le (drop (p_pos p) (p_buf p))) of
               LEnd \<Rightarrow> (Inr True, p1, req\<lparr>HeadersComplete := True\<rparr>)
             | LBad e \<Rightarrow> (Inl e, p1, req)
             | LField n v \<Rightarrow>
                 (case appendHeader p1 req n v of
                    (Some e, p2, req2) \<Rightarrow> (Inl e, p2, req2)
                  | (None, p2, req2) \<Rightarrow> parseHeadersLoop p2 req2 (t + le + 2)))"
proof (cases "bytes_Index (drop (p_pos p) (p_buf p)) bCRLF")
  case None
  then show ?thesis by (subst parseHeadersLoop.simps) simp
next
  case (Some le)
  obtain line where "take le (drop (p_pos p) (p_buf p)) = line" by blast
  with Some show ?thesis
    by (subst parseHeadersLoop.simps) (simp add: classifyLine_def Let_def del: add_2_eq_Suc' split: option.splits)
qed

text \<open>The induction principle of the loop: one case per outcome of the line at the cursor.\<close>

lemma parseHeadersLoop_induct [consumes 1, case_names more last bad refused field]:
  assumes run: "parseHeadersLoop p req t = (r, p', req')"
    and more: "\<And>p req t. bytes_Index (drop (p_pos p) (p_buf p)) bCRLF = None \<Longrightarrow>
        P p req t (Inr False) p req"
    and last: "\<And>p req t le. bytes_Index (drop (p_pos p) (p_buf p)) bCRLF = Some le \<Longrightarrow>
        classifyLine req (t + le + 2) (take le (drop (p_pos p) (p_buf p))) = LEnd \<Longrightarrow>
        P p req t (Inr True) (p\<lparr>p_pos := p_pos p + le + 2\<rparr>) (req\<lparr>HeadersComplete := True\<rparr>)"
    and bad: "\<And>p req t le e. bytes_Index (drop (p_pos p) (p_buf p)) bCRLF = Some le \<Longrightarrow>
        classifyLine req (t + le + 2) (take le (drop (p_pos p) (p_buf p))) = LBad e \<Longrightarrow>
        P p req t (Inl e) (p\<lparr>p_pos := p_pos p + le + 2\<rparr>) req"
    and refused: "\<And>p req t le n v e p2 req2.
        bytes_Index (drop (p_pos p) (p_buf p)) bCRLF = Some le \<Longrightarrow>
        classifyLine req (t + le + 2) (take le (drop (p_pos p) (p_buf p))) = LField n v \<Longrightarrow>
        appendHeader (p\<lparr>p_pos := p_pos p + le + 2\<rparr>) req n v = (Some e, p2, req2) \<Longrightarrow>
        P p req t (Inl e) p2 req2"
    and field: "\<And>p req t le n v p2 req2 r p' req'.
        bytes_Index (drop (p_pos p) (p_buf p)) bCRLF = Some le \<Longrightarrow>
        classifyLine req (t + le + 2) (take le (drop (p_pos p) (p_buf p))) = LField n v \<Longrightarrow>
        appendHeader (p\<lparr>p_pos := p_pos p + le + 2\<rparr>) req n v = (None, p2, req2) \<Longrightarrow>
        parseHeadersLoop p2 req2 (t + le + 2) = (r, p', req') \<Longrightarrow>
        P p2 req2 (t + le + 2) r p' req' \<Longrightarrow> P p req t r p' req'"
  shows "P p req t r p' req'"
  using run
proof (induction "length (p_buf p) - p_pos p" arbitrary: p req t rule: less_induct)
  case less
  show ?case
  proof (cases "bytes_Index (drop (p_pos p) (p_buf p)) bCRLF")
    case None
    then show ?thesis using less.prems more [OF None] by (simp add: parseHeadersLoop_line)
  next
    case (Some le)
    let ?p1 = "p\<lparr>p_pos := p_pos p + le + 2\<rparr>"
    show ?thesis
    proof (cases "classifyLine req (t + le + 2) (take le (drop (p_pos p) (p_buf p)))")
      case LEnd
      then show ?thesis using less.prems last [OF Some LEnd] Some by (simp add: parseHeadersLoop_line)
    next
      case (LBad e)
      then show ?thesis using less.prems bad [OF Some LBad] Some by (simp add: parseHeadersLoop_line)
    next
      case (LField n v)
      obtain e p2 req2 where ap: "appendHeader ?p1 req n v = (e, p2, req2)" by (metis prod_cases3)
      show ?thesis
      proof (cases e)
        case e: (Some err)
        then show ?thesis
          using less.prems refused [OF Some LField ap [unfolded e]] Some LField ap
          by (simp add: parseHeadersLoop_line)
      next
        case e: None
        have run2: "parseHeadersLoop p2 req2 (t + le + 2) = (r, p', req')"
          using less.prems Some LField ap e by (simp add: parseHeadersLoop_line)
        have "p_buf p2 = p_buf p" "p_pos p2 = p_pos p + le + 2"
          using appendHeader_frame [OF ap] by simp_all
        moreover have "le + 2 \<le> length (p_buf p) - p_pos p"
          using bytes_Index_bound [OF Some] by simp
        ultimately have "length (p_buf p2) - p_pos p2 < length (p_buf p) - p_pos p" by simp
        from less.hyps [OF this run2] show ?thesis
          using field [OF Some LField ap [unfolded e] run2] by simp
      qed
    qed
  qed
qed

lemma Index_drop_append:
  assumes "bytes_Index (drop k b) s = Some i" and "s \<noteq> []"
  shows "bytes_Index (drop k (b @ c)) s = Some i \<and> take i (drop k (b @ c)) = take i (drop k b)"
proof -
  have le: "i + length s \<le> length (drop k b)" by (rule bytes_Index_bound [OF assms(1)])
  then have k: "k \<le> length b" using assms(2) by (cases s) auto
  then have "bytes_Index (drop k b @ c) s = Some i" by (intro bytes_Index_append assms)
  then show ?thesis using k le by simp
qed

lemma parseHeadersLoop_append:
  assumes "parseHeadersLoop p req t = (r, p', req')"
  shows "r \<noteq> Inr False \<longrightarrow>
    parseHeadersLoop (p\<lparr>p_buf := p_buf p @ c\<rparr>) req t = (r, p'\<lparr>p_buf := p_buf p @ c\<rparr>, req')"
  using assms
proof (induction rule: parseHeadersLoop_induct)
  case (field p req t le n v p2 req2 r p' req')
  have ix: "bytes_Index (drop (p_pos p) (p_buf p @ c)) bCRLF = Some le"
      "take le (drop (p_pos p) (p_buf p @ c)) = take le (drop (p_pos p) (p_buf p))"
    using Index_drop_append [OF field(1), of c] by auto
  have ap: "appendHeader (p\<lparr>p_buf := p_buf p @ c, p_pos := p_pos p + le + 2\<rparr>) req n v
      = (None, p2\<lparr>p_buf := p_buf p @ c\<rparr>, req2)"
    by (rule appendHeader_buf_pos [OF field(3)])
  have "p_buf p2 = p_buf p" using appendHeader_frame [OF field(3)] by simp
  with field(5) ix ap field(2) show ?case
    by (subst parseHeadersLoop_line) (simp add: Let_def del: drop_append take_append add_2_eq_Suc')
next
  case (refused p req t le n v e p2 req2)
  have ap: "appendHeader (p\<lparr>p_buf := p_buf p @ c, p_pos := p_pos p + le + 2\<rparr>) req n v
      = (Some e, p2\<lparr>p_buf := p_buf p @ c\<rparr>, req2)"
    by (rule appendHeader_buf_pos [OF refused(3)])
  then show ?case
    using Index_drop_append [OF refused(1), of c] refused(2)
    by (subst parseHeadersLoop_line) (simp add: Let_def del: drop_append take_append add_2_eq_Suc')
next
  case (last p req t le)
  then show ?case
    using Index_drop_append [OF last(1), of c] by (subst parseHeadersLoop_line) (simp add: Let_def del: drop_append take_append add_2_eq_Suc')
next
  case (bad p req t le e)
  then show ?case
    using Index_drop_append [OF bad(1), of c] by (subst parseHeadersLoop_line) (simp add: Let_def del: drop_append take_append add_2_eq_Suc')
qed simp

text \<open>Where the request line starts: one empty line before it is skipped.\<close>

definition lineStart :: "parser \<Rightarrow> nat" where
  "lineStart p = (if bytes_Index (drop (p_pos p) (p_buf p)) bCRLF = Some 0 then p_pos p + 2 else p_pos p)"

lemma parseRequestLine_line:
  "parseRequestLine p req =
     (case bytes_Index (drop (lineStart p) (p_buf p)) bCRLF of
        None \<Rightarrow>
          (if length (p_buf p) - lineStart p > MaxRequestLineSize then Inl ErrRequestLineTooLong
           else Inr False, p\<lparr>p_pos := lineStart p\<rparr>, req)
      | Some le \<Rightarrow>
          if le > MaxRequestLineSize then (Inl ErrRequestLineTooLong, p\<lparr>p_pos := lineStart p\<rparr>, req)
          else (case requestLineFields (take le (drop (lineStart p) (p_buf p))) req of
                  (r, req') \<Rightarrow> (r, p\<lparr>p_pos := lineStart p + le + 2\<rparr>, req')))"
  by (simp add: parseRequestLine_def lineStart_def Let_def split: option.splits prod.splits)

lemma parseRequestLine_frame:
  assumes "parseRequestLine p req = (r, p', req')"
  shows "p_buf p' = p_buf p" "noStringHeaders p' = noStringHeaders p"
    "disableH2CDetect p' = disableH2CDetect p"
  using assms by (auto simp: parseRequestLine_line split: option.splits if_splits prod.splits)

lemma parseRequestLine_append:
  assumes run: "parseRequestLine p req = (r, p', req')"
    and r: "r \<noteq> Inr False" "r \<noteq> Inl ErrRequestLineTooLong"
  shows "parseRequestLine (p\<lparr>p_buf := p_buf p @ c\<rparr>) req = (r, p'\<lparr>p_buf := p_buf p @ c\<rparr>, req')"
proof -
  let ?b = "p_buf p" and ?k = "lineStart p"
  obtain le where le: "bytes_Index (drop ?k ?b) bCRLF = Some le" "\<not> le > MaxRequestLineSize"
    using run r by (auto simp: parseRequestLine_line split: option.splits if_splits)
  have start: "lineStart (p\<lparr>p_buf := ?b @ c\<rparr>) = ?k"
  proof (cases "bytes_Index (drop (p_pos p) ?b) bCRLF")
    case None
    then show ?thesis using le by (simp add: lineStart_def)
  next
    case (Some i)
    then show ?thesis
      using Index_drop_append [OF Some, of c] by (simp add: lineStart_def del: drop_append)
  qed
  have "bytes_Index (drop ?k (?b @ c)) bCRLF = Some le"
      "take le (drop ?k (?b @ c)) = take le (drop ?k ?b)"
    using Index_drop_append [OF le(1), of c] by auto
  then show ?thesis
    using run le start
    by (auto simp: parseRequestLine_line simp del: drop_append take_append split: prod.splits)
qed

text \<open>The parser state \<^verbatim>\<open>ParseRequest\<close> enters the header block with.\<close>

definition enterHeaders :: "parser \<Rightarrow> parser" where
  "enterHeaders p = p\<lparr>upgradeH2CSeen := False, upgradeH2CDisqualified := False,
     http2SettingsSeen := False, http2SettingsRepeated := False,
     connectionHasUpgradeToken := False, connectionHasSettingsToken := False\<rparr>"

definition enterRequest :: "request \<Rightarrow> request" where
  "enterRequest req = req\<lparr>Headers := [], RawHeaders := [], ContentLength := -1,
     KeepAlive := (Version req = sHTTP11)\<rparr>"

definition h2cUpgrade :: "parser \<Rightarrow> bool" where
  "h2cUpgrade p \<longleftrightarrow> upgradeH2CSeen p \<and> http2SettingsSeen p \<and> \<not> http2SettingsRepeated p
     \<and> connectionHasUpgradeToken p \<and> connectionHasSettingsToken p"

definition leaveHeaders :: "parser \<Rightarrow> request \<Rightarrow> (h1_error + nat) \<times> parser \<times> request" where
  "leaveHeaders p req =
     (if Host req = [] then (Inl ErrMissingHost, p, req)
      else (Inr (p_pos p), p, if h2cUpgrade p then req\<lparr>UpgradeH2C := True\<rparr> else req))"

lemma ParseRequest_parts:
  "ParseRequest p0 req0 =
     (if p_pos p0 \<ge> length (p_buf p0) then (Inl ErrBufferExhausted, p0, req0)
      else case parseRequestLine p0 req0 of
             (Inl err, p, req) \<Rightarrow> (Inl err, p, req)
           | (Inr False, p, req) \<Rightarrow> (Inr 0, p, req)
           | (Inr True, p, req) \<Rightarrow>
               (case parseHeadersLoop (enterHeaders p) (enterRequest req) 0 of
                  (Inl err, p2, req2) \<Rightarrow> (Inl err, p2, req2)
                | (Inr False, p2, req2) \<Rightarrow> (Inr 0, p2, req2)
                | (Inr True, p2, req2) \<Rightarrow> leaveHeaders p2 req2))"
  unfolding ParseRequest_def enterHeaders_def enterRequest_def leaveHeaders_def h2cUpgrade_def
    parseHeaders_def Let_def by (rule refl)

lemma ParseRequest_append:
  assumes run: "ParseRequest p req = (r, p', req')"
    and r: "r \<noteq> Inr 0" "r \<noteq> Inl ErrBufferExhausted" "r \<noteq> Inl ErrRequestLineTooLong"
  shows "ParseRequest (p\<lparr>p_buf := p_buf p @ c\<rparr>) req = (r, p'\<lparr>p_buf := p_buf p @ c\<rparr>, req')"
proof -
  have pos: "\<not> p_pos p \<ge> length (p_buf p)" using run r by (auto simp: ParseRequest_parts)
  obtain r1 p1 req1 where l: "parseRequestLine p req = (r1, p1, req1)" by (metis prod_cases3)
  have r1: "r1 \<noteq> Inr False" "r1 \<noteq> Inl ErrRequestLineTooLong"
    using run r pos l by (auto simp: ParseRequest_parts split: sum.splits bool.splits)
  note l' = parseRequestLine_append [OF l r1, of c]
  have b1: "p_buf p1 = p_buf p" using parseRequestLine_frame [OF l] by simp
  show ?thesis
  proof (cases r1)
    case (Inl e)
    then show ?thesis using run pos l l' by (simp add: ParseRequest_parts)
  next
    case (Inr ok)
    then have ok: "r1 = Inr True" using r1 by simp
    obtain r2 p2 req2 where h: "parseHeadersLoop (enterHeaders p1) (enterRequest req1) 0 = (r2, p2, req2)"
      by (metis prod_cases3)
    have r2: "r2 \<noteq> Inr False" using run r pos l ok h by (auto simp: ParseRequest_parts)
    have e: "(enterHeaders p1)\<lparr>p_buf := p_buf p @ c\<rparr> = enterHeaders (p1\<lparr>p_buf := p_buf p @ c\<rparr>)"
      "p_buf (enterHeaders p1) = p_buf p"
      by (simp_all add: enterHeaders_def b1)
    have h': "parseHeadersLoop (enterHeaders (p1\<lparr>p_buf := p_buf p @ c\<rparr>)) (enterRequest req1) 0
        = (r2, p2\<lparr>p_buf := p_buf p @ c\<rparr>, req2)"
      using parseHeadersLoop_append [OF h, of c] r2 e by simp
    show ?thesis
      using run pos l l' ok h h' r2
      by (auto simp: ParseRequest_parts leaveHeaders_def h2cUpgrade_def split: sum.splits if_splits)
  qed
qed

section \<open>Positions and sizes\<close>

lemma parseHeadersLoop_pos:
  assumes "parseHeadersLoop p req t = (r, p', req')"
  shows "p_buf p' = p_buf p \<and> noStringHeaders p' = noStringHeaders p
    \<and> disableH2CDetect p' = disableH2CDetect p \<and> p_pos p \<le> p_pos p'
    \<and> (p_pos p \<le> length (p_buf p) \<longrightarrow> p_pos p' \<le> length (p_buf p))
    \<and> (r = Inr True \<longrightarrow> p_pos p < p_pos p' \<and> t + (p_pos p' - p_pos p) \<le> MaxHeaderSize)"
  using assms
proof (induction rule: parseHeadersLoop_induct)
  case (last p req t le)
  then show ?case using bytes_Index_bound [OF last(1)] by (auto simp: classifyLine_def split: if_splits)
next
  case (bad p req t le e)
  then show ?case using bytes_Index_bound [OF bad(1)] by auto
next
  case (refused p req t le n v e p2 req2)
  then show ?case using bytes_Index_bound [OF refused(1)] appendHeader_frame [OF refused(3)] by auto
next
  case (field p req t le n v p2 req2 r p' req')
  then show ?case using bytes_Index_bound [OF field(1)] appendHeader_frame [OF field(3)] by auto
qed simp

lemma parseRequestLine_pos:
  assumes "parseRequestLine p req = (Inr True, p', req')"
  shows "p_pos p < p_pos p' \<and> p_pos p' \<le> length (p_buf p)
    \<and> p_pos p' \<le> p_pos p + 2 + MaxRequestLineSize + 2"
proof -
  obtain le where le: "bytes_Index (drop (lineStart p) (p_buf p)) bCRLF = Some le"
      "le \<le> MaxRequestLineSize" "p_pos p' = lineStart p + le + 2"
    using assms by (auto simp: parseRequestLine_line split: option.splits if_splits prod.splits)
  have "lineStart p \<ge> p_pos p" "lineStart p \<le> p_pos p + 2" by (simp_all add: lineStart_def)
  then show ?thesis using le bytes_Index_bound [OF le(1)] by auto
qed

lemma ParseRequest_Done:
  assumes "ParseRequest p req = (Inr n, p', req')" and "0 < n"
  obtains p1 req1 req2 where
    "parseRequestLine p req = (Inr True, p1, req1)"
    "parseHeadersLoop (enterHeaders p1) (enterRequest req1) 0 = (Inr True, p', req2)"
    "Host req2 \<noteq> []" "n = p_pos p'"
    "req' = (if h2cUpgrade p' then req2\<lparr>UpgradeH2C := True\<rparr> else req2)"
proof -
  obtain r1 p1 req1 where l: "parseRequestLine p req = (r1, p1, req1)" by (metis prod_cases3)
  obtain r2 p2 req2 where h: "parseHeadersLoop (enterHeaders p1) (enterRequest req1) 0 = (r2, p2, req2)"
    by (metis prod_cases3)
  show ?thesis
    by (rule that [of p1 req1 req2])
      (use assms l h in \<open>auto simp: ParseRequest_parts leaveHeaders_def
         split: if_splits sum.splits bool.splits\<close>)
qed

lemma ParseRequest_pos:
  assumes "ParseRequest p req = (Inr n, p', req')" and "0 < n"
  shows "p_pos p < n \<and> n \<le> length (p_buf p)
    \<and> n \<le> p_pos p + 2 + MaxRequestLineSize + 2 + MaxHeaderSize"
proof -
  from assms obtain p1 req1 req2 where
    l: "parseRequestLine p req = (Inr True, p1, req1)"
    and h: "parseHeadersLoop (enterHeaders p1) (enterRequest req1) 0 = (Inr True, p', req2)"
    and n: "n = p_pos p'" by (rule ParseRequest_Done)
  have "p_buf p1 = p_buf p" using parseRequestLine_frame [OF l] by simp
  then show ?thesis
    using parseRequestLine_pos [OF l] parseHeadersLoop_pos [OF h] n by (auto simp: enterHeaders_def)
qed

section \<open>The parser as an incremental parser\<close>

definition startParser :: "bool \<Rightarrow> bool \<Rightarrow> byte list \<Rightarrow> parser" where
  "startParser zc nodetect b = ResetParser (SetDisableH2CDetect (SetZeroCopy NewParser zc) nodetect) b"

lemma startParser_simps [simp]:
  "p_buf (startParser zc nd b) = b" "p_pos (startParser zc nd b) = 0"
  "noStringHeaders (startParser zc nd b) = zc" "disableH2CDetect (startParser zc nd b) = nd"
  "(startParser zc nd b)\<lparr>p_buf := b'\<rparr> = startParser zc nd b'"
  by (simp_all add: startParser_def ResetParser_def SetDisableH2CDetect_def SetZeroCopy_def NewParser_def)

lemma parse_buffer_start: "parse_buffer zc nd b = ParseRequest (startParser zc nd b) zeroRequest"
  by (simp add: parse_buffer_def startParser_def)

lemma request_outcome_Done:
  "request_outcome zc nd b = Done r n \<longleftrightarrow>
     0 < n \<and> (\<exists>p. ParseRequest (startParser zc nd b) zeroRequest = (Inr n, p, r))"
  by (auto simp: request_outcome_def parse_buffer_start split: prod.splits sum.splits if_splits)

lemma request_outcome_Fail:
  "request_outcome zc nd b = Fail e \<longleftrightarrow>
     (\<exists>p r. ParseRequest (startParser zc nd b) zeroRequest = (Inl e, p, r))"
  by (auto simp: request_outcome_def parse_buffer_start split: prod.splits sum.splits if_splits)

interpretation h1req: prefix_parser "request_outcome zc nodetect" for zc nodetect
proof unfold_locales
  fix b r n
  assume "request_outcome zc nodetect b = Done r n"
  then show "n \<le> length b"
    using ParseRequest_pos by (fastforce simp: request_outcome_Done)
next
  fix b c r n
  assume "request_outcome zc nodetect b = Done r n"
  then obtain p where n: "0 < n" and p: "ParseRequest (startParser zc nodetect b) zeroRequest = (Inr n, p, r)"
    by (auto simp: request_outcome_Done)
  from ParseRequest_append [OF p, of c] n show "request_outcome zc nodetect (b @ c) = Done r n"
    by (auto simp: request_outcome_Done)
qed

lemma request_outcome_fail_stable:
  assumes "request_outcome zc nd b = Fail e" "e \<noteq> ErrBufferExhausted" "e \<noteq> ErrRequestLineTooLong"
  shows "request_outcome zc nd (b @ c) = Fail e"
proof -
  from assms(1) obtain p r where p: "ParseRequest (startParser zc nd b) zeroRequest = (Inl e, p, r)"
    by (auto simp: request_outcome_Fail)
  from ParseRequest_append [OF p, of c] assms(2,3) show ?thesis by (auto simp: request_outcome_Fail)
qed

section \<open>The accepted request line\<close>

lemma interned_token: "internMethod m \<noteq> [] \<Longrightarrow> isToken m"
  by (auto simp: internMethod_def isToken_def isValidHeaderName_def tcharTable_def str_simps
      split: if_splits)

lemma IndexByte_split:
  assumes "bytes_IndexByte b c = Some i"
  shows "b = take i b @ [c] @ drop (i + 1) b"
proof -
  have "i < length b" "b ! i = c" using assms by (auto simp: bytes_IndexByte_Some)
  then show ?thesis by (metis Suc_eq_plus1 append_Cons append_Nil id_take_nth_drop)
qed

lemma requestLineFields_ok:
  assumes "requestLineFields line req = (Inr True, req')"
  shows "line = Method req' @ [SP] @ Path req' @ [SP] @ Version req'
    \<and> isToken (Method req') \<and> Path req' \<noteq> [] \<and> \<not> list_ex targetBadTable (Path req')
    \<and> Version req' \<in> {sHTTP11, sHTTP10}
    \<and> req' = req\<lparr>Method := Method req', Path := Path req', Version := Version req'\<rparr>"
proof -
  obtain i j where i: "bytes_IndexByte line SP = Some i"
      and j: "bytes_IndexByte (drop (i + 1) line) SP = Some j"
    using assms by (auto simp: requestLineFields_def Let_def split: option.splits)
  let ?m = "take i line" and ?t = "take j (drop (i + 1) line)"
  let ?v = "drop (j + 1) (drop (i + 1) line)"
  have line: "line = ?m @ [SP] @ ?t @ [SP] @ ?v"
    using IndexByte_split [OF i] IndexByte_split [OF j] by metis
  have im: "(if internMethod ?m = [] then ?m else internMethod ?m) = ?m"
    using internMethod_id [of ?m] by auto
  have req': "req' = req\<lparr>Method := ?m, Path := ?t, Version := ?v\<rparr>"
    and tok: "internMethod ?m \<noteq> [] \<or> isToken ?m"
    and t: "?t \<noteq> []" "isValidRequestTarget ?t" and v: "?v \<in> {sHTTP11, sHTTP10}"
    using assms unfolding requestLineFields_def i option.case Let_def j im internPath_id internVersion_id
    by (auto split: if_splits)
  show ?thesis
    using line req' tok t v interned_token by (auto simp: isValidRequestTarget_iff)
qed

text \<open>What the field actions leave alone.\<close>

definition sameLine :: "request \<Rightarrow> request \<Rightarrow> bool" where
  "sameLine req req' \<longleftrightarrow> Method req' = Method req \<and> Path req' = Path req \<and> Version req' = Version req
     \<and> UpgradeH2C req' = UpgradeH2C req \<and> RawHeaders req' = RawHeaders req"

lemma sameLine_trans: "sameLine a b \<Longrightarrow> sameLine b c \<Longrightarrow> sameLine a c"
  by (simp add: sameLine_def)

lemma sameLine_fields:
  "sameLine req (snd (contentLengthField req v))"
  "sameLine req (snd (transferEncodingField req v))"
  "sameLine req (connectionField f req v)"
  "sameLine req (expectField f req v)"
  by (simp_all add: sameLine_def contentLengthField_def transferEncodingField_def connectionField_def
      expectField_def split: option.splits sum.splits)

lemma sameLine_detect: "sameLine req (snd (detectH2CHeader p req n v))"
  by (simp add: sameLine_def detectH2CHeader_def Let_def)

lemma sameLine_upd:
  "sameLine req (req\<lparr>Host := x\<rparr>)" "sameLine req req" "sameLine req (req\<lparr>Headers := hs\<rparr>)"
  by (simp_all add: sameLine_def)

lemma sameLine_raw: "sameLine req (snd (appendRawHeader req n v))"
  unfolding appendRawHeader_def Let_def
  by (simp only: sameLine_fields sameLine_upd snd_conv if_True if_False split: if_split) simp

lemma sameLine_string: "sameLine req (snd (appendStringHeader req n v))"
proof -
  have "sameLine req (snd (appendStringHeader req n v))"
    if "sameLine req r0" and "r0 = req\<lparr>Headers := Headers req @ [(internOrLowerHeader n, v)]\<rparr>" for r0
    unfolding appendStringHeader_def Let_def that(2) [symmetric]
    using that(1) sameLine_fields [of r0] sameLine_upd [of r0]
    by (auto intro: sameLine_trans)
  then show ?thesis using sameLine_upd(3) by blast
qed

lemma appendHeader_req:
  assumes "appendHeader p req n v = (e, p', req')"
  shows "Method req' = Method req" "Path req' = Path req" "Version req' = Version req"
    "UpgradeH2C req' = UpgradeH2C req" "RawHeaders req' = RawHeaders req @ [(n, v)]"
proof -
  let ?r1 = "req\<lparr>RawHeaders := RawHeaders req @ [(n, v)]\<rparr>"
  obtain p2 r2 where d: "(if \<not> disableH2CDetect p then detectH2CHeader p ?r1 n v else (p, ?r1)) = (p2, r2)"
    by fastforce
  have "sameLine ?r1 r2"
    using d sameLine_detect [of ?r1 p n v] sameLine_upd(2) by (auto split: if_splits)
  moreover have "sameLine r2 req'"
    using assms d sameLine_raw [of r2 n v] sameLine_string [of r2 n v]
    by (auto simp: appendHeader_def Let_def split: if_splits prod.splits)
  ultimately have "sameLine ?r1 req'" by (rule sameLine_trans)
  then show "Method req' = Method req" "Path req' = Path req" "Version req' = Version req"
    "UpgradeH2C req' = UpgradeH2C req" "RawHeaders req' = RawHeaders req @ [(n, v)]"
    by (auto simp: sameLine_def)
qed

lemma parseHeadersLoop_req:
  assumes "parseHeadersLoop p req t = (r, p', req')"
  shows "Method req' = Method req \<and> Path req' = Path req \<and> Version req' = Version req
    \<and> UpgradeH2C req' = UpgradeH2C req"
  using assms
proof (induction rule: parseHeadersLoop_induct)
  case (refused p req t le n v e p2 req2)
  then show ?case using appendHeader_req [OF refused(3)] by simp
next
  case (field p req t le n v p2 req2 r p' req')
  then show ?case using appendHeader_req [OF field(3)] by simp
qed simp_all

end
