(* ===== verification/H1_Segments.thy ===== *)
theory H1_Segments
  imports H1_Correct
begin

text \<open>
  The receive path of an HTTP/1 connection: the request may arrive in any number of segments, and
  the parser is run on everything received so far after each of them.
\<close>

section \<open>Where the errors come from\<close>

lemma requestLineFields_errors:
  "requestLineFields line req = (Inl e, req') \<Longrightarrow> e \<in> {ErrInvalidRequestLine, ErrUnsupportedVersion}"
  by (auto simp: requestLineFields_def Let_def split: option.splits if_splits)

lemma parseRequestLine_errors:
  "parseRequestLine p req = (Inl e, p', req') \<Longrightarrow>
     e \<in> {ErrInvalidRequestLine, ErrUnsupportedVersion, ErrRequestLineTooLong}"
  using requestLineFields_errors
  by (fastforce simp: parseRequestLine_line split: option.splits if_splits prod.splits)

lemma transferEncodingIsChunked_errors:
  "transferEncodingIsChunked v = Inl e \<Longrightarrow> e = ErrInvalidTransferEncoding"
  by (auto simp: transferEncodingIsChunked_def Let_def split: prod.splits option.splits if_splits)

abbreviation field_errors :: "h1_error set" where
  "field_errors \<equiv> {ErrConflictingFraming, ErrInvalidContentLength, ErrDuplicateContentLength,
     ErrInvalidTransferEncoding}"

lemma contentLengthField_errors:
  "fst (contentLengthField req v) = Some e \<Longrightarrow> e \<in> field_errors"
  by (auto simp: contentLengthField_def split: if_splits option.splits)

lemma transferEncodingField_errors:
  "fst (transferEncodingField req v) = Some e \<Longrightarrow> e \<in> field_errors"
  using transferEncodingIsChunked_errors
  by (fastforce simp: transferEncodingField_def split: if_splits sum.splits)

text \<open>
  Both header modes act on the field by its lower-cased name. \<open>fieldAction\<close> is that action, without
  the interning of one mode and the first-byte dispatch of the other.
\<close>

definition fieldAction :: "request \<Rightarrow> gostring \<Rightarrow> gostring \<Rightarrow> h1_error option \<times> request" where
  "fieldAction req name v =
     (if name = str ''host'' then (None, req\<lparr>Host := v\<rparr>)
      else if name = str ''content-length'' then contentLengthField req v
      else if name = str ''transfer-encoding'' then transferEncodingField req v
      else if name = str ''connection'' then (None, connectionField asciiContainsFoldString req v)
      else if name = str ''expect'' then (None, expectField asciiContainsFoldString req v)
      else (None, req))"

lemma appendStringHeader_action:
  "appendStringHeader req n v
     = fieldAction (req\<lparr>Headers := Headers req @ [(map fold_byte n, v)]\<rparr>) (map fold_byte n) v"
  by (simp add: appendStringHeader_def fieldAction_def internOrLowerHeader_fold Let_def)

lemma contains_same: "asciiContainsFoldBytes = asciiContainsFoldString"
  by (intro ext) (rule contains_bytes_string)

text \<open>The dispatch on the first byte cannot miss a name.\<close>

lemma field_dispatch:
  "map fold_byte n = str ''host'' \<longleftrightarrow> asciiEqualFold n (str ''Host'')"
  "map fold_byte n = str ''content-length'' \<longleftrightarrow> asciiEqualFold n (str ''Content-Length'')"
  "map fold_byte n = str ''transfer-encoding'' \<longleftrightarrow> asciiEqualFold n (str ''Transfer-Encoding'')"
  "map fold_byte n = str ''connection'' \<longleftrightarrow> asciiEqualFold n (str ''Connection'')"
  "map fold_byte n = str ''expect'' \<longleftrightarrow> asciiEqualFold n (str ''Expect'')"
  by (simp_all add: asciiEqualFold_iff str_simps fold_byte_def isUpper_def)

lemma field_first_byte:
  "asciiEqualFold n (str ''Host'') \<Longrightarrow> n \<noteq> [] \<and> hd n OR 0x20 = 0x68"
  "asciiEqualFold n (str ''Content-Length'') \<Longrightarrow> n \<noteq> [] \<and> hd n OR 0x20 = 0x63"
  "asciiEqualFold n (str ''Transfer-Encoding'') \<Longrightarrow> n \<noteq> [] \<and> hd n OR 0x20 = 0x74"
  "asciiEqualFold n (str ''Connection'') \<Longrightarrow> n \<noteq> [] \<and> hd n OR 0x20 = 0x63"
  "asciiEqualFold n (str ''Expect'') \<Longrightarrow> n \<noteq> [] \<and> hd n OR 0x20 = 0x65"
  by (drule asciiEqualFold_hd; simp add: str_simps)+

lemma appendRawHeader_action: "appendRawHeader req n v = fieldAction req (map fold_byte n) v"
proof (cases "n = []")
  case True
  then show ?thesis by (simp add: appendRawHeader_def fieldAction_def str_simps)
next
  case False
  obtain c where c: "hd n OR 0x20 = c" by blast
  show ?thesis
    unfolding appendRawHeader_def fieldAction_def field_dispatch contains_same Let_def c
    using False field_first_byte [of n, unfolded c] by (simp split: if_split)
qed

lemma fieldAction_errors: "fst (fieldAction req n v) = Some e \<Longrightarrow> e \<in> field_errors"
  using contentLengthField_errors transferEncodingField_errors
  by (auto simp: fieldAction_def split: if_splits)

lemma appendHeader_errors:
  assumes "appendHeader p req n v = (Some e, p', req')"
  shows "e \<in> field_errors"
proof -
  obtain r2 where "fst (fieldAction r2 (map fold_byte n) v) = Some e"
    using assms
    by (auto simp: appendHeader_def Let_def appendStringHeader_action appendRawHeader_action
        split: prod.splits if_splits) (metis fst_conv)+
  then show ?thesis by (rule fieldAction_errors)
qed

lemma parseHeadersLoop_errors:
  assumes "parseHeadersLoop p req t = (r, p', req')"
  shows "r = Inl e \<longrightarrow> e \<noteq> ErrRequestLineTooLong \<and> e \<noteq> ErrBufferExhausted"
  using assms
proof (induction rule: parseHeadersLoop_induct)
  case (bad p req t le e)
  then show ?case by (auto simp: classifyLine_def split: if_splits option.splits)
next
  case (refused p req t le n v e p2 req2)
  then show ?case using appendHeader_errors [OF refused(3)] by auto
qed auto

lemma ParseRequest_too_long:
  assumes "ParseRequest p req = (Inl ErrRequestLineTooLong, p', req')"
  shows "fst (parseRequestLine p req) = Inl ErrRequestLineTooLong"
proof (rule ccontr)
  assume n: "fst (parseRequestLine p req) \<noteq> Inl ErrRequestLineTooLong"
  obtain r1 p1 req1 where l: "parseRequestLine p req = (r1, p1, req1)" by (metis prod_cases3)
  obtain r2 p2 req2 where h: "parseHeadersLoop (enterHeaders p1) (enterRequest req1) 0 = (r2, p2, req2)"
    by (metis prod_cases3)
  show False
    using assms n l h parseHeadersLoop_errors [OF h]
    by (auto simp: ParseRequest_parts leaveHeaders_def split: if_splits sum.splits bool.splits)
qed

lemma ParseRequest_exhausted:
  assumes "ParseRequest p req = (Inl ErrBufferExhausted, p', req')"
  shows "length (p_buf p) \<le> p_pos p"
proof (rule ccontr)
  assume n: "\<not> length (p_buf p) \<le> p_pos p"
  obtain r1 p1 req1 where l: "parseRequestLine p req = (r1, p1, req1)" by (metis prod_cases3)
  obtain r2 p2 req2 where h: "parseHeadersLoop (enterHeaders p1) (enterRequest req1) 0 = (r2, p2, req2)"
    by (metis prod_cases3)
  show False
    using assms n l h parseHeadersLoop_errors [OF h] parseRequestLine_errors [of p req]
    by (auto simp: ParseRequest_parts leaveHeaders_def split: if_splits sum.splits bool.splits)
qed

section \<open>A prefix of an acceptable request\<close>

lemma bytes_Index_shrink:
  assumes "bytes_Index (b @ c) s = Some i" and "i + length s \<le> length b"
  shows "bytes_Index b s = Some i"
  using assms
proof (induction b arbitrary: i)
  case Nil
  then show ?case by simp
next
  case (Cons x b)
  show ?case
  proof (cases "prefix s (x # b @ c)")
    case True
    then have "i = 0" using Cons.prems by simp
    then have "length s \<le> length (x # b)" using Cons.prems by simp
    moreover have "prefix (x # b) (x # b @ c)" by simp
    ultimately have "prefix s (x # b)" using True prefix_length_prefix by blast
    then show ?thesis using \<open>i = 0\<close> by simp
  next
    case False
    then obtain j where j: "bytes_Index (b @ c) s = Some j" "i = Suc j" using Cons.prems by auto
    have "\<not> prefix s (x # b)" using False by (metis append_Cons prefix_prefix)
    moreover have "bytes_Index b s = Some j" using Cons.IH [OF j(1)] Cons.prems j by simp
    ultimately show ?thesis using j by simp
  qed
qed

lemma lineStart_start: "lineStart (startParser zc nd b) = (if bytes_Index b bCRLF = Some 0 then 2 else 0)"
  by (simp add: lineStart_def)

text \<open>The length of the request line of an accepted request, from the request's own fields.\<close>

lemma accepted_line_length:
  assumes "request_outcome zc nd b = Done r n"
  shows "bytes_Index (drop (lineStart (startParser zc nd b)) b) bCRLF
    = Some (length (Method r) + length (Path r) + length (Version r) + 2)"
proof -
  from assms obtain p where n: "0 < n" and
    run: "ParseRequest (startParser zc nd b) zeroRequest = (Inr n, p, r)"
    by (auto simp: request_outcome_Done)
  from run n obtain p1 req1 req2 where
    l: "parseRequestLine (startParser zc nd b) zeroRequest = (Inr True, p1, req1)"
    and h: "parseHeadersLoop (enterHeaders p1) (enterRequest req1) 0 = (Inr True, p, req2)"
    and r: "r = (if h2cUpgrade p then req2\<lparr>UpgradeH2C := True\<rparr> else req2)"
    by (rule ParseRequest_Done)
  let ?k = "lineStart (startParser zc nd b)"
  obtain le where le: "bytes_Index (drop ?k b) bCRLF = Some le"
    and f: "requestLineFields (take le (drop ?k b)) zeroRequest = (Inr True, req1)"
    using l by (auto simp: parseRequestLine_line split: option.splits if_splits prod.splits)
  have "le = length (take le (drop ?k b))" using bytes_Index_bound [OF le] by simp
  also have "\<dots> = length (Method req1) + length (Path req1) + length (Version req1) + 2"
    using requestLineFields_ok [OF f] by (metis (no_types, lifting) add.assoc add.commute
        length_append length_Cons list.size(3) One_nat_def numeral_2_eq_2 add_Suc_right add_0_right)
  also have "\<dots> = length (Method r) + length (Path r) + length (Version r) + 2"
    using parseHeadersLoop_req [OF h] r by (simp add: enterRequest_def)
  finally show ?thesis using le by simp
qed

lemma prefix_not_too_long:
  assumes whole: "request_outcome zc nd (b @ c) = Done r n"
    and short: "length (Method r) + length (Path r) + length (Version r) + 2 < MaxRequestLineSize"
  shows "request_outcome zc nd b \<noteq> Fail ErrRequestLineTooLong"
proof
  assume "request_outcome zc nd b = Fail ErrRequestLineTooLong"
  then have tl: "fst (parseRequestLine (startParser zc nd b) zeroRequest) = Inl ErrRequestLineTooLong"
    using ParseRequest_too_long by (auto simp: request_outcome_Fail)
  let ?le = "length (Method r) + length (Path r) + length (Version r) + 2"
  let ?k = "lineStart (startParser zc nd b)" and ?K = "lineStart (startParser zc nd (b @ c))"
  have K: "bytes_Index (drop ?K (b @ c)) bCRLF = Some ?le" by (rule accepted_line_length [OF whole])
  consider (none) "bytes_Index (drop ?k b) bCRLF = None" "length b - ?k > MaxRequestLineSize"
    | (some) le where "bytes_Index (drop ?k b) bCRLF = Some le" "le > MaxRequestLineSize"
    using tl by (auto simp: parseRequestLine_line split: option.splits if_splits prod.splits
        dest: requestLineFields_errors)
  then show False
  proof cases
    case (some le)
    have "?K = ?k"
    proof (cases "bytes_Index b bCRLF")
      case None
      then show ?thesis using some by (simp add: lineStart_start)
    next
      case (Some i)
      then show ?thesis using bytes_Index_append [OF Some, of c] by (simp add: lineStart_start)
    qed
    then show False using Index_drop_append [OF some(1), of c] K some(2) short by auto
  next
    case none
    have big: "2 \<le> length b" using none(2) by (simp add: MaxRequestLineSize_def)
    have "bytes_Index b bCRLF = Some 0 \<longleftrightarrow> bytes_Index (b @ c) bCRLF = Some 0"
      using bytes_Index_append bytes_Index_shrink [of b c bCRLF 0] big by fastforce
    then have kK: "?K = ?k" by (simp add: lineStart_start)
    have kb: "?k \<le> length b" using big by (simp add: lineStart_start)
    have "\<not> ?le + 2 \<le> length (drop ?k b)"
    proof
      assume "?le + 2 \<le> length (drop ?k b)"
      then have "bytes_Index (drop ?k b) bCRLF = Some ?le"
        using bytes_Index_shrink [of "drop ?k b" c bCRLF ?le] K kK kb by simp
      then show False using none(1) by simp
    qed
    then show False using none(2) short kb by simp
  qed
qed

lemma prefix_of_accepted:
  assumes whole: "request_outcome zc nd (b @ c) = Done r n" and "b \<noteq> []"
    and short: "length (Method r) + length (Path r) + length (Version r) + 2 < MaxRequestLineSize"
  shows "request_outcome zc nd b = More \<or> request_outcome zc nd b = Done r n"
proof (cases "request_outcome zc nd b")
  case (Fail e)
  have "e \<noteq> ErrRequestLineTooLong" using prefix_not_too_long [OF whole short] Fail by blast
  moreover have "e \<noteq> ErrBufferExhausted"
    using Fail ParseRequest_exhausted assms(2) by (fastforce simp: request_outcome_Fail)
  ultimately show ?thesis using request_outcome_fail_stable [OF Fail, of c] whole by simp
next
  case (Done r' n')
  then show ?thesis using h1req.done_stable [OF Done, of c] whole by simp
qed simp

lemma feed_accepted:
  assumes "request_outcome zc nd (b @ concat ss) = Done r n" and "b \<noteq> []"
    and short: "length (Method r) + length (Path r) + length (Version r) + 2 < MaxRequestLineSize"
  shows "feed (request_outcome zc nd) b ss = Done r n"
  using assms(1,2)
proof (induction ss arbitrary: b)
  case (Cons s ss)
  from prefix_of_accepted [OF Cons.prems short] show ?case
    using Cons.IH [of "b @ s"] Cons.prems by auto
qed simp

section \<open>The request line\<close>

lemma IndexByte_append: "c \<notin> set a \<Longrightarrow> bytes_IndexByte (a @ c # b) c = Some (length a)"
  by (simp add: bytes_IndexByte_Some nth_append)

lemma token_no_space: "isToken m \<Longrightarrow> SP \<notin> set m"
proof
  assume "isToken m" "SP \<in> set m"
  then have "tcharTable SP" by (auto simp: isToken_def isValidHeaderName_def list_all_iff)
  then show False by (simp add: tcharTable_def str_simps)
qed

lemma requestLineFields_build:
  assumes "isToken m" "SP \<notin> set t" "t \<noteq> []" "\<not> list_ex targetBadTable t" "v \<in> {sHTTP11, sHTTP10}"
  shows "requestLineFields (m @ [SP] @ t @ [SP] @ v) req
    = (Inr True, req\<lparr>Method := m, Path := t, Version := v\<rparr>)"
proof -
  have m: "bytes_IndexByte (m @ [SP] @ t @ [SP] @ v) SP = Some (length m)"
    using IndexByte_append [OF token_no_space [OF assms(1)]] by simp
  have t: "bytes_IndexByte (t @ [SP] @ v) SP = Some (length t)"
    using IndexByte_append [OF assms(2)] by simp
  have "(if internMethod m = [] then m else internMethod m) = m" using internMethod_id [of m] by auto
  then show ?thesis
    using assms t unfolding requestLineFields_def m option.case Let_def
    by (auto simp: isValidRequestTarget_iff internPath_id internVersion_id)
qed

lemma Index_lone_CR: "CR \<notin> set a \<Longrightarrow> bytes_Index (a @ [CR]) bCRLF = None"
  by (induction a) auto

section \<open>Properties\<close>

text \<open>
  C2. A request whose line is shorter than the bound is parsed to the same request, with the same
  number of bytes consumed, however its bytes are cut into segments: the first buffer \<open>b\<close> is any
  non-empty prefix and the parser is rerun on the whole buffer after each further segment.
\<close>

theorem request_any_segments:
  assumes "request_outcome zc nd (b @ concat ss) = Done r n" and "b \<noteq> []"
    and "length (Method r) + length (Path r) + length (Version r) + 2 < MaxRequestLineSize"
  shows "feed (request_outcome zc nd) b ss = Done r n"
  by (rule feed_accepted [OF assms])

lemmas parse_simps = parse_buffer_def ParseRequest_def parseRequestLine_def requestLineFields_def
  ResetParser_def SetDisableH2CDetect_def SetZeroCopy_def NewParser_def Let_def parseHeaders_def
  parseHeadersLoop.simps MaxRequestLineSize_def MaxHeaderSize_def MaxHeaderCount_def
  internMethod_def isValidRequestTarget_iff targetBadTable_def internPath_def internVersion_def
  zeroRequest_def isValidHeaderName_def isValidHeaderValue_def tcharTable_def fieldVCharTable_def
  appendHeader_def appendRawHeader_def appendStringHeader_def trimSpace_def isOWS_def
  detectH2CHeader_def asciiEqualFold_def fold_byte_def isUpper_def internOrLowerHeader_fold str_simps

lemma example_run:
  "\<exists>r. request_outcome True False (str ''GET /'' @ concat [str '' HTTP/1.1'', bCRLF, str ''Host: a'', bCRLF @ bCRLF])
      = Done r 27 \<and> Method r = str ''GET'' \<and> Path r = str ''/'' \<and> Version r = sHTTP11"
  by (simp add: request_outcome_def parse_simps)

theorem request_any_segments_witness:
  "\<exists>r. feed (request_outcome True False) (str ''GET /'')
      [str '' HTTP/1.1'', bCRLF, str ''Host: a'', bCRLF @ bCRLF] = Done r 27 \<and> Path r = str ''/''"
proof -
  from example_run obtain r where r: "request_outcome True False
      (str ''GET /'' @ concat [str '' HTTP/1.1'', bCRLF, str ''Host: a'', bCRLF @ bCRLF]) = Done r 27"
      "Method r = str ''GET''" "Path r = str ''/''" "Version r = sHTTP11" by blast
  have "length (Method r) + length (Path r) + length (Version r) + 2 < MaxRequestLineSize"
    using r by (simp add: MaxRequestLineSize_def str_simps)
  from request_any_segments [OF r(1) _ this] show ?thesis using r(3) by (simp add: str_simps)
qed

text \<open>
  C9. At the bound the answer does depend on the segments. For a valid request line of exactly
  \<open>MaxRequestLineSize\<close> bytes, a buffer that ends between the CR and the LF is refused with
  \<^verbatim>\<open>ErrRequestLineTooLong\<close>, while the same line followed by CR LF is within the bound: the parser asks
  for the header fields.
\<close>

theorem request_line_bound_split:
  assumes "length line = MaxRequestLineSize" and "CR \<notin> set line"
    and "requestLineFields line zeroRequest = (Inr True, req)"
  shows "request_outcome zc nd (line @ [CR]) = Fail ErrRequestLineTooLong
    \<and> request_outcome zc nd (line @ [CR, LF]) = More"
proof -
  have i0: "bytes_Index (line @ [CR]) bCRLF = None" by (rule Index_lone_CR [OF assms(2)])
  have i1: "bytes_Index (line @ [CR, LF]) bCRLF = Some MaxRequestLineSize"
    using bytes_Index_CRLF_first [OF assms(2), of "[]"] assms(1) by simp
  have nz: "MaxRequestLineSize \<noteq> 0" by (simp add: MaxRequestLineSize_def)
  have "parseRequestLine (startParser zc nd (line @ [CR])) zeroRequest
      = (Inl ErrRequestLineTooLong, startParser zc nd (line @ [CR]), zeroRequest)"
    using assms(1) i0 by (simp add: parseRequestLine_def Let_def)
  then have "request_outcome zc nd (line @ [CR]) = Fail ErrRequestLineTooLong"
    by (simp add: request_outcome_Fail ParseRequest_parts)
  moreover obtain p where l: "parseRequestLine (startParser zc nd (line @ [CR, LF])) zeroRequest
      = (Inr True, p, req)" "p_pos p = length (p_buf p)"
    using assms(1,3) i1 nz by (simp add: parseRequestLine_def Let_def)
  then have "parseHeadersLoop (enterHeaders p) (enterRequest req) 0
      = (Inr False, enterHeaders p, enterRequest req)"
    by (subst parseHeadersLoop_line) (simp add: enterHeaders_def)
  then have "ParseRequest (startParser zc nd (line @ [CR, LF])) zeroRequest
      = (Inr 0, enterHeaders p, enterRequest req)"
    using l by (simp add: ParseRequest_parts)
  then have "request_outcome zc nd (line @ [CR, LF]) = More"
    by (simp add: request_outcome_def parse_buffer_start)
  ultimately show ?thesis by simp
qed

theorem request_line_bound_split_witness:
  "request_outcome True False (str ''GET'' @ [SP] @ (0x2F # replicate 8178 0x61) @ [SP] @ sHTTP11 @ [CR])
     = Fail ErrRequestLineTooLong"
proof -
  let ?line = "str ''GET'' @ [SP] @ (0x2F # replicate 8178 0x61) @ [SP] @ sHTTP11"
  have "requestLineFields ?line zeroRequest = (Inr True, zeroRequest\<lparr>Method := str ''GET'',
      Path := 0x2F # replicate 8178 0x61, Version := sHTTP11\<rparr>)"
    by (rule requestLineFields_build)
      (simp_all add: isToken_def isValidHeaderName_def tcharTable_def targetBadTable_def str_simps list_ex_iff)
  moreover have "length ?line = MaxRequestLineSize" by (simp add: MaxRequestLineSize_def str_simps)
  moreover have "CR \<notin> set ?line" by (simp add: str_simps)
  ultimately show ?thesis using request_line_bound_split [of ?line _ True False] by simp
qed

text \<open>
  The request line has exactly the grammar method SP target SP version: the fields are accepted
  if and only if the line is a token, a non-empty target without spaces and control bytes, and
  HTTP/1.1 or HTTP/1.0, separated by single spaces; and the request then holds those three parts.
\<close>

lemma request_line_grammar:
  "(\<exists>req'. requestLineFields line req = (Inr True, req') \<and> Method req' = m \<and> Path req' = t \<and> Version req' = v)
   \<longleftrightarrow> line = m @ [SP] @ t @ [SP] @ v \<and> isToken m \<and> t \<noteq> [] \<and> SP \<notin> set t \<and> \<not> list_ex targetBadTable t
       \<and> v \<in> {sHTTP11, sHTTP10}" (is "?L \<longleftrightarrow> ?R")
proof
  assume ?R
  then show ?L using requestLineFields_build [of m t v req] by auto
next
  assume ?L
  then obtain req' where f: "requestLineFields line req = (Inr True, req')"
    and e: "Method req' = m" "Path req' = t" "Version req' = v" by blast
  have "SP \<notin> set t"
    using f e(2) by (auto simp: requestLineFields_def Let_def internPath_id bytes_IndexByte_Some
        split: option.splits if_splits)
  then show ?R using requestLineFields_ok [OF f] e by simp
qed

end
