(* ===== verification/H1_Framing.thy ===== *)
theory H1_Framing
  imports H1_Segments
begin

text \<open>
  What an accepted HTTP/1 request says about its header fields: the message framing (Content-Length
  and Transfer-Encoding), the h2c upgrade, the bounds and the character sets, and that zero-copy
  mode and string mode agree.
\<close>

section \<open>The field list of a run\<close>

text \<open>Fields named \<open>name\<close> (lower case) among the raw header fields, in order.\<close>

definition fieldValues :: "gostring \<Rightarrow> (byte list \<times> byte list) list \<Rightarrow> byte list list" where
  "fieldValues name hs = map snd (filter (\<lambda>h. map fold_byte (fst h) = name) hs)"

lemma fieldValues_Nil [simp]: "fieldValues name [] = []"
  by (simp add: fieldValues_def)

lemma fieldValues_snoc:
  "fieldValues name (hs @ [(n, v)]) = fieldValues name hs @ (if map fold_byte n = name then [v] else [])"
  by (simp add: fieldValues_def)

lemma trimSpace_fix:
  assumes "x = [] \<or> \<not> isOWS (hd x) \<and> \<not> isOWS (last x)"
  shows "trimSpace x = x"
proof (cases "x = []")
  case True
  then show ?thesis by (simp add: trimSpace_def)
next
  case False
  have drop: "dropWhile isOWS y = y" if "y \<noteq> []" "\<not> isOWS (hd y)" for y
    using that by (cases y) auto
  have "dropWhile isOWS x = x" using False assms by (intro drop) auto
  moreover have "dropWhile isOWS (rev x) = rev x" using False assms by (intro drop) (auto simp: hd_rev)
  ultimately show ?thesis by (simp add: trimSpace_def)
qed

lemma trimSpace_idem [simp]: "trimSpace (trimSpace b) = trimSpace b"
  using trimSpace_fix trimSpace_no_ows by blast

lemma trimSpace_length: "length (trimSpace b) \<le> length b"
proof -
  obtain a c where "b = a @ trimSpace b @ c" using trimSpace_sub by blast
  then have "length b = length a + length (trimSpace b) + length c" by (metis add.assoc length_append)
  then show ?thesis by simp
qed

lemma classifyLine_field:
  assumes "classifyLine req tot line = LField n v"
  shows "isValidHeaderName n" "isValidHeaderValue v" "length (RawHeaders req) < MaxHeaderCount"
    "trimSpace v = v" "length n + length v < length line" "tot \<le> MaxHeaderSize"
proof -
  obtain k where k: "bytes_IndexByte line 0x3A = Some k" and n: "n = take k line"
    and v: "v = trimSpace (drop (k + 1) line)" and ok: "isValidHeaderName n" "isValidHeaderValue v"
      "length (RawHeaders req) < MaxHeaderCount" "tot \<le> MaxHeaderSize"
    using assms by (auto simp: classifyLine_def split: if_splits option.splits)
  have "k < length line" using k by (simp add: bytes_IndexByte_Some)
  moreover have "length v \<le> length line - (k + 1)"
    using trimSpace_length [of "drop (k + 1) line"] v by simp
  ultimately have "length n + length v < length line" using n by simp
  moreover have "trimSpace v = v" using v by simp
  ultimately show "isValidHeaderName n" "isValidHeaderValue v" "length (RawHeaders req) < MaxHeaderCount"
    "trimSpace v = v" "length n + length v < length line" "tot \<le> MaxHeaderSize" using ok by auto
qed

text \<open>
  The invariant rule of the header loop: what every accepted field preserves, and moving the cursor
  and setting \<^verbatim>\<open>HeadersComplete\<close> do not disturb, holds at the end.
\<close>

lemma parseHeadersLoop_invariant:
  assumes run: "parseHeadersLoop p req t = (r, p', req')" and r: "r = Inr True"
    and init: "I p req"
    and pos: "\<And>p req k. I p req \<Longrightarrow> I (p\<lparr>p_pos := k\<rparr>) req"
    and complete: "\<And>p req. I p req \<Longrightarrow> I p (req\<lparr>HeadersComplete := True\<rparr>)"
    and field: "\<And>p req n v p2 req2. I p req \<Longrightarrow> isValidHeaderName n \<Longrightarrow> isValidHeaderValue v \<Longrightarrow>
        trimSpace v = v \<Longrightarrow> length (RawHeaders req) < MaxHeaderCount \<Longrightarrow>
        appendHeader p req n v = (None, p2, req2) \<Longrightarrow> I p2 req2"
  shows "I p' req'"
proof -
  have "r = Inr True \<longrightarrow> I p req \<longrightarrow> I p' req'"
    using run
  proof (induction rule: parseHeadersLoop_induct)
    case (last p req t le)
    then show ?case using pos complete by simp
  next
    case (field p req t le n v p2 req2 r p' req')
    then show ?case using assms(6) [OF pos] classifyLine_field [OF field(2)] by blast
  qed auto
  then show ?thesis using r init by simp
qed

text \<open>The same for a whole accepted request, from the state in which the header block is entered.\<close>

lemma request_invariant:
  assumes run: "request_outcome zc nd b = Done r n"
    and init: "\<And>p req. p_buf p = b \<Longrightarrow> noStringHeaders p = zc \<Longrightarrow> disableH2CDetect p = nd \<Longrightarrow>
        RawHeaders req = [] \<Longrightarrow> Headers req = [] \<Longrightarrow> Host req = [] \<Longrightarrow> ContentLength req = -1 \<Longrightarrow>
        \<not> ChunkedEncoding req \<Longrightarrow> KeepAlive req = (Version req = sHTTP11) \<Longrightarrow>
        \<not> ExpectContinue req \<Longrightarrow> \<not> UpgradeH2C req \<Longrightarrow> HTTP2Settings req = [] \<Longrightarrow> I (enterHeaders p) req"
    and pos: "\<And>p req k. I p req \<Longrightarrow> I (p\<lparr>p_pos := k\<rparr>) req"
    and complete: "\<And>p req. I p req \<Longrightarrow> I p (req\<lparr>HeadersComplete := True\<rparr>)"
    and field: "\<And>p req n v p2 req2. I p req \<Longrightarrow> isValidHeaderName n \<Longrightarrow> isValidHeaderValue v \<Longrightarrow>
        trimSpace v = v \<Longrightarrow> length (RawHeaders req) < MaxHeaderCount \<Longrightarrow>
        appendHeader p req n v = (None, p2, req2) \<Longrightarrow> I p2 req2"
  obtains p req where "I p req" "Host req \<noteq> []" "\<not> UpgradeH2C req"
    "r = (if h2cUpgrade p then req\<lparr>UpgradeH2C := True\<rparr> else req)"
proof -
  from run obtain p where n: "0 < n" and
    pr: "ParseRequest (startParser zc nd b) zeroRequest = (Inr n, p, r)"
    by (auto simp: request_outcome_Done)
  from pr n obtain p1 req1 req2 where
    l: "parseRequestLine (startParser zc nd b) zeroRequest = (Inr True, p1, req1)"
    and h: "parseHeadersLoop (enterHeaders p1) (enterRequest req1) 0 = (Inr True, p, req2)"
    and host: "Host req2 \<noteq> []" and r: "r = (if h2cUpgrade p then req2\<lparr>UpgradeH2C := True\<rparr> else req2)"
    by (rule ParseRequest_Done)
  obtain line where "requestLineFields line zeroRequest = (Inr True, req1)"
    using l by (auto simp: parseRequestLine_line split: option.splits if_splits prod.splits)
  then have eq: "req1 = zeroRequest\<lparr>Method := Method req1, Path := Path req1, Version := Version req1\<rparr>"
    using requestLineFields_ok by blast
  have "I (enterHeaders p1) (enterRequest req1)"
    by (rule init, insert parseRequestLine_frame [OF l], simp_all add: enterRequest_def, (subst eq, simp add: zeroRequest_def)+)
  then have "I p req2" by (rule parseHeadersLoop_invariant [where I = I, OF h refl]) (fact pos complete field)+
  moreover have "\<not> UpgradeH2C req1" by (subst eq) (simp add: zeroRequest_def)
  then have "\<not> UpgradeH2C req2" using parseHeadersLoop_req [OF h] by (simp add: enterRequest_def)
  ultimately show ?thesis using that host r by blast
qed

section \<open>The field actions\<close>

definition detectStep :: "parser \<Rightarrow> request \<Rightarrow> byte list \<Rightarrow> byte list \<Rightarrow> parser \<times> request" where
  "detectStep p req n v = (if \<not> disableH2CDetect p then detectH2CHeader p req n v else (p, req))"

lemma detectStep_req:
  "snd (detectStep p req n v) = req\<lparr>HTTP2Settings := HTTP2Settings (snd (detectStep p req n v))\<rparr>"
  by (simp add: detectStep_def detectH2CHeader_def Let_def)

lemma detectStep_mode: "noStringHeaders (fst (detectStep p req n v)) = noStringHeaders p"
  by (simp add: detectStep_def detectH2CHeader_def Let_def connTokens_frame)

lemma appendHeader_action:
  "appendHeader p req n v =
     (let req1 = req\<lparr>RawHeaders := RawHeaders req @ [(n, v)]\<rparr>;
          (p2, req2) = detectStep p req1 n v;
          req3 = (if noStringHeaders p then req2
                  else req2\<lparr>Headers := Headers req2 @ [(map fold_byte n, v)]\<rparr>);
          (e, req4) = fieldAction req3 (map fold_byte n) v
      in (e, p2, req4))"
  using detectStep_mode [of p "req\<lparr>RawHeaders := RawHeaders req @ [(n, v)]\<rparr>" n v]
  by (auto simp: appendHeader_def Let_def appendStringHeader_action appendRawHeader_action
      detectStep_def [symmetric] split: prod.split)

text \<open>
  An invariant that does not look at the h2c detection only has to be kept by \<open>fieldAction\<close>.
\<close>

lemma appendHeader_field:
  assumes "appendHeader p req n v = (None, p2, req2)"
  obtains s hs where "fieldAction (req\<lparr>HTTP2Settings := s, Headers := hs,
      RawHeaders := RawHeaders req @ [(n, v)]\<rparr>) (map fold_byte n) v = (None, req2)"
    "hs = (if noStringHeaders p then Headers req else Headers req @ [(map fold_byte n, v)])"
    "p2 = fst (detectStep p (req\<lparr>RawHeaders := RawHeaders req @ [(n, v)]\<rparr>) n v)"
    "s = HTTP2Settings (snd (detectStep p (req\<lparr>RawHeaders := RawHeaders req @ [(n, v)]\<rparr>) n v))"
proof -
  let ?r1 = "req\<lparr>RawHeaders := RawHeaders req @ [(n, v)]\<rparr>"
  obtain q s where d: "detectStep p ?r1 n v = (q, ?r1\<lparr>HTTP2Settings := s\<rparr>)"
    using detectStep_req [of p ?r1 n v] by (metis prod.collapse)
  let ?hs = "if noStringHeaders p then Headers req else Headers req @ [(map fold_byte n, v)]"
  let ?rs = "RawHeaders req @ [(n, v)]"
  have eq: "(if noStringHeaders p then ?r1\<lparr>HTTP2Settings := s\<rparr>
       else ?r1\<lparr>HTTP2Settings := s, Headers := Headers req @ [(map fold_byte n, v)]\<rparr>)
    = req\<lparr>HTTP2Settings := s, Headers := ?hs, RawHeaders := ?rs\<rparr>" by simp
  have "fieldAction (req\<lparr>HTTP2Settings := s, Headers := ?hs, RawHeaders := ?rs\<rparr>) (map fold_byte n) v
      = (None, req2)" "p2 = q"
    using assms d unfolding eq [symmetric]
    by (auto simp: appendHeader_action Let_def split: prod.splits if_splits)
  then show ?thesis by (intro that [of ?hs s]) (use d in simp_all)
qed

section \<open>Message framing\<close>

definition framed :: "request \<Rightarrow> bool" where
  "framed req \<longleftrightarrow>
     (\<forall>v \<in> set (fieldValues (str ''content-length'') (RawHeaders req)). parseInt64Bytes v = Some (ContentLength req))
     \<and> (fieldValues (str ''content-length'') (RawHeaders req) = [] \<longrightarrow> ContentLength req = -1)
     \<and> (\<forall>v \<in> set (fieldValues (str ''transfer-encoding'') (RawHeaders req)). transferEncodingIsChunked v \<noteq> Inl ErrInvalidTransferEncoding)
     \<and> (ChunkedEncoding req \<longleftrightarrow>
          Inr True \<in> transferEncodingIsChunked ` set (fieldValues (str ''transfer-encoding'') (RawHeaders req)))
     \<and> (ChunkedEncoding req \<longrightarrow> fieldValues (str ''content-length'') (RawHeaders req) = [])"

lemma field_names_differ:
  "str ''content-length'' \<noteq> str ''transfer-encoding''" "str ''host'' \<noteq> str ''transfer-encoding''"
  "str ''host'' \<noteq> str ''content-length''" "str ''connection'' \<noteq> str ''content-length''"
  "str ''connection'' \<noteq> str ''transfer-encoding''" "str ''expect'' \<noteq> str ''content-length''"
  "str ''expect'' \<noteq> str ''transfer-encoding''" "str ''connection'' \<noteq> str ''expect''"
  "str ''connection'' \<noteq> str ''host''" "str ''expect'' \<noteq> str ''host''"
  by (simp_all add: str_simps)

lemma parseInt64Bytes_nonneg: "parseInt64Bytes v = Some cl \<Longrightarrow> 0 \<le> cl"
  using decVal_nonneg by (auto simp: parseInt64Bytes_iff)

lemma framed_content_length:
  assumes "framed req" "contentLengthField (req\<lparr>RawHeaders := RawHeaders req @ [(n, v)]\<rparr>) v = (None, req2)"
    and n: "map fold_byte n = str ''content-length''"
  shows "framed req2"
proof -
  from assms(2) obtain cl where cl: "parseInt64Bytes v = Some cl" "\<not> ChunkedEncoding req"
      "ContentLength req < 0 \<or> ContentLength req = cl"
      "req2 = req\<lparr>RawHeaders := RawHeaders req @ [(n, v)], ContentLength := cl\<rparr>"
    by (auto simp: contentLengthField_def split: if_splits option.splits)
  have "u \<in> set (fieldValues (str ''content-length'') (RawHeaders req)) \<Longrightarrow> parseInt64Bytes u = Some cl" for u
    using assms(1) cl(3) parseInt64Bytes_nonneg [of u] by (force simp: framed_def)
  then show ?thesis
    using assms(1) cl n field_names_differ by (auto simp: framed_def fieldValues_snoc)
qed

lemma framed_transfer_encoding:
  assumes "framed req" "transferEncodingField (req\<lparr>RawHeaders := RawHeaders req @ [(n, v)]\<rparr>) v = (None, req2)"
    and n: "map fold_byte n = str ''transfer-encoding''"
  shows "framed req2"
proof (cases "transferEncodingIsChunked v = Inr True")
  case True
  then have req2: "req2 = req\<lparr>RawHeaders := RawHeaders req @ [(n, v)], ChunkedEncoding := True, ContentLength := -1\<rparr>"
    and neg: "ContentLength req < 0"
    using assms(2) by (auto simp: transferEncodingField_def split: if_splits)
  have "fieldValues (str ''content-length'') (RawHeaders req) = []"
    using assms(1) neg parseInt64Bytes_nonneg
    by (cases "fieldValues (str ''content-length'') (RawHeaders req)") (force simp: framed_def)+
  then show ?thesis
    using assms(1) n True req2 field_names_differ by (auto simp: framed_def fieldValues_snoc)
next
  case False
  then have "transferEncodingIsChunked v = Inr False"
      "req2 = req\<lparr>RawHeaders := RawHeaders req @ [(n, v)]\<rparr>"
    using assms(2) by (auto simp: transferEncodingField_def split: if_splits sum.splits)
  then show ?thesis using assms(1) n field_names_differ by (auto simp: framed_def fieldValues_snoc)
qed

lemma framed_cong:
  assumes "RawHeaders req' = RawHeaders req" "ContentLength req' = ContentLength req"
    "ChunkedEncoding req' = ChunkedEncoding req"
  shows "framed req' = framed req"
  by (simp add: framed_def assms)

lemma framed_complete: "framed req \<Longrightarrow> framed (req\<lparr>HeadersComplete := True\<rparr>)"
  by (simp add: framed_def)

lemma framed_init:
  "RawHeaders req = [] \<Longrightarrow> ContentLength req = -1 \<Longrightarrow> \<not> ChunkedEncoding req \<Longrightarrow> framed req"
  by (simp add: framed_def)

lemma framed_other:
  assumes "framed req" "RawHeaders req2 = RawHeaders req @ [(n, v)]" "ContentLength req2 = ContentLength req"
    "ChunkedEncoding req2 = ChunkedEncoding req"
    "map fold_byte n \<noteq> str ''content-length''" "map fold_byte n \<noteq> str ''transfer-encoding''"
  shows "framed req2"
  using assms by (simp add: framed_def fieldValues_snoc)

lemma framed_fieldAction:
  assumes inv: "framed req"
    and act: "fieldAction (req\<lparr>RawHeaders := RawHeaders req @ [(n, v)]\<rparr>) (map fold_byte n) v = (None, req2)"
  shows "framed req2"
proof -
  consider (cl) "map fold_byte n = str ''content-length''" | (te) "map fold_byte n = str ''transfer-encoding''"
    | (other) "map fold_byte n \<noteq> str ''content-length''" "map fold_byte n \<noteq> str ''transfer-encoding''"
    by blast
  then show ?thesis
  proof cases
    case cl
    then show ?thesis
      using act framed_content_length [OF inv] field_names_differ by (simp add: fieldAction_def)
  next
    case te
    then show ?thesis
      using act framed_transfer_encoding [OF inv] field_names_differ by (simp add: fieldAction_def)
  next
    case other
    then show ?thesis
      using act by (intro framed_other [OF inv _ _ _ other])
        (auto simp: fieldAction_def connectionField_def expectField_def split: if_splits)
  qed
qed

lemma framed_appendHeader:
  assumes "framed req" "appendHeader p req n v = (None, p2, req2)"
  shows "framed req2"
proof -
  obtain s hs where a: "fieldAction (req\<lparr>HTTP2Settings := s, Headers := hs,
      RawHeaders := RawHeaders req @ [(n, v)]\<rparr>) (map fold_byte n) v = (None, req2)"
    using assms(2) by (rule appendHeader_field)
  let ?r = "req\<lparr>HTTP2Settings := s, Headers := hs\<rparr>"
  have "framed ?r" using assms(1) by (subst framed_cong [of _ req]) simp_all
  then show ?thesis using a framed_fieldAction [of ?r n v req2] by simp
qed

text \<open>
  C1. Request framing cannot be smuggled. In an accepted request every Content-Length field parses to
  the one value \<open>ContentLength\<close>, which is -1 exactly when there is none; the body is chunked if and only
  if some Transfer-Encoding field ends in chunked, no Transfer-Encoding field is malformed; and a
  chunked request has no Content-Length field at all.
\<close>

theorem request_framing:
  assumes "request_outcome zc nd b = Done r n"
  shows "(\<forall>v \<in> set (fieldValues (str ''content-length'') (RawHeaders r)). parseInt64Bytes v = Some (ContentLength r))
    \<and> (fieldValues (str ''content-length'') (RawHeaders r) = [] \<longleftrightarrow> ContentLength r = -1)
    \<and> Inl ErrInvalidTransferEncoding \<notin> transferEncodingIsChunked ` set (fieldValues (str ''transfer-encoding'') (RawHeaders r))
    \<and> (ChunkedEncoding r \<longleftrightarrow>
         Inr True \<in> transferEncodingIsChunked ` set (fieldValues (str ''transfer-encoding'') (RawHeaders r)))
    \<and> (ChunkedEncoding r \<longrightarrow> fieldValues (str ''content-length'') (RawHeaders r) = [])"
proof -
  obtain p req where "framed req" "r = (if h2cUpgrade p then req\<lparr>UpgradeH2C := True\<rparr> else req)"
    by (rule request_invariant [OF assms, where I = "\<lambda>_. framed"])
      (blast intro: framed_init framed_complete framed_appendHeader)+
  then have f: "framed r" by (cases "h2cUpgrade p") (simp_all add: framed_def)
  have "fieldValues (str ''content-length'') (RawHeaders r) \<noteq> [] \<Longrightarrow> 0 \<le> ContentLength r"
    using f parseInt64Bytes_nonneg
    by (cases "fieldValues (str ''content-length'') (RawHeaders r)") (auto simp: framed_def)
  then have "fieldValues (str ''content-length'') (RawHeaders r) = [] \<longleftrightarrow> ContentLength r = -1"
    using f by (auto simp: framed_def)
  then show ?thesis using f by (auto simp: framed_def)
qed

lemma example_post:
  "\<exists>r. request_outcome False False (str ''POST /x HTTP/1.1'' @ bCRLF @ str ''Host: a'' @ bCRLF
        @ str ''Content-Length: 5'' @ bCRLF @ bCRLF) = Done r 48
     \<and> RawHeaders r = [(str ''Host'', str ''a''), (str ''Content-Length'', str ''5'')]"
  by (simp add: request_outcome_def parse_simps contentLengthField_def parseInt64Bytes_def MaxInt64_def
      wrap64_def)

theorem request_framing_witness:
  "\<exists>r. request_outcome False False (str ''POST /x HTTP/1.1'' @ bCRLF @ str ''Host: a'' @ bCRLF
        @ str ''Content-Length: 5'' @ bCRLF @ bCRLF) = Done r 48 \<and> ContentLength r = 5 \<and> \<not> ChunkedEncoding r"
proof -
  from example_post obtain r where r: "request_outcome False False (str ''POST /x HTTP/1.1'' @ bCRLF
        @ str ''Host: a'' @ bCRLF @ str ''Content-Length: 5'' @ bCRLF @ bCRLF) = Done r 48"
      "RawHeaders r = [(str ''Host'', str ''a''), (str ''Content-Length'', str ''5'')]" by blast
  have "parseInt64Bytes (str ''5'') = Some 5" by (simp add: parseInt64Bytes_def str_simps MaxInt64_def wrap64_def)
  then show ?thesis using request_framing [OF r(1)] r
    by (auto simp: fieldValues_def fold_byte_def isUpper_def str_simps)
qed

section \<open>Transfer-Encoding\<close>

text \<open>The non-empty tokens of a comma-separated field value.\<close>

definition listTokens :: "byte list \<Rightarrow> byte list list" where
  "listTokens v = filter (\<lambda>t. t \<noteq> []) (map trimSpace (splitComma v))"

definition isChunkedTok :: "byte list \<Rightarrow> bool" where
  "isChunkedTok t \<longleftrightarrow> map fold_byte t = str ''chunked''"

lemma isChunkedTok_eq: "asciiEqualFold t (str ''chunked'') = isChunkedTok t"
  by (simp add: asciiEqualFold_iff isChunkedTok_def str_simps fold_byte_def isUpper_def)

lemma isChunkedTok_nonempty: "isChunkedTok t \<Longrightarrow> t \<noteq> []"
  by (auto simp: isChunkedTok_def str_simps)

lemma teScan_tokens:
  "teScan lst nl ps =
     (let ts = filter (\<lambda>t. t \<noteq> []) (map trimSpace ps) in
      (if ts = [] then lst else Some (last ts),
       nl \<or> (\<exists>t \<in> set (butlast ((case lst of None \<Rightarrow> [] | Some t \<Rightarrow> [t]) @ ts)). isChunkedTok t)))"
  by (induction ps arbitrary: lst nl)
    (auto simp: Let_def isChunkedTok_eq butlast_append split: option.splits)

lemma teListContainsChunked_tokens: "teListContainsChunked v \<longleftrightarrow> (\<exists>t \<in> set (listTokens v). isChunkedTok t)"
  using isChunkedTok_nonempty
  by (auto simp: teListContainsChunked_def listTokens_def list_ex_iff isChunkedTok_eq)

text \<open>
  The Transfer-Encoding decision in terms of the value's tokens: a value without tokens is not
  chunked; "chunked" (in any case) before the last token is an error; otherwise the coding is chunked
  if and only if the last token is "chunked".
\<close>

lemma transfer_encoding_tokens:
  "transferEncodingIsChunked v =
     (let ts = listTokens v in
      if ts = [] then Inr False
      else if \<exists>t \<in> set (butlast ts). map fold_byte t = str ''chunked'' then Inl ErrInvalidTransferEncoding
      else Inr (map fold_byte (last ts) = str ''chunked''))"
proof -
  let ?ts = "listTokens v"
  have scan: "teScan None False (splitComma v)
      = (if ?ts = [] then None else Some (last ?ts), \<exists>t \<in> set (butlast ?ts). isChunkedTok t)"
    by (simp add: teScan_tokens listTokens_def Let_def)
  have "set ?ts = set (butlast ?ts) \<union> {last ?ts}" if "?ts \<noteq> []"
    using that by (metis append_butlast_last_id list.set(1,2) set_append)
  then have "teListContainsChunked v \<longleftrightarrow> (\<exists>t \<in> set (butlast ?ts). isChunkedTok t) \<or> isChunkedTok (last ?ts)"
    if "?ts \<noteq> []"
    using that by (auto simp: teListContainsChunked_tokens)
  then show ?thesis
    by (auto simp: transferEncodingIsChunked_def scan Let_def isChunkedTok_eq isChunkedTok_def [symmetric])
qed

section \<open>Host, Connection, Expect\<close>

definition keepAliveAfter :: "bool \<Rightarrow> byte list list \<Rightarrow> bool" where
  "keepAliveAfter k0 vs = foldl (\<lambda>k v. if asciiContainsFoldString v (str ''close'') then False
     else if asciiContainsFoldString v (str ''keep-alive'') then True else k) k0 vs"

definition fieldsRead :: "request \<Rightarrow> bool" where
  "fieldsRead req \<longleftrightarrow>
     Host req = (case rev (fieldValues (str ''host'') (RawHeaders req)) of [] \<Rightarrow> [] | h # _ \<Rightarrow> h)
     \<and> KeepAlive req = keepAliveAfter (Version req = sHTTP11) (fieldValues (str ''connection'') (RawHeaders req))
     \<and> (ExpectContinue req \<longleftrightarrow> (\<exists>v \<in> set (fieldValues (str ''expect'') (RawHeaders req)).
          asciiContainsFoldString v (str ''100-continue'')))"

lemma field_effects:
  "Host (snd (contentLengthField req v)) = Host req" "Host (snd (transferEncodingField req v)) = Host req"
  "KeepAlive (snd (contentLengthField req v)) = KeepAlive req"
  "KeepAlive (snd (transferEncodingField req v)) = KeepAlive req"
  "ExpectContinue (snd (contentLengthField req v)) = ExpectContinue req"
  "ExpectContinue (snd (transferEncodingField req v)) = ExpectContinue req"
  by (simp_all add: contentLengthField_def transferEncodingField_def split: option.split sum.split)

lemma fieldAction_effects:
  "Host (snd (fieldAction req m v)) = (if m = str ''host'' then v else Host req)"
  "KeepAlive (snd (fieldAction req m v))
     = (if m = str ''connection'' then keepAliveAfter (KeepAlive req) [v] else KeepAlive req)"
  "ExpectContinue (snd (fieldAction req m v)) =
     (ExpectContinue req \<or> m = str ''expect'' \<and> asciiContainsFoldString v (str ''100-continue''))"
  using field_names_differ
  by (simp_all add: fieldAction_def field_effects connectionField_def expectField_def keepAliveAfter_def)

lemma fieldsRead_appendHeader:
  assumes inv: "fieldsRead req" and ap: "appendHeader p req n v = (None, p2, req2)"
  shows "fieldsRead req2"
proof -
  obtain s hs where a: "fieldAction (req\<lparr>HTTP2Settings := s, Headers := hs,
      RawHeaders := RawHeaders req @ [(n, v)]\<rparr>) (map fold_byte n) v = (None, req2)"
    using ap by (rule appendHeader_field)
  have same: "Version req2 = Version req" "RawHeaders req2 = RawHeaders req @ [(n, v)]"
    using appendHeader_req [OF ap] by auto
  have h: "Host req2 = (if map fold_byte n = str ''host'' then v else Host req)"
    and k: "KeepAlive req2 = (if map fold_byte n = str ''connection'' then keepAliveAfter (KeepAlive req) [v] else KeepAlive req)"
    and e: "ExpectContinue req2 = (ExpectContinue req \<or>
        map fold_byte n = str ''expect'' \<and> asciiContainsFoldString v (str ''100-continue''))"
    using fieldAction_effects [of "req\<lparr>HTTP2Settings := s, Headers := hs,
      RawHeaders := RawHeaders req @ [(n, v)]\<rparr>" "map fold_byte n" v] unfolding a by simp_all
  show ?thesis
    using inv unfolding fieldsRead_def same h k e fieldValues_snoc
    by (auto simp: keepAliveAfter_def)
qed

lemma fieldsRead_other:
  "fieldsRead req \<Longrightarrow> fieldsRead (req\<lparr>HeadersComplete := True\<rparr>)"
  "fieldsRead req \<Longrightarrow> fieldsRead (req\<lparr>UpgradeH2C := True\<rparr>)"
  by (simp_all add: fieldsRead_def)

lemma fieldsRead_init:
  "RawHeaders req = [] \<Longrightarrow> Host req = [] \<Longrightarrow> KeepAlive req = (Version req = sHTTP11) \<Longrightarrow>
     \<not> ExpectContinue req \<Longrightarrow> fieldsRead req"
  by (simp add: fieldsRead_def keepAliveAfter_def)

text \<open>
  C8. In an accepted request \<open>Host\<close> is the value of the last Host field and is not empty; \<open>KeepAlive\<close>
  starts from the version's default and follows the last Connection field that says close or
  keep-alive; \<open>ExpectContinue\<close> holds if and only if some Expect field asks for 100-continue.
\<close>

theorem request_connection_fields:
  assumes "request_outcome zc nd b = Done r n"
  shows "Host r \<noteq> [] \<and> fieldValues (str ''host'') (RawHeaders r) \<noteq> []
    \<and> Host r = last (fieldValues (str ''host'') (RawHeaders r))
    \<and> KeepAlive r = keepAliveAfter (Version r = sHTTP11) (fieldValues (str ''connection'') (RawHeaders r))
    \<and> (ExpectContinue r \<longleftrightarrow> (\<exists>v \<in> set (fieldValues (str ''expect'') (RawHeaders r)).
          asciiContainsFoldString v (str ''100-continue'')))"
proof -
  obtain p req where req: "fieldsRead req" "Host req \<noteq> []"
      and "r = (if h2cUpgrade p then req\<lparr>UpgradeH2C := True\<rparr> else req)"
    by (rule request_invariant [OF assms, where I = "\<lambda>_. fieldsRead"])
      (blast intro: fieldsRead_init fieldsRead_other fieldsRead_appendHeader)+
  then have "fieldsRead r" "Host r \<noteq> []" using fieldsRead_other by (auto split: if_splits)
  then show ?thesis by (auto simp: fieldsRead_def split: list.splits)
qed

lemma example_get:
  "\<exists>r. request_outcome True False (str ''GET / HTTP/1.0'' @ bCRLF @ str ''HOST:  b '' @ bCRLF @ bCRLF) = Done r 29
     \<and> RawHeaders r = [(str ''HOST'', str ''b'')]"
  by (simp add: request_outcome_def parse_simps)

theorem request_connection_fields_witness:
  "\<exists>r. request_outcome True False (str ''GET / HTTP/1.0'' @ bCRLF @ str ''HOST:  b '' @ bCRLF @ bCRLF) = Done r 29
     \<and> Host r = str ''b''"
proof -
  from example_get obtain r where r: "request_outcome True False
      (str ''GET / HTTP/1.0'' @ bCRLF @ str ''HOST:  b '' @ bCRLF @ bCRLF) = Done r 29"
      "RawHeaders r = [(str ''HOST'', str ''b'')]" by blast
  show ?thesis
    using request_connection_fields [OF r(1)] r by (simp add: fieldValues_def fold_byte_def isUpper_def str_simps)
qed

section \<open>Upgrade to h2c\<close>

text \<open>The tokens of the Connection fields.\<close>

definition connectionTokens :: "(byte list \<times> byte list) list \<Rightarrow> byte list list" where
  "connectionTokens hs = map (map fold_byte \<circ> trimSpace) (concat (map splitComma (fieldValues (str ''connection'') hs)))"

definition isH2C :: "byte list \<Rightarrow> bool" where
  "isH2C v \<longleftrightarrow> map fold_byte (trimSpace v) = str ''h2c''"

lemma detect_dispatch:
  "asciiEqualFold n (str ''Upgrade'') \<longleftrightarrow> map fold_byte n = str ''upgrade''"
  "asciiEqualFold n (str ''HTTP2-Settings'') \<longleftrightarrow> map fold_byte n = str ''http2-settings''"
  "asciiEqualFold n (str ''Connection'') \<longleftrightarrow> map fold_byte n = str ''connection''"
  "asciiEqualFold n (str ''h2c'') \<longleftrightarrow> map fold_byte n = str ''h2c''"
  "asciiEqualFold n (str ''upgrade'') \<longleftrightarrow> map fold_byte n = str ''upgrade''"
  "asciiEqualFold n (str ''http2-settings'') \<longleftrightarrow> map fold_byte n = str ''http2-settings''"
  by (simp_all add: asciiEqualFold_iff str_simps fold_byte_def isUpper_def)

lemma detect_first_byte:
  "map fold_byte n = str ''upgrade'' \<Longrightarrow> n \<noteq> [] \<and> hd n OR 0x20 = 0x75"
  "map fold_byte n = str ''http2-settings'' \<Longrightarrow> n \<noteq> [] \<and> hd n OR 0x20 = 0x68"
  "map fold_byte n = str ''connection'' \<Longrightarrow> n \<noteq> [] \<and> hd n OR 0x20 = 0x63"
  unfolding detect_dispatch [symmetric] by (drule asciiEqualFold_hd; simp add: str_simps)+

lemma h2c_no_comma: "isH2C v \<Longrightarrow> bytes_IndexByte (trimSpace v) 0x2C = None"
proof -
  assume "isH2C v"
  then have "set (map fold_byte (trimSpace v)) = set (str ''h2c'')" by (simp add: isH2C_def)
  moreover have "fold_byte 0x2C \<notin> set (str ''h2c'')" by (simp add: str_simps fold_byte_def isUpper_def)
  ultimately have "0x2C \<notin> set (trimSpace v)" by (metis image_eqI list.set_map)
  then show ?thesis by (simp add: bytes_IndexByte_None)
qed

lemma detectH2CHeader_fields:
  "detectH2CHeader p req n v =
     (if map fold_byte n = str ''upgrade'' then
        (if isH2C v then (if \<not> upgradeH2CDisqualified p then p\<lparr>upgradeH2CSeen := True\<rparr> else p)
         else p\<lparr>upgradeH2CSeen := False, upgradeH2CDisqualified := True\<rparr>, req)
      else if map fold_byte n = str ''http2-settings'' then
        (if http2SettingsSeen p then (p\<lparr>http2SettingsRepeated := True\<rparr>, req)
         else (p\<lparr>http2SettingsSeen := True\<rparr>, req\<lparr>HTTP2Settings := trimSpace v\<rparr>))
      else if map fold_byte n = str ''connection'' then (connTokens p (splitComma v), req)
      else (p, req))"
proof -
  obtain c where c: "hd n OR 0x20 = c" by blast
  show ?thesis
    using detect_first_byte [of n, unfolded c] h2c_no_comma [of v]
    unfolding detectH2CHeader_def detect_dispatch isH2C_def Let_def c by (simp split: if_split)
qed

lemma connTokens_flags:
  "connTokens p ps = p\<lparr>connectionHasUpgradeToken := connectionHasUpgradeToken p
         \<or> str ''upgrade'' \<in> set (map (map fold_byte \<circ> trimSpace) ps),
       connectionHasSettingsToken := connectionHasSettingsToken p
         \<or> str ''http2-settings'' \<in> set (map (map fold_byte \<circ> trimSpace) ps)\<rparr>"
proof (induction p ps rule: connTokens.induct)
  case (2 p piece ps)
  have "str ''upgrade'' \<noteq> str ''http2-settings''" by (simp add: str_simps)
  then show ?case using 2 [OF refl] by (auto simp: Let_def detect_dispatch)
qed simp

text \<open>The detection state after Upgrade values \<open>us\<close>, HTTP2-Settings values \<open>ss\<close> and Connection tokens \<open>ts\<close>.\<close>

definition h2cFlags :: "parser \<Rightarrow> byte list \<Rightarrow> byte list list \<Rightarrow> byte list list \<Rightarrow> byte list list \<Rightarrow> bool" where
  "h2cFlags p settings us ss ts \<longleftrightarrow>
     (upgradeH2CDisqualified p \<longleftrightarrow> \<not> list_all isH2C us) \<and> (upgradeH2CSeen p \<longleftrightarrow> us \<noteq> [] \<and> list_all isH2C us)
     \<and> (http2SettingsSeen p \<longleftrightarrow> ss \<noteq> []) \<and> (http2SettingsRepeated p \<longleftrightarrow> length ss > 1)
     \<and> settings = (case ss of [] \<Rightarrow> [] | v # _ \<Rightarrow> trimSpace v)
     \<and> (connectionHasUpgradeToken p \<longleftrightarrow> str ''upgrade'' \<in> set ts)
     \<and> (connectionHasSettingsToken p \<longleftrightarrow> str ''http2-settings'' \<in> set ts)"

definition h2cSeen :: "parser \<Rightarrow> request \<Rightarrow> bool" where
  "h2cSeen p req \<longleftrightarrow>
     h2cFlags p (HTTP2Settings req) (fieldValues (str ''upgrade'') (RawHeaders req))
       (fieldValues (str ''http2-settings'') (RawHeaders req)) (connectionTokens (RawHeaders req))"

lemma h2cFlags_upgrade:
  assumes "h2cFlags p s us ss ts"
  shows "isH2C v \<Longrightarrow> \<not> upgradeH2CDisqualified p \<Longrightarrow> h2cFlags (p\<lparr>upgradeH2CSeen := True\<rparr>) s (us @ [v]) ss ts"
    "isH2C v \<Longrightarrow> upgradeH2CDisqualified p \<Longrightarrow> h2cFlags p s (us @ [v]) ss ts"
    "\<not> isH2C v \<Longrightarrow> h2cFlags (p\<lparr>upgradeH2CSeen := False, upgradeH2CDisqualified := True\<rparr>) s (us @ [v]) ss ts"
  using assms by (simp_all add: h2cFlags_def)

lemma h2cFlags_settings:
  assumes "h2cFlags p s us ss ts"
  shows "http2SettingsSeen p \<Longrightarrow> h2cFlags (p\<lparr>http2SettingsRepeated := True\<rparr>) s us (ss @ [v]) ts"
    "\<not> http2SettingsSeen p \<Longrightarrow> h2cFlags (p\<lparr>http2SettingsSeen := True\<rparr>) (trimSpace v) us (ss @ [v]) ts"
  using assms by (cases ss; simp add: h2cFlags_def)+

lemma h2cFlags_connection:
  assumes "h2cFlags p s us ss ts"
  shows "h2cFlags (connTokens p ps) s us ss (ts @ map (map fold_byte \<circ> trimSpace) ps)"
  using assms unfolding connTokens_flags h2cFlags_def by simp

lemma detect_names_differ:
  "str ''upgrade'' \<noteq> str ''http2-settings''" "str ''upgrade'' \<noteq> str ''connection''"
  "str ''http2-settings'' \<noteq> str ''connection''"
  by (simp_all add: str_simps)

lemma connectionTokens_snoc:
  "connectionTokens (hs @ [(n, v)]) = connectionTokens hs
     @ (if map fold_byte n = str ''connection'' then map (map fold_byte \<circ> trimSpace) (splitComma v) else [])"
  by (simp add: connectionTokens_def fieldValues_snoc)

lemma fieldAction_settings: "HTTP2Settings (snd (fieldAction req m v)) = HTTP2Settings req"
  by (simp add: fieldAction_def contentLengthField_def transferEncodingField_def connectionField_def
      expectField_def split: option.split sum.split)

lemma h2cSeen_detect:
  assumes inv: "h2cSeen p req" and d: "detectH2CHeader p req' n v = (p2, req2)"
    and req': "HTTP2Settings req' = HTTP2Settings req" "RawHeaders req' = RawHeaders req @ [(n, v)]"
  shows "h2cSeen p2 req2"
proof -
  note flags = inv [unfolded h2cSeen_def]
  consider (u) "map fold_byte n = str ''upgrade''" | (s) "map fold_byte n = str ''http2-settings''"
    | (c) "map fold_byte n = str ''connection''"
    | (o) "map fold_byte n \<notin> {str ''upgrade'', str ''http2-settings'', str ''connection''}" by blast
  then show ?thesis
  proof cases
    case u
    then have "p2 = (if isH2C v then (if \<not> upgradeH2CDisqualified p then p\<lparr>upgradeH2CSeen := True\<rparr> else p)
         else p\<lparr>upgradeH2CSeen := False, upgradeH2CDisqualified := True\<rparr>)" "req2 = req'"
      using d by (simp_all add: detectH2CHeader_fields)
    with u show ?thesis using req' detect_names_differ h2cFlags_upgrade [OF flags, of v]
      by (simp add: h2cSeen_def fieldValues_snoc connectionTokens_snoc)
  next
    case s
    then have "(p2, req2) = (if http2SettingsSeen p then (p\<lparr>http2SettingsRepeated := True\<rparr>, req')
         else (p\<lparr>http2SettingsSeen := True\<rparr>, req'\<lparr>HTTP2Settings := trimSpace v\<rparr>))"
      using d detect_names_differ by (simp add: detectH2CHeader_fields)
    with s show ?thesis using req' detect_names_differ h2cFlags_settings [OF flags, of v]
      by (cases "http2SettingsSeen p") (simp_all add: h2cSeen_def fieldValues_snoc connectionTokens_snoc)
  next
    case c
    then have "p2 = connTokens p (splitComma v)" "req2 = req'"
      using d detect_names_differ by (auto simp: detectH2CHeader_fields)
    with c show ?thesis using req' detect_names_differ h2cFlags_connection [OF flags, of "splitComma v"]
      by (simp add: h2cSeen_def fieldValues_snoc connectionTokens_snoc)
  next
    case o
    then have "p2 = p" "req2 = req'" using d by (auto simp: detectH2CHeader_fields)
    with o show ?thesis using flags req' by (simp add: h2cSeen_def fieldValues_snoc connectionTokens_snoc)
  qed
qed

definition h2cTracked :: "bool \<Rightarrow> parser \<Rightarrow> request \<Rightarrow> bool" where
  "h2cTracked nd p req \<longleftrightarrow> disableH2CDetect p = nd \<and> (if nd then \<not> upgradeH2CSeen p else h2cSeen p req)"

lemma h2cTracked_appendHeader:
  assumes inv: "h2cTracked nd p req" and ap: "appendHeader p req n v = (None, p2, req2)"
  shows "h2cTracked nd p2 req2"
proof (cases nd)
  case True
  then show ?thesis
    using inv ap by (auto simp: h2cTracked_def appendHeader_action detectStep_def Let_def split: prod.splits)
next
  case False
  let ?r1 = "req\<lparr>RawHeaders := RawHeaders req @ [(n, v)]\<rparr>"
  obtain q r3 where d: "detectH2CHeader p ?r1 n v = (q, r3)" by fastforce
  have "h2cSeen q r3" using inv False by (intro h2cSeen_detect [OF _ d, of req]) (auto simp: h2cTracked_def)
  moreover have step: "detectStep p ?r1 n v = (q, r3)" using inv False d by (simp add: h2cTracked_def detectStep_def)
  obtain s hs where a: "fieldAction (req\<lparr>HTTP2Settings := s, Headers := hs,
      RawHeaders := RawHeaders req @ [(n, v)]\<rparr>) (map fold_byte n) v = (None, req2)"
      and s: "s = HTTP2Settings (snd (detectStep p ?r1 n v))" and "p2 = fst (detectStep p ?r1 n v)"
    using ap by (rule appendHeader_field)
  then have "HTTP2Settings req2 = HTTP2Settings r3" "p2 = q"
    using step fieldAction_settings [of "req\<lparr>HTTP2Settings := s, Headers := hs,
      RawHeaders := RawHeaders req @ [(n, v)]\<rparr>" "map fold_byte n" v] unfolding a by simp_all
  moreover have "RawHeaders req2 = RawHeaders r3"
    using appendHeader_req(5) [OF ap] sameLine_detect [of ?r1 p n v] d by (simp add: sameLine_def)
  ultimately show ?thesis
    using False inv appendHeader_frame(4) [OF ap] by (simp add: h2cTracked_def h2cSeen_def)
qed

lemma h2cTracked_other:
  "h2cTracked nd p req \<Longrightarrow> h2cTracked nd (p\<lparr>p_pos := k\<rparr>) req"
  "h2cTracked nd p req \<Longrightarrow> h2cTracked nd p (req\<lparr>HeadersComplete := True\<rparr>)"
  by (cases nd; simp add: h2cTracked_def h2cSeen_def h2cFlags_def)+

lemma h2cTracked_init:
  "disableH2CDetect p = nd \<Longrightarrow> RawHeaders req = [] \<Longrightarrow> HTTP2Settings req = [] \<Longrightarrow>
     h2cTracked nd (enterHeaders p) req"
  by (simp add: h2cTracked_def h2cSeen_def h2cFlags_def enterHeaders_def connectionTokens_def)

text \<open>
  C4. The h2c upgrade is offered exactly when RFC 7540 section 3.2 asks for it. In an accepted request
  \<open>UpgradeH2C\<close> holds if and only if detection is on, there is an Upgrade field and every one of them is
  exactly h2c, there is exactly one HTTP2-Settings field, and the Connection fields name both upgrade and
  http2-settings; the settings kept are the value of that one field.
\<close>

theorem request_h2c_upgrade:
  assumes "request_outcome zc nd b = Done r n"
  shows "(UpgradeH2C r \<longleftrightarrow> \<not> nd
      \<and> fieldValues (str ''upgrade'') (RawHeaders r) \<noteq> [] \<and> list_all isH2C (fieldValues (str ''upgrade'') (RawHeaders r))
      \<and> length (fieldValues (str ''http2-settings'') (RawHeaders r)) = 1
      \<and> str ''upgrade'' \<in> set (connectionTokens (RawHeaders r))
      \<and> str ''http2-settings'' \<in> set (connectionTokens (RawHeaders r)))
    \<and> (UpgradeH2C r \<longrightarrow> fieldValues (str ''http2-settings'') (RawHeaders r) \<noteq> []
         \<and> HTTP2Settings r = trimSpace (hd (fieldValues (str ''http2-settings'') (RawHeaders r))))"
proof -
  obtain p req where req: "h2cTracked nd p req" "\<not> UpgradeH2C req"
      and r: "r = (if h2cUpgrade p then req\<lparr>UpgradeH2C := True\<rparr> else req)"
    by (rule request_invariant [OF assms, where I = "h2cTracked nd"])
      (blast intro: h2cTracked_init h2cTracked_other h2cTracked_appendHeader)+
  obtain ss where ss: "fieldValues (str ''http2-settings'') (RawHeaders r) = ss" by blast
  have one: "length ss = 1 \<longleftrightarrow> ss \<noteq> [] \<and> \<not> length ss > 1" by (cases ss) auto
  have same: "RawHeaders req = RawHeaders r" "HTTP2Settings req = HTTP2Settings r" "UpgradeH2C r = h2cUpgrade p"
    using r req(2) by auto
  show ?thesis
  proof (cases nd)
    case True
    then show ?thesis using req(1) same(3) by (simp add: h2cTracked_def h2cUpgrade_def)
  next
    case False
    then have seen: "h2cSeen p req" using req(1) by (simp add: h2cTracked_def)
    show ?thesis
      using seen False unfolding h2cSeen_def h2cFlags_def same ss one h2cUpgrade_def
      by (cases ss) auto
  qed
qed

lemma example_h2c:
  "\<exists>r. request_outcome True False (str ''GET / HTTP/1.1'' @ bCRLF @ str ''Host: a'' @ bCRLF @ str ''Upgrade: h2c'' @ bCRLF
        @ str ''Connection: Upgrade, HTTP2-Settings'' @ bCRLF @ str ''HTTP2-Settings: AA'' @ bCRLF @ bCRLF) = Done r 98
     \<and> RawHeaders r = [(str ''Host'', str ''a''), (str ''Upgrade'', str ''h2c''),
          (str ''Connection'', str ''Upgrade, HTTP2-Settings''), (str ''HTTP2-Settings'', str ''AA'')]"
  by (simp add: request_outcome_def parse_simps connectionField_def asciiContainsFoldBytes_def
      splitComma.simps)

theorem request_h2c_upgrade_witness:
  "\<exists>r. request_outcome True False (str ''GET / HTTP/1.1'' @ bCRLF @ str ''Host: a'' @ bCRLF @ str ''Upgrade: h2c'' @ bCRLF
        @ str ''Connection: Upgrade, HTTP2-Settings'' @ bCRLF @ str ''HTTP2-Settings: AA'' @ bCRLF @ bCRLF) = Done r 98
     \<and> UpgradeH2C r \<and> HTTP2Settings r = str ''AA''"
proof -
  from example_h2c obtain r where r: "request_outcome True False (str ''GET / HTTP/1.1'' @ bCRLF @ str ''Host: a'' @ bCRLF
        @ str ''Upgrade: h2c'' @ bCRLF @ str ''Connection: Upgrade, HTTP2-Settings'' @ bCRLF
        @ str ''HTTP2-Settings: AA'' @ bCRLF @ bCRLF) = Done r 98"
      "RawHeaders r = [(str ''Host'', str ''a''), (str ''Upgrade'', str ''h2c''),
          (str ''Connection'', str ''Upgrade, HTTP2-Settings''), (str ''HTTP2-Settings'', str ''AA'')]" by blast
  show ?thesis
    using request_h2c_upgrade [OF r(1)] r
    by (simp add: fieldValues_def connectionTokens_def splitComma.simps isH2C_def trimSpace_def isOWS_def
        fold_byte_def isUpper_def str_simps)
qed

section \<open>Zero-copy mode and string mode\<close>

lemma fieldAction_headers:
  "fieldAction (req\<lparr>Headers := hs\<rparr>) m v = map_prod id (\<lambda>r. r\<lparr>Headers := hs\<rparr>) (fieldAction req m v)"
  by (simp add: fieldAction_def contentLengthField_def transferEncodingField_def connectionField_def
      expectField_def split: option.split sum.split)

lemma detectStep_mode_headers:
  "detectStep (p\<lparr>noStringHeaders := z\<rparr>) (req\<lparr>Headers := hs\<rparr>) n v
     = map_prod (\<lambda>p. p\<lparr>noStringHeaders := z\<rparr>) (\<lambda>r. r\<lparr>Headers := hs\<rparr>) (detectStep p req n v)"
  by (simp add: detectStep_def detectH2CHeader_fields connTokens_flags)

lemma appendHeader_mode:
  assumes "appendHeader p req n v = (e, p2, req2)"
  shows "appendHeader (p\<lparr>noStringHeaders := True\<rparr>) (req\<lparr>Headers := []\<rparr>) n v
    = (e, p2\<lparr>noStringHeaders := True\<rparr>, req2\<lparr>Headers := []\<rparr>)"
proof -
  let ?rs = "RawHeaders req @ [(n, v)]"
  obtain q r where d: "detectStep p (req\<lparr>RawHeaders := ?rs\<rparr>) n v = (q, r)" by fastforce
  have "detectStep (p\<lparr>noStringHeaders := True\<rparr>) ((req\<lparr>RawHeaders := ?rs\<rparr>)\<lparr>Headers := []\<rparr>) n v
      = (q\<lparr>noStringHeaders := True\<rparr>, r\<lparr>Headers := []\<rparr>)"
    unfolding detectStep_mode_headers d by simp
  moreover have "(req\<lparr>RawHeaders := ?rs\<rparr>)\<lparr>Headers := []\<rparr> = (req\<lparr>Headers := []\<rparr>)\<lparr>RawHeaders := ?rs\<rparr>" by simp
  ultimately have d': "detectStep (p\<lparr>noStringHeaders := True\<rparr>) ((req\<lparr>Headers := []\<rparr>)\<lparr>RawHeaders := ?rs\<rparr>) n v
      = (q\<lparr>noStringHeaders := True\<rparr>, r\<lparr>Headers := []\<rparr>)" by simp
  obtain e0 r0 where f: "fieldAction r (map fold_byte n) v = (e0, r0)" by fastforce
  show ?thesis
    using assms d d' f
    by (cases "noStringHeaders p") (auto simp: appendHeader_action Let_def fieldAction_headers)
qed

lemma appendHeader_mode_pos:
  assumes "appendHeader (p\<lparr>p_pos := k\<rparr>) req n v = (e, p2, req2)"
  shows "appendHeader (p\<lparr>noStringHeaders := True, p_pos := k\<rparr>) (req\<lparr>Headers := []\<rparr>) n v
    = (e, p2\<lparr>noStringHeaders := True\<rparr>, req2\<lparr>Headers := []\<rparr>)"
proof -
  have "p\<lparr>noStringHeaders := True, p_pos := k\<rparr> = (p\<lparr>p_pos := k\<rparr>)\<lparr>noStringHeaders := True\<rparr>" by simp
  then show ?thesis by (simp only: appendHeader_mode [OF assms])
qed

lemma classifyLine_headers: "classifyLine (req\<lparr>Headers := hs\<rparr>) t line = classifyLine req t line"
  by (simp add: classifyLine_def)

lemma parseHeadersLoop_mode:
  assumes "parseHeadersLoop p req t = (r, p', req')"
  shows "parseHeadersLoop (p\<lparr>noStringHeaders := True\<rparr>) (req\<lparr>Headers := []\<rparr>) t
    = (r, p'\<lparr>noStringHeaders := True\<rparr>, req'\<lparr>Headers := []\<rparr>)"
  using assms
proof (induction rule: parseHeadersLoop_induct)
  case (field p req t le n v p2 req2 r p' req')
  have "appendHeader (p\<lparr>noStringHeaders := True, p_pos := p_pos p + le + 2\<rparr>) (req\<lparr>Headers := []\<rparr>) n v
      = (None, p2\<lparr>noStringHeaders := True\<rparr>, req2\<lparr>Headers := []\<rparr>)"
    by (rule appendHeader_mode_pos [OF field(3)])
  then show ?case
    using field by (subst parseHeadersLoop_line) (simp add: Let_def classifyLine_headers del: add_2_eq_Suc')
next
  case (refused p req t le n v e p2 req2)
  have "appendHeader (p\<lparr>noStringHeaders := True, p_pos := p_pos p + le + 2\<rparr>) (req\<lparr>Headers := []\<rparr>) n v
      = (Some e, p2\<lparr>noStringHeaders := True\<rparr>, req2\<lparr>Headers := []\<rparr>)"
    by (rule appendHeader_mode_pos [OF refused(3)])
  then show ?case
    using refused by (subst parseHeadersLoop_line) (simp add: Let_def classifyLine_headers del: add_2_eq_Suc')
qed (subst parseHeadersLoop_line, simp add: Let_def classifyLine_headers)+

lemma requestLineFields_headers: "Headers (snd (requestLineFields line req)) = Headers req"
  by (simp add: requestLineFields_def Let_def split: option.split)

lemma parseRequestLine_headers:
  assumes "parseRequestLine p req = (r, p', req')"
  shows "Headers req' = Headers req"
  using assms requestLineFields_headers [of _ req]
  by (auto simp: parseRequestLine_line split: option.splits if_splits prod.splits) (metis snd_conv)

lemma ParseRequest_mode:
  assumes "ParseRequest p req = (r, p', req')" and h: "Headers req = []"
  shows "ParseRequest (p\<lparr>noStringHeaders := True\<rparr>) req = (r, p'\<lparr>noStringHeaders := True\<rparr>, req'\<lparr>Headers := []\<rparr>)"
proof -
  obtain r1 p1 req1 where l: "parseRequestLine p req = (r1, p1, req1)" by (metis prod_cases3)
  have s: "lineStart (p\<lparr>noStringHeaders := True\<rparr>) = lineStart p" by (simp add: lineStart_def)
  have l': "parseRequestLine (p\<lparr>noStringHeaders := True\<rparr>) req = (r1, p1\<lparr>noStringHeaders := True\<rparr>, req1)"
    using l by (auto simp: parseRequestLine_line s split: option.splits if_splits prod.splits)
  have h1: "Headers req1 = []" using parseRequestLine_headers [OF l] h by simp
  have e: "enterHeaders (p1\<lparr>noStringHeaders := True\<rparr>) = (enterHeaders p1)\<lparr>noStringHeaders := True\<rparr>"
    "(enterRequest req1)\<lparr>Headers := []\<rparr> = enterRequest req1"
    by (simp_all add: enterHeaders_def enterRequest_def)
  obtain r2 p2 req2 where lp: "parseHeadersLoop (enterHeaders p1) (enterRequest req1) 0 = (r2, p2, req2)"
    by (metis prod_cases3)
  note lp' = parseHeadersLoop_mode [OF lp, unfolded e]
  have id: "x\<lparr>Headers := []\<rparr> = x" if "Headers x = []" for x :: request using that by simp
  show ?thesis
  proof (cases "r1 = Inr True \<and> \<not> p_pos p \<ge> length (p_buf p)")
    case True
    then show ?thesis
      using assms(1) l l' lp lp' e
      by (auto simp: ParseRequest_parts leaveHeaders_def h2cUpgrade_def split: sum.splits bool.splits if_splits)
  next
    case False
    then show ?thesis
      using assms(1) l l' id [OF h] id [OF h1] by (auto simp: ParseRequest_parts split: sum.splits bool.splits if_splits)
  qed
qed

definition headersLowered :: "request \<Rightarrow> bool" where
  "headersLowered req \<longleftrightarrow> Headers req = map (\<lambda>(n, v). (map fold_byte n, v)) (RawHeaders req)"

lemma headersLowered_appendHeader:
  assumes "headersLowered req" "\<not> noStringHeaders p" "appendHeader p req n v = (None, p2, req2)"
  shows "headersLowered req2"
proof -
  obtain s hs where a: "fieldAction (req\<lparr>HTTP2Settings := s, Headers := hs,
      RawHeaders := RawHeaders req @ [(n, v)]\<rparr>) (map fold_byte n) v = (None, req2)"
      and hs: "hs = (if noStringHeaders p then Headers req else Headers req @ [(map fold_byte n, v)])"
    using assms(3) by (rule appendHeader_field)
  have eq: "(req\<lparr>HTTP2Settings := s, RawHeaders := RawHeaders req @ [(n, v)]\<rparr>)\<lparr>Headers := hs\<rparr>
      = req\<lparr>HTTP2Settings := s, Headers := hs, RawHeaders := RawHeaders req @ [(n, v)]\<rparr>" by simp
  have "Headers req2 = hs"
    using a fieldAction_headers [of hs "req\<lparr>HTTP2Settings := s, RawHeaders := RawHeaders req @ [(n, v)]\<rparr>"
        "map fold_byte n" v] unfolding eq by (cases "fieldAction (req\<lparr>HTTP2Settings := s,
        RawHeaders := RawHeaders req @ [(n, v)]\<rparr>) (map fold_byte n) v") auto
  then show ?thesis
    using assms(1,2) hs appendHeader_req(5) [OF assms(3)] by (simp add: headersLowered_def)
qed

text \<open>
  C3. Zero-copy mode and string mode agree on every buffer: the same error, the same request for more
  bytes, or the same request and length, up to the \<open>Headers\<close> list, which zero-copy mode leaves empty and
  which in string mode is the raw header list with the names lower-cased.
\<close>

theorem header_modes_agree:
  "request_outcome True nd b = map_outcome id (\<lambda>r. r\<lparr>Headers := []\<rparr>) (request_outcome False nd b)
   \<and> pred_outcome (\<lambda>_. True) (\<lambda>r. Headers r = map (\<lambda>(n, v). (map fold_byte n, v)) (RawHeaders r))
       (request_outcome False nd b)"
proof
  obtain r p req where run: "ParseRequest (startParser False nd b) zeroRequest = (r, p, req)"
    by (metis prod_cases3)
  have st: "startParser True nd b = (startParser False nd b)\<lparr>noStringHeaders := True\<rparr>"
    by (simp add: startParser_def ResetParser_def SetDisableH2CDetect_def SetZeroCopy_def NewParser_def)
  have "ParseRequest (startParser True nd b) zeroRequest = (r, p\<lparr>noStringHeaders := True\<rparr>, req\<lparr>Headers := []\<rparr>)"
    unfolding st by (rule ParseRequest_mode [OF run]) (simp add: zeroRequest_def)
  then show "request_outcome True nd b = map_outcome id (\<lambda>r. r\<lparr>Headers := []\<rparr>) (request_outcome False nd b)"
    using run by (simp add: request_outcome_def parse_buffer_start split: sum.split)
next
  have "headersLowered r" if run: "request_outcome False nd b = Done r n" for r n
  proof -
    obtain p req where "headersLowered req \<and> \<not> noStringHeaders p"
        "r = (if h2cUpgrade p then req\<lparr>UpgradeH2C := True\<rparr> else req)"
      by (rule request_invariant [OF run, where I = "\<lambda>p req. headersLowered req \<and> \<not> noStringHeaders p"])
        (auto simp: enterHeaders_def appendHeader_frame intro: headersLowered_appendHeader,
         (simp add: headersLowered_def)+)
    then show ?thesis by (auto simp: headersLowered_def split: if_splits)
  qed
  then show "pred_outcome (\<lambda>_. True) (\<lambda>r. Headers r = map (\<lambda>(n, v). (map fold_byte n, v)) (RawHeaders r))
       (request_outcome False nd b)"
    by (cases "request_outcome False nd b") (auto simp: headersLowered_def)
qed

section \<open>Bounds and character sets\<close>

lemma valid_value_bytes: "isValidHeaderValue v \<Longrightarrow> CR \<notin> set v \<and> LF \<notin> set v \<and> 0 \<notin> set v"
  by (auto simp: isValidHeaderValue_def list_all_iff fieldVCharTable_def)

text \<open>
  C7. What the parser accepts is bounded and clean: it consumes at most the buffer and at most one
  skipped empty line, a request line and a header block of maximal size; it returns at most
  \<open>MaxHeaderCount\<close> fields; every field name is a token and every value is trimmed and free of CR, LF and
  NUL; the method is a token and the target is non-empty and free of control bytes.
\<close>

theorem request_bounds:
  assumes "request_outcome zc nd b = Done r n"
  shows "0 < n \<and> n \<le> length b \<and> n \<le> 2 + MaxRequestLineSize + 2 + MaxHeaderSize
    \<and> length (RawHeaders r) \<le> MaxHeaderCount
    \<and> list_all (\<lambda>(h, v). isToken h \<and> trimSpace v = v \<and> CR \<notin> set v \<and> LF \<notin> set v \<and> 0 \<notin> set v) (RawHeaders r)
    \<and> isToken (Method r) \<and> Path r \<noteq> [] \<and> \<not> list_ex targetBadTable (Path r)"
proof -
  from assms obtain p where n: "0 < n" and
    run: "ParseRequest (startParser zc nd b) zeroRequest = (Inr n, p, r)"
    by (auto simp: request_outcome_Done)
  from run n obtain p1 req1 req2 where
    l: "parseRequestLine (startParser zc nd b) zeroRequest = (Inr True, p1, req1)"
    and h: "parseHeadersLoop (enterHeaders p1) (enterRequest req1) 0 = (Inr True, p, req2)"
    and r: "r = (if h2cUpgrade p then req2\<lparr>UpgradeH2C := True\<rparr> else req2)"
    by (rule ParseRequest_Done)
  obtain line where "requestLineFields line zeroRequest = (Inr True, req1)"
    using l by (auto simp: parseRequestLine_line split: option.splits if_splits prod.splits)
  then have "isToken (Method req1) \<and> Path req1 \<noteq> [] \<and> \<not> list_ex targetBadTable (Path req1)"
    using requestLineFields_ok by blast
  then have line: "isToken (Method r) \<and> Path r \<noteq> [] \<and> \<not> list_ex targetBadTable (Path r)"
    using parseHeadersLoop_req [OF h] r by (simp add: enterRequest_def)
  let ?ok = "\<lambda>(h, v). isToken h \<and> trimSpace v = v \<and> CR \<notin> set v \<and> LF \<notin> set v \<and> 0 \<notin> set v"
  have "length (RawHeaders req2) \<le> MaxHeaderCount \<and> list_all ?ok (RawHeaders req2)"
    by (rule parseHeadersLoop_invariant [OF h refl, where
          I = "\<lambda>_ req. length (RawHeaders req) \<le> MaxHeaderCount \<and> list_all ?ok (RawHeaders req)"])
      (auto simp: enterRequest_def appendHeader_req(5) isToken_def dest: valid_value_bytes)
  then have "length (RawHeaders r) \<le> MaxHeaderCount \<and> list_all ?ok (RawHeaders r)" using r by simp
  then show ?thesis using line ParseRequest_pos [OF run n] n by simp
qed

theorem request_bounds_witness:
  "\<exists>r. request_outcome True False (str ''GET / HTTP/1.0'' @ bCRLF @ str ''HOST:  b '' @ bCRLF @ bCRLF) = Done r 29
     \<and> isToken (Method r)"
proof -
  from example_get obtain r where r: "request_outcome True False
      (str ''GET / HTTP/1.0'' @ bCRLF @ str ''HOST:  b '' @ bCRLF @ bCRLF) = Done r 29" by blast
  show ?thesis using request_bounds [OF r] r by blast
qed

end
