(* ===== verification/H1_Chunked.thy ===== *)
theory H1_Chunked
  imports H1_Framing
begin

text \<open>
  Chunked transfer coding: \<^verbatim>\<open>chunked.go\<close> of \<^verbatim>\<open>internal/protocol/h1\<close>, the decoder loop
  \<^verbatim>\<open>scanChunked\<close> of \<^verbatim>\<open>internal/conn/h1.go\<close> with its limits, and the chunks
  \<^verbatim>\<open>h1ResponseAdapter.Write\<close> of \<^verbatim>\<open>internal/conn/response.go\<close> frames.
\<close>

section \<open>Definitions\<close>

datatype chunk_error =
    errInvalidChunkSize
  | errInvalidChunkTerminator
  | errTrailerTooLarge
  | errChunkLineTooLong

definition MaxChunkLineSize :: nat where "MaxChunkLineSize = 4096"

abbreviation bCRLFCRLF :: "byte list" where "bCRLFCRLF \<equiv> [CR, LF, CR, LF]"

text \<open>The digit switch of \<^verbatim>\<open>parseHex64\<close>.\<close>

definition hexDigit :: "byte \<Rightarrow> int option" where
  "hexDigit c =
     (if 0x30 \<le> c \<and> c \<le> 0x39 then Some (uint (c - 0x30))
      else if 0x61 \<le> c \<and> c \<le> 0x66 then Some (uint (c - 0x61) + 10)
      else if 0x41 \<le> c \<and> c \<le> 0x46 then Some (uint (c - 0x41) + 10)
      else None)"

fun parseHex64Loop :: "int \<Rightarrow> byte list \<Rightarrow> int option" where
  "parseHex64Loop n [] = Some n"
| "parseHex64Loop n (c # b) =
     (case hexDigit c of
        None \<Rightarrow> None
      | Some digit \<Rightarrow>
          if n > (MaxInt64 - digit) div 16 then None
          else parseHex64Loop (wrap64 (n * 16 + digit)) b)"

definition parseHex64 :: "byte list \<Rightarrow> int option" where
  "parseHex64 b = (if length b = 0 then None else parseHex64Loop 0 b)"

text \<open>The size field of a size line: what precedes the extensions, trimmed.\<close>

definition sizeField :: "byte list \<Rightarrow> byte list" where
  "sizeField line = trimSpace (case bytes_IndexByte line 0x3B of None \<Rightarrow> line | Some semi \<Rightarrow> take semi line)"

text \<open>\<^verbatim>\<open>PeekChunk\<close> returns (size, hdr); hdr = 0 means the line is not complete.\<close>

definition PeekChunk :: "byte list \<Rightarrow> chunk_error + int \<times> nat" where
  "PeekChunk buf =
     (case bytes_Index buf bCRLF of
        None \<Rightarrow>
          if length buf > MaxChunkLineSize + 1
             \<or> (length buf = MaxChunkLineSize + 1 \<and> buf ! MaxChunkLineSize \<noteq> CR)
          then Inl errChunkLineTooLong
          else Inr (0, 0)
      | Some lineEnd \<Rightarrow>
          if lineEnd > MaxChunkLineSize then Inl errChunkLineTooLong
          else case parseHex64 (sizeField (take lineEnd buf)) of
                 None \<Rightarrow> Inl errInvalidChunkSize
               | Some sz \<Rightarrow> Inr (sz, lineEnd + 2))"

text \<open>
  \<^verbatim>\<open>ParseChunkedBody\<close> returns the chunk (None is Go's nil) and the bytes consumed; 0 consumed means
  that more data is needed. Its two tails, after the size line: the terminating chunk with its
  trailer, and a data chunk.
\<close>

definition parseLastChunk :: "parser \<Rightarrow> nat \<Rightarrow> (chunk_error + byte list option \<times> nat) \<times> parser" where
  "parseLastChunk p startPos =
     (let rest = drop (p_pos p) (p_buf p) in
      if prefix bCRLF rest then (Inr (None, p_pos p + 2 - startPos), p\<lparr>p_pos := p_pos p + 2\<rparr>)
      else case bytes_Index rest bCRLFCRLF of
             None \<Rightarrow> (Inr (None, 0), p\<lparr>p_pos := startPos\<rparr>)
           | Some e \<Rightarrow>
               if e > MaxHeaderSize then (Inl errTrailerTooLarge, p)
               else (Inr (None, p_pos p + e + 4 - startPos), p\<lparr>p_pos := p_pos p + e + 4\<rparr>))"

definition parseDataChunk :: "parser \<Rightarrow> nat \<Rightarrow> int \<Rightarrow> (chunk_error + byte list option \<times> nat) \<times> parser" where
  "parseDataChunk p startPos sz =
     (let needed = wrap64 (int (p_pos p) + sz + 2) in
      if needed < int (p_pos p) \<or> needed > int (length (p_buf p))
      then (Inr (None, 0), p\<lparr>p_pos := startPos\<rparr>)
      else if p_buf p ! (p_pos p + nat sz) \<noteq> CR \<or> p_buf p ! (p_pos p + nat sz + 1) \<noteq> LF
      then (Inl errInvalidChunkTerminator, p)
      else (Inr (Some (take (nat sz) (drop (p_pos p) (p_buf p))), p_pos p + nat sz + 2 - startPos),
            p\<lparr>p_pos := p_pos p + nat sz + 2\<rparr>))"

definition ParseChunkedBody :: "parser \<Rightarrow> (chunk_error + byte list option \<times> nat) \<times> parser" where
  "ParseChunkedBody p =
     (if p_pos p \<ge> length (p_buf p) then (Inr (None, 0), p)
      else
        let startPos = p_pos p in
        case bytes_Index (drop (p_pos p) (p_buf p)) bCRLF of
          None \<Rightarrow> (Inr (None, 0), p)
        | Some lineEnd \<Rightarrow>
            if lineEnd > MaxChunkLineSize then (Inl errChunkLineTooLong, p)
            else
              let sizeLine = take lineEnd (drop (p_pos p) (p_buf p));
                  p1 = p\<lparr>p_pos := p_pos p + lineEnd + 2\<rparr>
              in case parseHex64 (sizeField sizeLine) of
                   None \<Rightarrow> (Inl errInvalidChunkSize, p1)
                 | Some sz \<Rightarrow>
                     if sz = 0 then parseLastChunk p1 startPos else parseDataChunk p1 startPos sz)"

definition peek_outcome :: "byte list \<Rightarrow> (chunk_error, int) outcome" where
  "peek_outcome b =
     (case PeekChunk b of Inl e \<Rightarrow> Fail e | Inr (sz, hdr) \<Rightarrow> if hdr = 0 then More else Done sz hdr)"

definition chunk_outcome :: "byte list \<Rightarrow> (chunk_error, byte list option) outcome" where
  "chunk_outcome b =
     (case fst (ParseChunkedBody (ResetParser NewParser b)) of
        Inl e \<Rightarrow> Fail e
      | Inr (chunk, n) \<Rightarrow> if n = 0 then More else Done chunk n)"

section \<open>The size field\<close>

definition isHex :: "byte \<Rightarrow> bool" where "isHex c \<longleftrightarrow> hexDigit c \<noteq> None"

definition hexVal :: "byte list \<Rightarrow> int" where
  "hexVal b = foldl (\<lambda>n c. n * 16 + the (hexDigit c)) 0 b"

lemma byte_sub: "(k :: byte) \<le> c \<Longrightarrow> uint (c - k) = uint c - uint k"
  by (simp add: uint_sub_if' word_le_def)

lemma hexDigit_range: "hexDigit c = Some d \<Longrightarrow> 0 \<le> d \<and> d < 16"
  by (auto simp: hexDigit_def byte_sub split: if_splits) (auto simp: word_le_def)

lemma foldl_hex_mono:
  assumes "list_all isHex b" "0 \<le> n"
  shows "n \<le> foldl (\<lambda>n c. n * 16 + the (hexDigit c)) n b"
  using assms
proof (induction b arbitrary: n)
  case (Cons c b)
  obtain d where d: "hexDigit c = Some d" using Cons.prems by (auto simp: isHex_def)
  then have "n \<le> n * 16 + d" "0 \<le> n * 16 + d" using hexDigit_range [OF d] Cons.prems by auto
  then show ?case using Cons.IH [of "n * 16 + d"] Cons.prems d by simp
qed simp

lemma parseHex64Loop_iff:
  assumes "0 \<le> n" "n \<le> MaxInt64"
  shows "parseHex64Loop n b = Some v \<longleftrightarrow>
    list_all isHex b \<and> v = foldl (\<lambda>n c. n * 16 + the (hexDigit c)) n b \<and> v \<le> MaxInt64"
  using assms
proof (induction b arbitrary: n)
  case (Cons c b)
  show ?case
  proof (cases "hexDigit c")
    case None
    then show ?thesis by (simp add: isHex_def)
  next
    case (Some d)
    note r = hexDigit_range [OF Some]
    have guard: "n > (MaxInt64 - d) div 16 \<longleftrightarrow> n * 16 + d > MaxInt64" by (rule iffI) linarith+
    have id: "wrap64 (n * 16 + d) = n * 16 + d" if "\<not> n * 16 + d > MaxInt64"
      using that r Cons.prems by (intro wrap64_id) (auto simp: MinInt64_def)
    show ?thesis
    proof (cases "n * 16 + d > MaxInt64")
      case True
      then show ?thesis using Some guard r Cons.prems foldl_hex_mono [of b "n * 16 + d"] by auto
    next
      case False
      then show ?thesis using Some guard r Cons id by (simp add: isHex_def)
    qed
  qed
qed auto

lemma parseHex64_iff:
  "parseHex64 b = Some v \<longleftrightarrow> b \<noteq> [] \<and> list_all isHex b \<and> v = hexVal b \<and> v \<le> MaxInt64"
  using parseHex64Loop_iff [of 0 b v] by (simp add: parseHex64_def hexVal_def MaxInt64_def)

lemma parseHex64_nonneg: "parseHex64 b = Some v \<Longrightarrow> 0 \<le> v"
  using foldl_hex_mono [of b 0] by (simp add: parseHex64_iff hexVal_def)

section \<open>One chunk\<close>

text \<open>The parser on a fresh buffer, as a function of the bytes alone.\<close>

definition chunkAt :: "nat \<Rightarrow> int \<Rightarrow> byte list \<Rightarrow> (chunk_error, byte list option) outcome" where
  "chunkAt h sz b =
     (if sz = 0 then
        (if prefix bCRLF (drop h b) then Done None (h + 2)
         else case bytes_Index (drop h b) bCRLFCRLF of
                None \<Rightarrow> More
              | Some e \<Rightarrow> if e > MaxHeaderSize then Fail errTrailerTooLarge else Done None (h + e + 4))
      else if int h + sz + 2 > MaxInt64 \<or> int h + sz + 2 > int (length b) then More
      else if b ! (h + nat sz) \<noteq> CR \<or> b ! (h + nat sz + 1) \<noteq> LF then Fail errInvalidChunkTerminator
      else Done (Some (take (nat sz) (drop h b))) (h + nat sz + 2))"

lemma needed_wrap:
  assumes "0 \<le> sz" "sz \<le> MaxInt64" "h \<le> MaxChunkLineSize + 2"
  shows "wrap64 (int h + sz + 2) < int h \<or> wrap64 (int h + sz + 2) > int (length b) \<longleftrightarrow>
    int h + sz + 2 > MaxInt64 \<or> int h + sz + 2 > int (length b)"
proof (cases "int h + sz + 2 > MaxInt64")
  case True
  have "int h + sz + 2 + 2 ^ 63 - 2 ^ 64 \<ge> 0" "int h + sz + 2 + 2 ^ 63 - 2 ^ 64 < 2 ^ 64"
    using True assms by (auto simp: MaxInt64_def MaxChunkLineSize_def)
  then have "(int h + sz + 2 + 2 ^ 63 - 2 ^ 64) mod 2 ^ 64 = int h + sz + 2 + 2 ^ 63 - 2 ^ 64"
    by (rule mod_pos_pos_trivial)
  then have "(int h + sz + 2 + 2 ^ 63) mod 2 ^ 64 = int h + sz + 2 + 2 ^ 63 - 2 ^ 64"
    by (simp only: minus_mod_self2)
  then have "wrap64 (int h + sz + 2) = int h + sz + 2 - 2 ^ 64" by (simp only: wrap64_def)
  then have "wrap64 (int h + sz + 2) < int h" using assms by (simp add: MaxInt64_def)
  then show ?thesis using True by simp
next
  case False
  then have "wrap64 (int h + sz + 2) = int h + sz + 2"
    using assms by (intro wrap64_id) (auto simp: MinInt64_def)
  then show ?thesis using False assms by simp
qed

lemma parseDataChunk_at:
  assumes "p_buf p = b" "p_pos p = h" "0 \<le> sz" "sz \<le> MaxInt64" "h \<le> MaxChunkLineSize + 2" "sz \<noteq> 0"
  shows "(case fst (parseDataChunk p 0 sz) of
            Inl e \<Rightarrow> Fail e
          | Inr (chunk, n) \<Rightarrow> if n = 0 then More else Done chunk n) = chunkAt h sz b"
  unfolding parseDataChunk_def Let_def assms(1,2) needed_wrap [OF assms(3,4,5)] chunkAt_def
  using assms(6) by simp

lemma parseLastChunk_at:
  assumes "p_buf p = b" "p_pos p = h"
  shows "(case fst (parseLastChunk p 0) of
            Inl e \<Rightarrow> Fail e
          | Inr (chunk, n) \<Rightarrow> if n = 0 then More else Done chunk n) = chunkAt h 0 b"
  unfolding parseLastChunk_def Let_def assms chunkAt_def by (simp split: option.split)

lemma chunk_outcome_eq:
  "chunk_outcome b =
     (case bytes_Index b bCRLF of
        None \<Rightarrow> More
      | Some le \<Rightarrow>
          if le > MaxChunkLineSize then Fail errChunkLineTooLong
          else (case parseHex64 (sizeField (take le b)) of
                  None \<Rightarrow> Fail errInvalidChunkSize
                | Some sz \<Rightarrow> chunkAt (le + 2) sz b))"
proof (cases "bytes_Index b bCRLF")
  case None
  then show ?thesis by (simp add: chunk_outcome_def ParseChunkedBody_def ResetParser_def)
next
  case (Some le)
  have b: "b \<noteq> []" using bytes_Index_bound [OF Some] by auto
  let ?p = "ResetParser NewParser b"
  have p: "p_buf ?p = b" "p_pos ?p = 0" by (simp_all add: ResetParser_def)
  have step: "ParseChunkedBody ?p = (if le > MaxChunkLineSize then (Inl errChunkLineTooLong, ?p)
      else case parseHex64 (sizeField (take le b)) of
             None \<Rightarrow> (Inl errInvalidChunkSize, ?p\<lparr>p_pos := le + 2\<rparr>)
           | Some sz \<Rightarrow> if sz = 0 then parseLastChunk (?p\<lparr>p_pos := le + 2\<rparr>) 0
                        else parseDataChunk (?p\<lparr>p_pos := le + 2\<rparr>) 0 sz)"
    using Some b p by (simp add: ParseChunkedBody_def Let_def del: add_2_eq_Suc')
  show ?thesis
  proof (cases "parseHex64 (sizeField (take le b))")
    case None
    then show ?thesis using Some step by (simp add: chunk_outcome_def)
  next
    case sz: (Some sz)
    have nn: "0 \<le> sz" "sz \<le> MaxInt64" using parseHex64_nonneg [OF sz] sz by (auto simp: parseHex64_iff)
    show ?thesis
      using Some sz step p nn parseDataChunk_at [of "?p\<lparr>p_pos := le + 2\<rparr>" b "le + 2" sz]
        parseLastChunk_at [of "?p\<lparr>p_pos := le + 2\<rparr>" b "le + 2"]
      by (simp add: chunk_outcome_def del: add_2_eq_Suc')
  qed
qed

section \<open>Stability\<close>

lemma chunkAt_append:
  assumes "h \<le> length b" "0 \<le> sz" "chunkAt h sz b \<noteq> More"
  shows "chunkAt h sz (b @ c) = chunkAt h sz b"
proof (cases "sz = 0")
  case True
  show ?thesis
  proof (cases "prefix bCRLF (drop h b)")
    case pre: True
    then have "prefix bCRLF (drop h b @ c)" by (rule prefix_prefix)
    then show ?thesis using True pre assms(1) by (simp add: chunkAt_def)
  next
    case False
    then obtain e where e: "bytes_Index (drop h b) bCRLFCRLF = Some e"
      using assms(3) True by (auto simp: chunkAt_def split: option.splits)
    have "4 \<le> length (drop h b)" using bytes_Index_bound [OF e] by simp
    then have "\<not> prefix bCRLF (drop h b @ c)"
      using False prefix_length_prefix [of bCRLF "drop h b @ c" "drop h b"] by auto
    then show ?thesis
      using True False e bytes_Index_append [OF e, of c] assms(1) by (simp add: chunkAt_def)
  qed
next
  case False
  then have "\<not> (int h + sz + 2 > MaxInt64 \<or> int h + sz + 2 > int (length b))"
    using assms(3) by (auto simp: chunkAt_def)
  moreover from this have "h + nat sz + 1 < length b" using assms(2) by auto
  ultimately show ?thesis using False by (auto simp: chunkAt_def nth_append)
qed

lemma chunkAt_bound:
  assumes "h \<le> length b" "0 \<le> sz" "chunkAt h sz b = Done a n"
  shows "n \<le> length b \<and> h < n"
proof (cases "sz = 0")
  case True
  show ?thesis
  proof (cases "prefix bCRLF (drop h b)")
    case pre: True
    then have "2 \<le> length (drop h b)" using prefix_length_le by fastforce
    then show ?thesis using True pre assms by (auto simp: chunkAt_def)
  next
    case False
    then obtain e where e: "bytes_Index (drop h b) bCRLFCRLF = Some e" "n = h + e + 4"
      using assms(3) True by (auto simp: chunkAt_def split: option.splits if_splits)
    then show ?thesis using bytes_Index_bound [OF e(1)] by auto
  qed
next
  case False
  then show ?thesis using assms by (auto simp: chunkAt_def split: if_splits)
qed

text \<open>The size line of a chunk that is not "incomplete" or refused for its size line.\<close>

lemma chunk_outcome_line:
  assumes "bytes_Index b bCRLF = Some le" "le \<le> MaxChunkLineSize"
    "parseHex64 (sizeField (take le b)) = Some sz"
  shows "chunk_outcome (b @ c) = chunkAt (le + 2) sz (b @ c)" "le + 2 \<le> length b" "0 \<le> sz"
proof -
  show l: "le + 2 \<le> length b" using bytes_Index_bound [OF assms(1)] by simp
  show "chunk_outcome (b @ c) = chunkAt (le + 2) sz (b @ c)"
    unfolding chunk_outcome_eq bytes_Index_append [OF assms(1)] option.case
    using assms(2,3) l by simp
  show "0 \<le> sz" by (rule parseHex64_nonneg [OF assms(3)])
qed

lemma chunk_outcome_cases:
  obtains (more) "bytes_Index b bCRLF = None" "chunk_outcome b = More"
  | (bad) e where "\<And>c. chunk_outcome (b @ c) = Fail e"
  | (line) le sz where "bytes_Index b bCRLF = Some le" "le \<le> MaxChunkLineSize"
      "parseHex64 (sizeField (take le b)) = Some sz"
proof (cases "bytes_Index b bCRLF")
  case None
  then show ?thesis by (intro more) (auto simp: chunk_outcome_eq)
next
  case (Some le)
  have l: "le + 2 \<le> length b" using bytes_Index_bound [OF Some] by simp
  show ?thesis
  proof (cases "le > MaxChunkLineSize")
    case True
    then show ?thesis
      using bytes_Index_append [OF Some] by (intro bad [of errChunkLineTooLong]) (simp add: chunk_outcome_eq)
  next
    case le: False
    show ?thesis
    proof (cases "parseHex64 (sizeField (take le b))")
      case None
      then show ?thesis
        using bytes_Index_append [OF Some] le l by (intro bad [of errInvalidChunkSize]) (simp add: chunk_outcome_eq)
    next
      case sz: (Some sz)
      then show ?thesis using Some le by (intro line) auto
    qed
  qed
qed

lemma chunk_outcome_append:
  assumes "chunk_outcome b \<noteq> More"
  shows "chunk_outcome (b @ c) = chunk_outcome b"
proof (cases b rule: chunk_outcome_cases)
  case more
  then show ?thesis using assms by simp
next
  case (bad e)
  then show ?thesis using bad [of "[]"] by simp
next
  case (line le sz)
  note l = chunk_outcome_line [OF line]
  show ?thesis using l(1) [of c] l(1) [of "[]"] assms chunkAt_append [OF l(2,3), of c] by simp
qed

interpretation h1chunk: strict_parser chunk_outcome
proof unfold_locales
  fix b a n
  assume d: "chunk_outcome b = Done a n"
  show "n \<le> length b"
  proof (cases b rule: chunk_outcome_cases)
    case (line le sz)
    note l = chunk_outcome_line [OF line]
    have "chunkAt (le + 2) sz b = Done a n" using l(1) [of "[]"] d by simp
    then show ?thesis using chunkAt_bound [OF l(2,3)] by blast
  next
    case (bad e)
    then show ?thesis using bad [of "[]"] d by simp
  qed (use d in simp)
qed (simp_all add: chunk_outcome_append)

section \<open>The size line ahead of its data\<close>

lemma PeekChunk_line:
  "PeekChunk b =
     (case bytes_Index b bCRLF of
        None \<Rightarrow> if length b > MaxChunkLineSize + 1 \<or> (length b = MaxChunkLineSize + 1 \<and> b ! MaxChunkLineSize \<noteq> CR)
                then Inl errChunkLineTooLong else Inr (0, 0)
      | Some le \<Rightarrow>
          if le > MaxChunkLineSize then Inl errChunkLineTooLong
          else (case parseHex64 (sizeField (take le b)) of
                  None \<Rightarrow> Inl errInvalidChunkSize
                | Some sz \<Rightarrow> Inr (sz, le + 2)))"
  by (simp add: PeekChunk_def)

lemma Index_Some_CR: "bytes_Index b bCRLF = Some i \<Longrightarrow> i + 1 < length b \<and> b ! i = CR"
proof -
  assume i: "bytes_Index b bCRLF = Some i"
  have l: "i + 2 \<le> length b" using bytes_Index_bound [OF i] by simp
  have "b ! i = (take i b @ bCRLF @ drop (i + length bCRLF) b) ! i"
    using arg_cong [OF bytes_Index_Some [OF i], of "\<lambda>x. x ! i"] .
  then show ?thesis using l by (simp add: nth_append)
qed

text \<open>A size line too long before its CRLF is too long with it.\<close>

lemma PeekChunk_too_long:
  assumes none: "bytes_Index b bCRLF = None"
    and long: "length b > MaxChunkLineSize + 1 \<or> (length b = MaxChunkLineSize + 1 \<and> b ! MaxChunkLineSize \<noteq> CR)"
  shows "PeekChunk (b @ c) = Inl errChunkLineTooLong"
proof (cases "bytes_Index (b @ c) bCRLF")
  case None
  have "length (b @ c) > MaxChunkLineSize + 1
      \<or> (length (b @ c) = MaxChunkLineSize + 1 \<and> (b @ c) ! MaxChunkLineSize \<noteq> CR)"
    using long by (auto simp: nth_append)
  then show ?thesis using None by (simp only: PeekChunk_line option.case if_True)
next
  case (Some le)
  have "\<not> le + 2 \<le> length b" using bytes_Index_shrink [OF Some] none by auto
  then have "le \<ge> MaxChunkLineSize" using long by auto
  moreover have "le \<noteq> MaxChunkLineSize"
    using long Index_Some_CR [OF Some] \<open>\<not> le + 2 \<le> length b\<close> by (auto simp: nth_append)
  ultimately show ?thesis using Some by (simp add: PeekChunk_line)
qed

lemma PeekChunk_append:
  assumes "bytes_Index b bCRLF = Some le"
  shows "PeekChunk (b @ c) = PeekChunk b"
proof -
  have "take le (b @ c) = take le b" using bytes_Index_bound [OF assms] by simp
  then show ?thesis unfolding PeekChunk_line bytes_Index_append [OF assms] assms option.case by (simp only:)
qed

interpretation h1peek: strict_parser peek_outcome
proof unfold_locales
  fix b a n
  assume "peek_outcome b = Done a n"
  then show "n \<le> length b"
    using bytes_Index_bound [of b bCRLF]
    by (auto simp: peek_outcome_def PeekChunk_line split: option.splits if_splits sum.splits prod.splits)
next
  fix b c a n
  assume d: "peek_outcome b = Done a n"
  then obtain le where le: "bytes_Index b bCRLF = Some le"
    by (auto simp: peek_outcome_def PeekChunk_line split: option.splits if_splits sum.splits prod.splits)
  then show "peek_outcome (b @ c) = Done a n"
    using d PeekChunk_append [OF le, of c] by (simp add: peek_outcome_def)
next
  fix b c e
  assume f: "peek_outcome b = Fail e"
  show "peek_outcome (b @ c) = Fail e"
  proof (cases "bytes_Index b bCRLF")
    case None
    then have "length b > MaxChunkLineSize + 1 \<or> (length b = MaxChunkLineSize + 1 \<and> b ! MaxChunkLineSize \<noteq> CR)"
      "e = errChunkLineTooLong"
      using f by (auto simp: peek_outcome_def PeekChunk_line split: if_splits)
    then show ?thesis using PeekChunk_too_long [OF None, of c] by (simp add: peek_outcome_def)
  next
    case (Some le)
    then show ?thesis using f PeekChunk_append [OF Some, of c] by (simp add: peek_outcome_def)
  qed
qed

section \<open>Writing chunks\<close>

text \<open>\<^verbatim>\<open>strconv.AppendInt(dst, n, 16)\<close> for a length.\<close>

definition hexChar :: "nat \<Rightarrow> byte" where
  "hexChar d = (if d < 10 then 0x30 + word_of_nat d else 0x57 + word_of_nat d)"

fun hexEncode :: "nat \<Rightarrow> byte list" where
  "hexEncode n = (if n < 16 then [hexChar n] else hexEncode (n div 16) @ [hexChar (n mod 16)])"

declare hexEncode.simps [simp del]

definition maxChunkData :: nat where "maxChunkData = 2 ^ 30"

definition frameChunk :: "byte list \<Rightarrow> byte list" where
  "frameChunk data = hexEncode (length data) @ [CR, LF] @ data @ [CR, LF]"

definition lastChunk :: "byte list" where
  "lastChunk = [0x30, CR, LF, CR, LF]"

text \<open>
  The streaming side of \<^verbatim>\<open>h1ResponseAdapter\<close>. \<open>w_out\<close> is what the write hook received; the engine's
  query \<^verbatim>\<open>StreamWriteErr\<close> is a parameter, asked with the bytes written so far and the bytes about to be.
\<close>

record 'err h1adapter =
  isHEAD :: bool
  streamBegun :: bool
  streamNoBody :: bool
  streamOpen :: bool
  werr :: "'err option"
  streamWritten :: nat
  w_out :: "byte list"

definition headResponse :: "'err h1adapter \<Rightarrow> bool" where
  "headResponse a = (if streamBegun a then streamNoBody a else isHEAD a)"

definition askWriteErr ::
  "(byte list \<Rightarrow> nat \<Rightarrow> 'err option) \<Rightarrow> 'err h1adapter \<Rightarrow> nat \<Rightarrow> 'err option \<times> 'err h1adapter" where
  "askWriteErr q a n =
     (case q (w_out a) n of Some e \<Rightarrow> (Some e, a\<lparr>werr := Some e\<rparr>) | None \<Rightarrow> (None, a))"

definition writeChunk ::
  "(byte list \<Rightarrow> nat \<Rightarrow> 'err option) \<Rightarrow> 'err h1adapter \<Rightarrow> byte list \<Rightarrow> 'err option \<times> 'err h1adapter" where
  "writeChunk q a data =
     (case askWriteErr q a (length (frameChunk data)) of
        (Some e, a') \<Rightarrow> (Some e, a')
      | (None, a') \<Rightarrow>
          askWriteErr q (a'\<lparr>w_out := w_out a' @ frameChunk data,
                           streamWritten := streamWritten a' + length data\<rparr>) 0)"

definition guardedWrite ::
  "('err h1adapter \<Rightarrow> byte list \<Rightarrow> 'err option \<times> 'err h1adapter) \<Rightarrow> 'err h1adapter \<Rightarrow> byte list
     \<Rightarrow> 'err option \<times> 'err h1adapter" where
  "guardedWrite body a data =
     (if headResponse a \<or> (streamBegun a \<and> \<not> streamOpen a) then (None, a)
      else case werr a of
             Some e \<Rightarrow> (Some e, a)
           | None \<Rightarrow> if length data = 0 then (None, a) else body a data)"

function writeLoop ::
  "(byte list \<Rightarrow> nat \<Rightarrow> 'err option) \<Rightarrow> 'err h1adapter \<Rightarrow> byte list \<Rightarrow> 'err option \<times> 'err h1adapter" where
  "writeLoop q a data =
     (if length data > maxChunkData then
        (case guardedWrite (writeChunk q) a (take maxChunkData data) of
           (Some e, a') \<Rightarrow> (Some e, a')
         | (None, a') \<Rightarrow> writeLoop q a' (drop maxChunkData data))
      else writeChunk q a data)"
  by pat_completeness auto
termination
  by (relation "measure (\<lambda>(q, a, data). length data)") (auto simp: maxChunkData_def)

declare writeLoop.simps [simp del]

definition h1Write ::
  "(byte list \<Rightarrow> nat \<Rightarrow> 'err option) \<Rightarrow> 'err h1adapter \<Rightarrow> byte list \<Rightarrow> 'err option \<times> 'err h1adapter" where
  "h1Write q = guardedWrite (writeLoop q)"

definition h1Close ::
  "(byte list \<Rightarrow> nat \<Rightarrow> 'err option) \<Rightarrow> 'err h1adapter \<Rightarrow> 'err option \<times> 'err h1adapter" where
  "h1Close q a =
     (if headResponse a \<or> (streamBegun a \<and> \<not> streamOpen a) then (None, a)
      else
        let a1 = a\<lparr>streamOpen := False\<rparr> in
        case werr a1 of
          Some e \<Rightarrow> (Some e, a1)
        | None \<Rightarrow>
            (case askWriteErr q a1 (length lastChunk) of
               (Some e, a2) \<Rightarrow> (Some e, a2)
             | (None, a2) \<Rightarrow> askWriteErr q (a2\<lparr>w_out := w_out a2 @ lastChunk\<rparr>) 0))"

subsection \<open>What is written is read back\<close>

lemma hexChar_digit:
  assumes "d < 16"
  shows "hexDigit (hexChar d) = Some (int d)"
proof -
  have "d \<in> set [0..<16]" using assms by simp
  moreover have "list_all (\<lambda>d. hexDigit (hexChar d) = Some (int d)) [0..<16]" by code_simp
  ultimately show ?thesis by (simp only: list_all_iff)
qed

lemma hexEncode_nonempty: "hexEncode n \<noteq> []"
  by (subst hexEncode.simps) simp

lemma hexEncode_hex: "list_all isHex (hexEncode n)"
proof (induction n rule: hexEncode.induct)
  case (1 n)
  have "isHex (hexChar d)" if "d < 16" for d using that by (simp add: isHex_def hexChar_digit)
  then show ?case using 1 by (subst hexEncode.simps) auto
qed

lemma hexEncode_val: "hexVal (hexEncode n) = int n"
proof (induction n rule: hexEncode.induct)
  case (1 n)
  then show ?case
    by (subst hexEncode.simps) (auto simp: hexVal_def hexChar_digit zdiv_int zmod_int)
qed

lemma hexEncode_length: "n < 16 ^ k \<Longrightarrow> 0 < k \<Longrightarrow> length (hexEncode n) \<le> k"
proof (induction k arbitrary: n)
  case (Suc k)
  show ?case
  proof (cases "n < 16")
    case True
    then show ?thesis by (subst hexEncode.simps) simp
  next
    case False
    then have "0 < k" "n div 16 < 16 ^ k"
      using Suc.prems by (cases k; auto simp: div_less_iff_less_mult mult.commute)+
    then have "length (hexEncode (n div 16)) \<le> k" using Suc.IH by blast
    then show ?thesis using False by (subst hexEncode.simps) simp
  qed
qed simp

lemma isHex_plain: "isHex c \<Longrightarrow> c \<noteq> CR \<and> c \<noteq> 0x3B \<and> \<not> isOWS c"
  by (auto simp: isHex_def hexDigit_def isOWS_def)

lemma sizeField_hex:
  assumes "list_all isHex b"
  shows "sizeField b = b"
proof -
  have "0x3B \<notin> set b" using assms isHex_plain by (auto simp: list_all_iff)
  then have "bytes_IndexByte b 0x3B = None" by (simp add: bytes_IndexByte_None)
  moreover have "trimSpace b = b"
    using assms isHex_plain by (intro trimSpace_fix) (auto simp: list_all_iff)
  ultimately show ?thesis by (simp add: sizeField_def)
qed

lemma frameChunk_read:
  assumes "data \<noteq> []" "length data \<le> maxChunkData"
  shows "chunk_outcome (frameChunk data @ c) = Done (Some data) (length (frameChunk data))"
proof -
  let ?h = "hexEncode (length data)"
  have hex: "list_all isHex ?h" by (rule hexEncode_hex)
  have cr: "CR \<notin> set ?h" using hex isHex_plain by (auto simp: list_all_iff)
  have ix: "bytes_Index (frameChunk data @ c) bCRLF = Some (length ?h)"
    using bytes_Index_CRLF_first [OF cr] by (simp add: frameChunk_def)
  have "length ?h \<le> 8" using assms(2) by (intro hexEncode_length) (simp_all add: maxChunkData_def)
  then have le: "length ?h \<le> MaxChunkLineSize" by (simp add: MaxChunkLineSize_def)
  have "parseHex64 ?h = Some (int (length data))"
    using hex hexEncode_nonempty assms(2)
    by (simp add: parseHex64_iff hexEncode_val MaxInt64_def maxChunkData_def)
  then have sz: "parseHex64 (sizeField (take (length ?h) (frameChunk data @ c))) = Some (int (length data))"
    by (simp add: frameChunk_def sizeField_hex [OF hex])
  have "chunk_outcome (frameChunk data @ c) = chunkAt (length ?h + 2) (int (length data)) (frameChunk data @ c)"
    using ix le sz by (simp add: chunk_outcome_eq)
  also have "\<dots> = Done (Some data) (length (frameChunk data))"
    using assms \<open>length ?h \<le> 8\<close>
    by (simp add: chunkAt_def frameChunk_def nth_append MaxInt64_def maxChunkData_def)
  finally show ?thesis .
qed

lemma lastChunk_read: "chunk_outcome (lastChunk @ c) = Done None (length lastChunk)"
proof -
  have "hexDigit 0x30 = Some 0" by (simp add: hexDigit_def)
  then have "parseHex64 (sizeField [0x30]) = Some 0"
    using sizeField_hex [of "[0x30]"] by (simp add: isHex_def parseHex64_def MaxInt64_def wrap64_def)
  then show ?thesis
    by (simp add: chunk_outcome_eq lastChunk_def MaxChunkLineSize_def chunkAt_def)
qed

definition chunkEnc :: "byte list option \<Rightarrow> byte list" where
  "chunkEnc c = (case c of Some d \<Rightarrow> frameChunk d | None \<Rightarrow> lastChunk)"

definition chunkWf :: "byte list option \<Rightarrow> bool" where
  "chunkWf c = (case c of Some d \<Rightarrow> d \<noteq> [] \<and> length d \<le> maxChunkData | None \<Rightarrow> True)"

interpretation h1chunks: framing chunk_outcome chunkEnc chunkWf id
proof unfold_locales
  show "chunkWf x \<Longrightarrow> chunk_outcome (chunkEnc x @ c) = Done (id x) (length (chunkEnc x))" for x c
    using frameChunk_read lastChunk_read by (auto simp: chunkWf_def chunkEnc_def split: option.splits)
  show "chunkWf x \<Longrightarrow> chunkEnc x \<noteq> []" for x
    by (auto simp: chunkEnc_def frameChunk_def lastChunk_def split: option.splits)
qed

text \<open>A response that is being streamed, with \<open>cs\<close> the chunks on the wire so far.\<close>

definition streaming :: "'err h1adapter \<Rightarrow> bool" where
  "streaming a \<longleftrightarrow> streamBegun a \<and> streamOpen a \<and> \<not> streamNoBody a"

definition wholeChunks :: "byte list list \<Rightarrow> bool" where
  "wholeChunks cs \<longleftrightarrow> list_all (\<lambda>c. c \<noteq> [] \<and> length c \<le> maxChunkData) cs"

definition wrote :: "'err h1adapter \<Rightarrow> byte list \<Rightarrow> 'err option \<times> 'err h1adapter \<Rightarrow> bool" where
  "wrote a d r \<longleftrightarrow> (\<exists>cs. wholeChunks cs \<and> w_out (snd r) = w_out a @ concat (map frameChunk cs)
     \<and> prefix (concat cs) d \<and> (werr (snd r) = None \<longrightarrow> concat cs = d)
     \<and> streaming (snd r) \<and> fst r = werr (snd r))"

lemma wrote_nothing: "streaming a \<Longrightarrow> werr a = Some e \<Longrightarrow> wrote a d (Some e, a)"
  unfolding wrote_def wholeChunks_def by (intro exI [of _ "[]"]) simp

lemma wrote_empty: "streaming a \<Longrightarrow> werr a = None \<Longrightarrow> wrote a [] (None, a)"
  unfolding wrote_def wholeChunks_def by (intro exI [of _ "[]"]) simp

lemma wrote_then:
  assumes "wrote a d1 (e1, a1)" "wrote a1 d2 r" "e1 = None"
  shows "wrote a (d1 @ d2) r"
proof -
  obtain cs1 where 1: "wholeChunks cs1" "w_out a1 = w_out a @ concat (map frameChunk cs1)" "concat cs1 = d1"
    using assms(1,3) by (auto simp: wrote_def)
  obtain cs2 where 2: "wholeChunks cs2" "w_out (snd r) = w_out a1 @ concat (map frameChunk cs2)"
      "prefix (concat cs2) d2" "werr (snd r) = None \<longrightarrow> concat cs2 = d2" "streaming (snd r)" "fst r = werr (snd r)"
    using assms(2) by (auto simp: wrote_def)
  show ?thesis
    unfolding wrote_def by (rule exI [of _ "cs1 @ cs2"]) (use 1 2 in \<open>auto simp: wholeChunks_def\<close>)
qed

lemma wrote_stop:
  assumes "wrote a d1 (e1, a1)" "e1 = Some e"
  shows "wrote a (d1 @ d2) (Some e, a1)"
  using assms unfolding wrote_def by (auto intro!: prefix_prefix)

lemma writeChunk_wrote:
  assumes "streaming a" "werr a = None" "d \<noteq> []" "length d \<le> maxChunkData"
  shows "wrote a d (writeChunk q a d)"
proof (cases "q (w_out a) (length (frameChunk d))")
  case (Some e)
  then show ?thesis
    using assms unfolding wrote_def writeChunk_def askWriteErr_def wholeChunks_def
    by (intro exI [of _ "[]"]) (simp add: streaming_def)
next
  case None
  then show ?thesis
    using assms unfolding wrote_def writeChunk_def askWriteErr_def wholeChunks_def
    by (intro exI [of _ "[d]"]) (simp add: streaming_def split: option.split)
qed

lemma guardedWrite_wrote:
  assumes "streaming a" "werr a = None \<Longrightarrow> d \<noteq> [] \<Longrightarrow> wrote a d (f a d)"
  shows "wrote a d (guardedWrite f a d)"
proof -
  have open_: "\<not> (headResponse a \<or> (streamBegun a \<and> \<not> streamOpen a))"
    using assms(1) by (simp add: streaming_def headResponse_def)
  show ?thesis
  proof (cases "werr a")
    case None
    then show ?thesis using open_ assms wrote_empty [of a] by (auto simp: guardedWrite_def)
  next
    case (Some e)
    then show ?thesis using open_ assms(1) wrote_nothing [of a e d] by (auto simp: guardedWrite_def)
  qed
qed

lemma writeLoop_wrote:
  assumes "streaming a" "werr a = None" "d \<noteq> []"
  shows "wrote a d (writeLoop q a d)"
  using assms
proof (induction q a d rule: writeLoop.induct)
  case (1 q a d)
  show ?case
  proof (cases "length d > maxChunkData")
    case True
    let ?t = "take maxChunkData d" and ?r = "drop maxChunkData d"
    have nz: "0 < maxChunkData" by (simp add: maxChunkData_def)
    obtain e a1 where g: "guardedWrite (writeChunk q) a ?t = (e, a1)" by fastforce
    have w: "wrote a ?t (e, a1)"
      unfolding g [symmetric] using 1(2-) True
      by (intro guardedWrite_wrote writeChunk_wrote) auto
    show ?thesis
    proof (cases e)
      case None
      then have "streaming a1" "werr a1 = None" using w by (auto simp: wrote_def)
      then have "wrote a1 ?r (writeLoop q a1 ?r)"
        using 1(1) [OF True g [symmetric] None] True nz by (cases "?r = []") auto
      then have "wrote a (?t @ ?r) (writeLoop q a1 ?r)" by (rule wrote_then [OF w]) (rule None)
      then show ?thesis using True g None by (subst writeLoop.simps) simp
    next
      case (Some x)
      have "wrote a (?t @ ?r) (Some x, a1)" by (rule wrote_stop [OF w Some])
      then show ?thesis using True g Some by (subst writeLoop.simps) simp
    qed
  next
    case False
    then show ?thesis using 1(2-) writeChunk_wrote [of a d q] by (subst writeLoop.simps) simp
  qed
qed

text \<open>A handler's writes, one after the other; each one's error is its own to look at.\<close>

definition writes ::
  "(byte list \<Rightarrow> nat \<Rightarrow> 'err option) \<Rightarrow> 'err h1adapter \<Rightarrow> byte list list \<Rightarrow> 'err h1adapter" where
  "writes q a ds = foldl (\<lambda>a d. snd (h1Write q a d)) a ds"

lemma writes_wrote:
  assumes "streaming a" "werr a = None"
  shows "wrote a (concat ds) (werr (writes q a ds), writes q a ds)"
proof (induction ds rule: rev_induct)
  case Nil
  then show ?case using assms wrote_empty [of a] by (simp add: writes_def)
next
  case (snoc d ds)
  let ?a = "writes q a ds"
  have st: "streaming ?a" using snoc by (auto simp: wrote_def)
  have step: "writes q a (ds @ [d]) = snd (h1Write q ?a d)" by (simp add: writes_def)
  have w: "wrote ?a d (h1Write q ?a d)"
    unfolding h1Write_def by (intro guardedWrite_wrote writeLoop_wrote st)
  then have eq: "h1Write q ?a d = (werr (snd (h1Write q ?a d)), snd (h1Write q ?a d))"
    by (auto simp: wrote_def prod_eq_iff)
  show ?case
  proof (cases "werr ?a")
    case None
    have "wrote a (concat ds @ d) (h1Write q ?a d)" by (rule wrote_then [OF snoc w None])
    then show ?thesis using eq step by simp
  next
    case (Some e)
    have "h1Write q ?a d = (Some e, ?a)"
      using st Some by (simp add: h1Write_def guardedWrite_def streaming_def headResponse_def)
    then show ?thesis using step Some wrote_stop [OF snoc Some, of d] by simp
  qed
qed

lemma drain_Nil: "drain chunk_outcome [] = ([], None, [])"
  by (subst drain.simps) (simp add: chunk_outcome_eq)

lemma drain_frames:
  assumes "wholeChunks cs"
  shows "drain chunk_outcome (concat (map frameChunk cs)) = (map Some cs, None, [])"
    "drain chunk_outcome (concat (map frameChunk cs) @ lastChunk) = (map Some cs @ [None], None, [])"
proof -
  have frames: "concat (map frameChunk cs) = concat (map chunkEnc (map Some cs))"
    by (simp add: comp_def chunkEnc_def)
  have wf: "x \<in> set (map Some cs) \<Longrightarrow> chunkWf x" for x
    using assms by (auto simp: chunkWf_def wholeChunks_def list_all_iff)
  show "drain chunk_outcome (concat (map frameChunk cs)) = (map Some cs, None, [])"
    using h1chunks.drain_written [of "map Some cs" "[]", OF wf] drain_Nil frames by simp
  have "\<And>x. x \<in> set (map Some cs @ [None]) \<Longrightarrow> chunkWf x" using wf by (auto simp: chunkWf_def)
  from h1chunks.drain_written [of "map Some cs @ [None]" "[]", OF this]
  show "drain chunk_outcome (concat (map frameChunk cs) @ lastChunk) = (map Some cs @ [None], None, [])"
    using drain_Nil frames by (simp add: chunkEnc_def)
qed

text \<open>
  C13. A streamed response can be cut, never garbled. Whatever the engine's write query answers, the
  bytes a streamed response puts on the wire decode, chunk by chunk and with nothing left over, to a
  prefix of what the handler wrote; the terminating chunk is among them only if the whole of it was
  sent, and it is whenever \<^verbatim>\<open>Close\<close> reports success.
\<close>

theorem chunked_write_read:
  assumes "streaming a" "werr a = None" "w_out a = []"
  shows "\<exists>cs. case h1Close q (writes q a ds) of (e, a') \<Rightarrow>
      (drain chunk_outcome (w_out a') = (map Some cs, None, []) \<and> prefix (concat cs) (concat ds) \<and> e \<noteq> None)
    \<or> (drain chunk_outcome (w_out a') = (map Some cs @ [None], None, []) \<and> concat cs = concat ds)"
proof -
  let ?a = "writes q a ds"
  obtain cs where cs: "wholeChunks cs" "w_out ?a = concat (map frameChunk cs)" "prefix (concat cs) (concat ds)"
      "werr ?a = None \<longrightarrow> concat cs = concat ds" "streaming ?a"
    using writes_wrote [OF assms(1,2), of ds q] assms(3) by (auto simp: wrote_def)
  note d = drain_frames [OF cs(1)]
  show ?thesis
    by (rule exI [of _ cs])
      (use cs d in \<open>auto simp: h1Close_def streaming_def headResponse_def askWriteErr_def Let_def
         split: option.splits\<close>)
qed

theorem chunked_write_read_witness:
  "\<exists>cs. case h1Close (\<lambda>_ _. None) (writes (\<lambda>_ _. None :: nat option)
        \<lparr>isHEAD = False, streamBegun = True, streamNoBody = False, streamOpen = True, werr = None,
         streamWritten = 0, w_out = []\<rparr> [str ''hi'', [], str ''there'']) of (e, a') \<Rightarrow>
      (drain chunk_outcome (w_out a') = (map Some cs, None, [])
         \<and> prefix (concat cs) (concat [str ''hi'', [], str ''there'']) \<and> e \<noteq> None)
    \<or> (drain chunk_outcome (w_out a') = (map Some cs @ [None], None, [])
         \<and> concat cs = concat [str ''hi'', [], str ''there''])"
  by (rule chunked_write_read) (simp_all add: streaming_def)

end
