(* ===== verification/H1_Body.thy ===== *)
theory H1_Body
  imports H1_Chunked
begin

text \<open>
  The chunked request body as the connection receives it: \<^verbatim>\<open>scanChunked\<close>, \<^verbatim>\<open>appendChunk\<close>,
  \<^verbatim>\<open>checkPartialChunk\<close> and \<^verbatim>\<open>abortChunked\<close> of \<^verbatim>\<open>internal/conn/h1.go\<close>. Capacities of slices are not
  modelled (\<^verbatim>\<open>reserveBuffer\<close> and the growth of chunkBuf change no contents), except for the one
  comparison that decides whether a body is aliased, which is the parameter \<open>bigCap\<close>.
\<close>

section \<open>Definitions\<close>

datatype scan_error =
    ScanChunk chunk_error
  | BodyTooLarge
  | FramingExcess
  | ChunkedTrailerTooLarge

text \<open>The status of the answer \<^verbatim>\<open>writeErrorResponse\<close> sends with each refusal.\<close>

definition scanStatus :: "scan_error \<Rightarrow> nat" where
  "scanStatus e = (if e = BodyTooLarge then 413 else 400)"

record h1body =
  chunkedInProgress :: bool
  chunkBuf :: "byte list"
  chunkExcess :: int
  chunkAliased :: bool
  chunkHeadLen :: nat
  s_buffer :: "byte list"

definition maxChunkExcess :: int where "maxChunkExcess = 16 * 1024"
definition minAliasedChunk :: nat where "minAliasedChunk = 16 * 1024"

definition abortChunked :: "h1body \<Rightarrow> h1body" where
  "abortChunked s = s\<lparr>chunkedInProgress := False, chunkBuf := [], chunkExcess := 0, chunkAliased := False\<rparr>"

definition appendChunk :: "h1body \<Rightarrow> byte list \<Rightarrow> h1body" where
  "appendChunk s chunk = s\<lparr>chunkBuf := chunkBuf s @ chunk\<rparr>"

definition appendFirst :: "h1body \<Rightarrow> byte list option \<Rightarrow> h1body" where
  "appendFirst s first = (case first of None \<Rightarrow> s | Some c \<Rightarrow> appendChunk s c)"

definition checkPartialChunk :: "int \<Rightarrow> h1body \<Rightarrow> byte list \<Rightarrow> scan_error option" where
  "checkPartialChunk limit s rest =
     (case PeekChunk rest of
        Inl e \<Rightarrow> Some (ScanChunk e)
      | Inr (sz, hdr) \<Rightarrow>
          if hdr = 0 then None
          else if sz = 0 then
            (if length rest - hdr > MaxHeaderSize + 4 then Some ChunkedTrailerTooLarge else None)
          else if limit > 0 \<and> sz > limit - int (length (chunkBuf s)) then Some BodyTooLarge
          else None)"

text \<open>
  The framing bound: the size line and the CRLF after the data are overhead, and the chunk pays back
  16 plus twice its data.
\<close>

definition excessAfter :: "int \<Rightarrow> nat \<Rightarrow> byte list \<Rightarrow> int" where
  "excessAfter ex n chunk =
     max (ex + (int n - int (length chunk) - 2) - 16 - 2 * int (length chunk)) 0"

text \<open>
  The loop of \<^verbatim>\<open>scanChunked\<close>: \<open>first\<close> is the chunk held back while chunkBuf is empty. The result is the
  refusal or whether the terminating chunk was read, with the position, the held chunk and the state.
\<close>

function scanLoop ::
  "int \<Rightarrow> byte list \<Rightarrow> nat \<Rightarrow> byte list option \<Rightarrow> h1body
     \<Rightarrow> (scan_error + bool) \<times> nat \<times> byte list option \<times> h1body" where
  "scanLoop limit buf pos first s =
     (case fst (ParseChunkedBody (ResetParser NewParser (drop pos buf))) of
        Inl cerr \<Rightarrow> (Inl (ScanChunk cerr), pos, first, abortChunked s)
      | Inr (chunk, n) \<Rightarrow>
          if n = 0 then
            let s1 = appendFirst s first in
            (case checkPartialChunk limit s1 (drop pos buf) of
               Some err \<Rightarrow> (Inl err, pos, None, abortChunked s1)
             | None \<Rightarrow> (Inr False, pos, None, s1))
          else
            (case chunk of
               None \<Rightarrow> (Inr True, pos + n, first, s)
             | Some c \<Rightarrow>
                 if limit > 0 \<and> int (length c) > limit - int (length (chunkBuf s))
                      - int (case first of None \<Rightarrow> 0 | Some f \<Rightarrow> length f)
                 then (Inl BodyTooLarge, pos + n, first, abortChunked s)
                 else
                   let s1 = s\<lparr>chunkExcess := excessAfter (chunkExcess s) n c\<rparr>
                   in if chunkExcess s1 > maxChunkExcess
                      then (Inl FramingExcess, pos + n, first, abortChunked s1)
                      else if length (chunkBuf s1) = 0 \<and> first = None
                      then scanLoop limit buf (pos + n) (Some c) s1
                      else scanLoop limit buf (pos + n) None (appendChunk (appendFirst s1 first) c)))"
  by pat_completeness auto

lemma ParseChunkedBody_consumed:
  assumes "fst (ParseChunkedBody (ResetParser NewParser b)) = Inr (chunk, n)"
  shows "n \<le> length b"
proof (cases "n = 0")
  case False
  then have "chunk_outcome b = Done chunk n" using assms by (simp add: chunk_outcome_def)
  then show ?thesis by (rule h1chunk.done_bound)
qed simp

termination scanLoop
proof (relation "measure (\<lambda>(limit, buf, pos, first, s). length buf - pos)", goal_cases)
  case (2 limit buf pos first s x chunk n c s1)
  then have "n \<le> length (drop pos buf)" using ParseChunkedBody_consumed by metis
  then show ?case using 2 by simp
next
  case (3 limit buf pos first s x chunk n c s1)
  then have "n \<le> length (drop pos buf)" using ParseChunkedBody_consumed by metis
  then show ?case using 3 by simp
qed simp

declare scanLoop.simps [simp del]

text \<open>
  \<^verbatim>\<open>scanChunked\<close>: the refusal, or None while the body is incomplete, or the number of bytes the caller
  drops from the front of the buffer.
\<close>

definition scanChunked :: "int \<Rightarrow> bool \<Rightarrow> h1body \<Rightarrow> (scan_error + nat option) \<times> h1body" where
  "scanChunked limit bigCap s =
     (let head = chunkHeadLen s; buf = s_buffer s in
      case scanLoop limit buf head None s of
        (Inl err, _, _, s1) \<Rightarrow> (Inl err, s1)
      | (Inr done, pos, first, s1) \<Rightarrow>
          let s2 = (case first of
                      None \<Rightarrow> s1
                    | Some c \<Rightarrow>
                        if done \<and> length c \<ge> minAliasedChunk \<and> length buf - pos \<le> length c \<and> bigCap
                        then s1\<lparr>chunkBuf := c, chunkAliased := True\<rparr>
                        else appendChunk s1 c)
          in if done then
               (if pos = length buf then (Inr (Some head), s2\<lparr>s_buffer := take head buf\<rparr>)
                else (Inr (Some pos), s2))
             else if pos > head then (Inr None, s2\<lparr>s_buffer := take head buf @ drop pos buf\<rparr>)
             else (Inr None, s2))"

text \<open>The connection's receive loop around it: scan, and when incomplete append the next segment.\<close>

fun scanSegments :: "int \<Rightarrow> bool \<Rightarrow> h1body \<Rightarrow> byte list list \<Rightarrow> (scan_error + nat option) \<times> h1body" where
  "scanSegments limit bigCap s [] = scanChunked limit bigCap s"
| "scanSegments limit bigCap s (x # xs) =
     (case scanChunked limit bigCap s of
        (Inr None, s1) \<Rightarrow> scanSegments limit bigCap (s1\<lparr>s_buffer := s_buffer s1 @ x\<rparr>) xs
      | r \<Rightarrow> r)"

section \<open>The decoder without its buffers\<close>

datatype absorbed =
    ARefuse scan_error
  | AMore "byte list" int "byte list"
  | ADone "byte list" "byte list"

definition partialCheck :: "int \<Rightarrow> byte list \<Rightarrow> byte list \<Rightarrow> scan_error option" where
  "partialCheck limit acc rest =
     (case peek_outcome rest of
        Fail e \<Rightarrow> Some (ScanChunk e)
      | More \<Rightarrow> None
      | Done sz hdr \<Rightarrow>
          if sz = 0 then (if length rest - hdr > MaxHeaderSize + 4 then Some ChunkedTrailerTooLarge else None)
          else if limit > 0 \<and> sz > limit - int (length acc) then Some BodyTooLarge
          else None)"

function absorb :: "int \<Rightarrow> byte list \<Rightarrow> int \<Rightarrow> byte list \<Rightarrow> absorbed" where
  "absorb limit acc ex b =
     (case chunk_outcome b of
        Fail e \<Rightarrow> ARefuse (ScanChunk e)
      | More \<Rightarrow> (case partialCheck limit acc b of Some e \<Rightarrow> ARefuse e | None \<Rightarrow> AMore acc ex b)
      | Done None n \<Rightarrow> ADone acc (drop n b)
      | Done (Some c) n \<Rightarrow>
          if limit > 0 \<and> int (length c) > limit - int (length acc) then ARefuse BodyTooLarge
          else
            let ex' = excessAfter ex n c in
            if ex' > maxChunkExcess then ARefuse FramingExcess
            else absorb limit (acc @ c) ex' (drop n b))"
  by pat_completeness auto

lemma chunk_outcome_pos: "chunk_outcome b = Done c n \<Longrightarrow> 0 < n \<and> n \<le> length b"
  using h1chunk.done_bound by (fastforce simp: chunk_outcome_def split: sum.splits prod.splits if_splits)

termination absorb
proof (relation "measure (\<lambda>(limit, acc, ex, b). length b)", goal_cases)
  case (2 limit acc ex b x n c ex')
  then show ?case using chunk_outcome_pos [of b "Some c" n] by auto
qed simp

declare absorb.simps [simp del]

lemma checkPartialChunk_eq: "checkPartialChunk limit s rest = partialCheck limit (chunkBuf s) rest"
proof (cases "PeekChunk rest")
  case (Inl e)
  then show ?thesis by (simp add: checkPartialChunk_def partialCheck_def peek_outcome_def)
next
  case (Inr p)
  obtain sz hdr where "p = (sz, hdr)" by fastforce
  then show ?thesis using Inr by (simp add: checkPartialChunk_def partialCheck_def peek_outcome_def)
qed

text \<open>What has been decoded: the buffer and the chunk held back.\<close>

definition decoded :: "h1body \<Rightarrow> byte list option \<Rightarrow> byte list" where
  "decoded s first = chunkBuf s @ (case first of None \<Rightarrow> [] | Some c \<Rightarrow> c)"

definition held :: "h1body \<Rightarrow> byte list option \<Rightarrow> bool" where
  "held s first \<longleftrightarrow> first \<noteq> None \<longrightarrow> chunkBuf s = []"

text \<open>The state fields the scan does not touch, and the simulation of the loop by \<open>absorb\<close>.\<close>

definition scanned :: "h1body \<Rightarrow> nat \<Rightarrow> byte list \<Rightarrow> absorbed \<Rightarrow> (scan_error + bool) \<times> nat \<times> byte list option \<times> h1body \<Rightarrow> bool" where
  "scanned s pos0 buf a r \<longleftrightarrow> (case r of (out, pos, first, s') \<Rightarrow>
     (case a of
        ARefuse e \<Rightarrow> out = Inl e
      | AMore acc ex rest \<Rightarrow> out = Inr False \<and> first = None \<and> chunkBuf s' = acc \<and> chunkExcess s' = ex \<and> drop pos buf = rest \<and> pos0 \<le> pos
          \<and> chunkHeadLen s' = chunkHeadLen s \<and> s_buffer s' = s_buffer s
      | ADone acc rest \<Rightarrow> out = Inr True \<and> held s' first \<and> decoded s' first = acc \<and> drop pos buf = rest \<and> pos \<le> length buf
          \<and> chunkHeadLen s' = chunkHeadLen s \<and> s_buffer s' = s_buffer s))"

lemma scanned_cong:
  "chunkHeadLen s1 = chunkHeadLen s \<Longrightarrow> s_buffer s1 = s_buffer s \<Longrightarrow> pos0 \<le> pos1 \<Longrightarrow>
     scanned s1 pos1 buf a r \<Longrightarrow> scanned s pos0 buf a r"
  by (auto simp: scanned_def split: absorbed.splits)

lemma scanned_refuse: "fst r = Inl e \<Longrightarrow> scanned s pos0 buf (ARefuse e) r"
  by (auto simp: scanned_def)

lemma ParseChunkedBody_outcome:
  "fst (ParseChunkedBody (ResetParser NewParser b)) = Inl e \<longleftrightarrow> chunk_outcome b = Fail e"
  "0 < n \<Longrightarrow> fst (ParseChunkedBody (ResetParser NewParser b)) = Inr (c, n) \<longleftrightarrow> chunk_outcome b = Done c n"
  "(\<exists>c. fst (ParseChunkedBody (ResetParser NewParser b)) = Inr (c, 0)) \<longleftrightarrow> chunk_outcome b = More"
  by (auto simp: chunk_outcome_def split: sum.splits prod.splits if_splits)

lemma scanLoop_absorb:
  assumes "held s first" "pos \<le> length buf"
  shows "scanned s pos buf (absorb limit (decoded s first) (chunkExcess s) (drop pos buf)) (scanLoop limit buf pos first s)"
  using assms
proof (induction "length buf - pos" arbitrary: pos first s rule: less_induct)
  case less
  let ?b = "drop pos buf"
  show ?case
  proof (cases "chunk_outcome ?b")
    case More
    then obtain c where c: "fst (ParseChunkedBody (ResetParser NewParser ?b)) = Inr (c, 0)"
      using ParseChunkedBody_outcome(3) by blast
    have "chunkBuf (appendFirst s first) = decoded s first"
      "chunkExcess (appendFirst s first) = chunkExcess s" "chunkHeadLen (appendFirst s first) = chunkHeadLen s"
      "s_buffer (appendFirst s first) = s_buffer s"
      by (auto simp: appendFirst_def appendChunk_def decoded_def split: option.split)
    then show ?thesis
      by (subst scanLoop.simps, subst absorb.simps)
        (simp add: c More scanned_def checkPartialChunk_eq Let_def split: option.split)
  next
    case (Fail e)
    then have "fst (ParseChunkedBody (ResetParser NewParser ?b)) = Inl e"
      using ParseChunkedBody_outcome(1) by blast
    then show ?thesis by (subst scanLoop.simps, subst absorb.simps) (simp add: Fail scanned_def)
  next
    case (Done chunk n)
    have n: "0 < n" "n \<le> length ?b" using chunk_outcome_pos [OF Done] by auto
    then have p: "fst (ParseChunkedBody (ResetParser NewParser ?b)) = Inr (chunk, n)"
      using Done ParseChunkedBody_outcome(2) by blast
    show ?thesis
    proof (cases chunk)
      case None
      then show ?thesis
        using less.prems n by (subst scanLoop.simps, subst absorb.simps) (simp add: p Done scanned_def add.commute)
    next
      case (Some c)
      let ?over = "limit > 0 \<and> int (length c) > limit - int (length (chunkBuf s))
                      - int (case first of None \<Rightarrow> 0 | Some f \<Rightarrow> length f)"
      have len: "int (length (decoded s first)) = int (length (chunkBuf s)) + int (case first of None \<Rightarrow> 0 | Some f \<Rightarrow> length f)"
        by (simp add: decoded_def split: option.split)
      then have over: "limit > 0 \<and> int (length c) > limit - int (length (decoded s first)) \<longleftrightarrow> ?over" by auto
      obtain ex where ex: "excessAfter (chunkExcess s) n c = ex" by blast
      have small: "length buf - (pos + n) < length buf - pos" "pos + n \<le> length buf" using n less.prems by auto
      let ?s1 = "s\<lparr>chunkExcess := ex\<rparr>"
      let ?stop = "?over \<or> ex > maxChunkExcess"
      show ?thesis
      proof (cases ?stop)
        case True
        have "fst (scanLoop limit buf pos first s) = Inl (if ?over then BodyTooLarge else FramingExcess)"
          using True n by (subst scanLoop.simps) (auto simp: p Some ex Let_def)
        moreover have "absorb limit (decoded s first) (chunkExcess s) ?b = ARefuse (if ?over then BodyTooLarge else FramingExcess)"
          using True by (subst absorb.simps) (auto simp: Done Some Let_def over ex)
        ultimately show ?thesis by (simp only: scanned_refuse)
      next
        case False
        have a: "absorb limit (decoded s first) (chunkExcess s) ?b = absorb limit (decoded s first @ c) ex (drop (pos + n) buf)"
          using False by (subst absorb.simps) (auto simp: Done Some Let_def over ex add.commute)
        show ?thesis
        proof (cases "chunkBuf s = [] \<and> first = None")
          case True
          have run: "scanLoop limit buf pos first s = scanLoop limit buf (pos + n) (Some c) ?s1"
            using False True n by (subst scanLoop.simps) (auto simp: p Some ex Let_def)
          have d: "decoded ?s1 (Some c) = decoded s first @ c" "held ?s1 (Some c)"
            using True by (simp_all add: decoded_def held_def)
          show ?thesis
            unfolding run a d(1) [symmetric]
            by (rule scanned_cong [of ?s1 s pos "pos + n"], simp, simp, simp) (use less.hyps [OF small(1) d(2) small(2)] in simp)
        next
          case nf: False
          let ?s2 = "appendChunk (appendFirst ?s1 first) c"
          have run: "scanLoop limit buf pos first s = scanLoop limit buf (pos + n) None ?s2"
            using False nf n by (subst scanLoop.simps) (auto simp: p Some ex Let_def)
          have d: "decoded ?s2 None = decoded s first @ c" "held ?s2 None" "chunkExcess ?s2 = ex"
              "chunkHeadLen ?s2 = chunkHeadLen s" "s_buffer ?s2 = s_buffer s"
            by (auto simp: decoded_def held_def appendChunk_def appendFirst_def split: option.split)
          show ?thesis
            unfolding run a d(1) [symmetric]
            by (rule scanned_cong [of ?s2 s pos "pos + n"], rule d, rule d, simp) (use less.hyps [OF small(1) d(2) small(2)] d(3) in simp)
        qed
      qed
    qed
  qed
qed

text \<open>What \<^verbatim>\<open>scanChunked\<close> leaves behind, by what \<open>absorb\<close> makes of the undecoded bytes.\<close>

lemma scanChunked_absorb:
  assumes "chunkHeadLen s \<le> length (s_buffer s)"
  shows "case absorb limit (chunkBuf s) (chunkExcess s) (drop (chunkHeadLen s) (s_buffer s)) of
      ARefuse e \<Rightarrow> fst (scanChunked limit bc s) = Inl e
    | AMore acc ex rest \<Rightarrow> (\<exists>s'. scanChunked limit bc s = (Inr None, s') \<and> chunkBuf s' = acc \<and> chunkExcess s' = ex
        \<and> chunkHeadLen s' = chunkHeadLen s \<and> s_buffer s' = take (chunkHeadLen s) (s_buffer s) @ rest)
    | ADone acc rest \<Rightarrow> (\<exists>end s'. scanChunked limit bc s = (Inr (Some end), s') \<and> chunkBuf s' = acc
        \<and> drop end (s_buffer s') = rest)"
proof -
  let ?h = "chunkHeadLen s" and ?buf = "s_buffer s"
  obtain out pos first s1 where run: "scanLoop limit ?buf ?h None s = (out, pos, first, s1)" by (metis prod_cases4)
  have sc: "scanned s ?h ?buf (absorb limit (chunkBuf s) (chunkExcess s) (drop ?h ?buf)) (out, pos, first, s1)"
    using scanLoop_absorb [of s None ?h ?buf limit] assms run by (simp add: held_def decoded_def)
  show ?thesis
  proof (cases "absorb limit (chunkBuf s) (chunkExcess s) (drop ?h ?buf)")
    case (ARefuse e)
    then show ?thesis using sc run by (simp add: scanned_def scanChunked_def Let_def)
  next
    case (AMore acc ex rest)
    then have f: "out = Inr False" "first = None" "chunkBuf s1 = acc" "chunkExcess s1 = ex" "drop pos ?buf = rest"
        "chunkHeadLen s1 = ?h" "s_buffer s1 = ?buf" "?h \<le> pos"
      using sc by (auto simp: scanned_def)
    then show ?thesis using AMore run
      by (cases "pos > ?h") (auto simp: scanChunked_def Let_def)
  next
    case (ADone acc rest)
    then have f: "out = Inr True" "held s1 first" "decoded s1 first = acc" "drop pos ?buf = rest" "pos \<le> length ?buf"
        "chunkHeadLen s1 = ?h" "s_buffer s1 = ?buf"
      using sc by (auto simp: scanned_def)
    then show ?thesis using ADone run assms
      by (cases first) (auto simp: scanChunked_def Let_def decoded_def held_def appendChunk_def)
  qed
qed

section \<open>Segments\<close>

text \<open>A chunk refused while it is incomplete is refused when more of it is in.\<close>

lemma partial_refused:
  assumes more: "chunk_outcome b = More" and chk: "partialCheck limit acc b = Some e"
  shows "\<exists>e'. absorb limit acc ex (b @ c) = ARefuse e'"
proof (cases "peek_outcome b")
  case More
  then show ?thesis using chk by (simp add: partialCheck_def)
next
  case (Fail pe)
  have none: "bytes_Index b bCRLF = None"
  proof (cases b rule: chunk_outcome_cases)
    case (bad e)
    then show ?thesis using bad [of "[]"] more by simp
  next
    case (line le sz)
    then show ?thesis using Fail by (simp add: peek_outcome_def PeekChunk_line)
  qed simp
  then have "PeekChunk (b @ c) = Inl errChunkLineTooLong"
    using Fail by (intro PeekChunk_too_long) (auto simp: peek_outcome_def PeekChunk_line split: if_splits)
  then show ?thesis
    by (subst absorb.simps)
      (auto simp: chunk_outcome_eq PeekChunk_line partialCheck_def peek_outcome_def split: option.splits if_splits)
next
  case (Done sz hdr)
  obtain le where le: "bytes_Index b bCRLF = Some le" "le \<le> MaxChunkLineSize"
      "parseHex64 (sizeField (take le b)) = Some sz" "hdr = le + 2"
    using Done by (auto simp: peek_outcome_def PeekChunk_line split: option.splits if_splits sum.splits prod.splits)
  note l = chunk_outcome_line [OF le(1-3)]
  have at: "chunk_outcome (b @ c) = chunkAt hdr sz (b @ c)" "chunkAt hdr sz b = More"
    using l(1) [of c] l(1) [of "[]"] le(4) more by simp_all
  have pk: "peek_outcome (b @ c) = Done sz hdr" using h1peek.done_stable [OF Done] .
  show ?thesis
  proof (cases "sz = 0")
    case True
    have long: "length b - hdr > MaxHeaderSize + 4" using chk Done True by (simp add: partialCheck_def split: if_splits)
    have start: "\<not> prefix bCRLF (drop hdr b)" "bytes_Index (drop hdr b) bCRLFCRLF = None"
      using at(2) True by (auto simp: chunkAt_def split: if_splits option.splits)
    have dr: "drop hdr (b @ c) = drop hdr b @ c" using l(2) le(4) by simp
    have np: "\<not> prefix bCRLF (drop hdr (b @ c))"
      using start(1) long prefix_length_prefix [of bCRLF "drop hdr b @ c" "drop hdr b"] dr by auto
    show ?thesis
    proof (cases "bytes_Index (drop hdr (b @ c)) bCRLFCRLF")
      case None
      then have "chunk_outcome (b @ c) = More" using at(1) np True by (simp add: chunkAt_def)
      moreover have "length (b @ c) - hdr > MaxHeaderSize + 4" using long by simp
      ultimately show ?thesis using pk True by (subst absorb.simps) (simp add: partialCheck_def)
    next
      case (Some k)
      then have "\<not> k + 4 \<le> length (drop hdr b)"
        using bytes_Index_shrink [of "drop hdr b" c bCRLFCRLF k] start(2) dr by auto
      then have "k > MaxHeaderSize" using long by simp
      then have "chunk_outcome (b @ c) = Fail errTrailerTooLarge" using at(1) np True Some by (simp add: chunkAt_def)
      then show ?thesis by (subst absorb.simps) simp
    qed
  next
    case False
    have lim: "limit > 0" "sz > limit - int (length acc)" using chk Done False by (auto simp: partialCheck_def split: if_splits)
    show ?thesis
    proof (cases "chunkAt hdr sz (b @ c)")
      case More
      then show ?thesis using at pk False lim by (subst absorb.simps) (simp add: partialCheck_def)
    next
      case (Fail e')
      then show ?thesis using at by (subst absorb.simps) simp
    next
      case (Done x n)
      then have "x = Some (take (nat sz) (drop hdr (b @ c)))" "int hdr + sz + 2 \<le> int (length (b @ c))"
        using False by (auto simp: chunkAt_def split: if_splits)
      then have "\<exists>d. x = Some d \<and> int (length d) = sz" using l(3) by (auto simp: min_def)
      then show ?thesis using Done at lim by (subst absorb.simps) auto
    qed
  qed
qed

lemma absorb_append:
  "case absorb limit acc ex b of
     ARefuse e \<Rightarrow> (\<exists>e'. absorb limit acc ex (b @ c) = ARefuse e')
   | AMore acc' ex' rest \<Rightarrow> absorb limit acc ex (b @ c) = absorb limit acc' ex' (rest @ c)
   | ADone acc' rest \<Rightarrow> absorb limit acc ex (b @ c) = ADone acc' (rest @ c)"
proof (induction "length b" arbitrary: acc ex b rule: less_induct)
  case less
  show ?case
  proof (cases "chunk_outcome b")
    case More
    show ?thesis
    proof (cases "partialCheck limit acc b")
      case None
      have "absorb limit acc ex b = AMore acc ex b" by (subst absorb.simps) (simp add: More None)
      then show ?thesis by simp
    next
      case (Some e)
      have "absorb limit acc ex b = ARefuse e" by (subst absorb.simps) (simp add: More Some)
      then show ?thesis using partial_refused [OF More Some] by simp
    qed
  next
    case (Fail e)
    have "absorb limit acc ex b = ARefuse (ScanChunk e)" by (subst absorb.simps) (simp add: Fail)
    moreover have "absorb limit acc ex (b @ c) = ARefuse (ScanChunk e)"
      using h1chunk.fail_stable [OF Fail] by (subst absorb.simps) simp
    ultimately show ?thesis by simp
  next
    case (Done x n)
    note n = chunk_outcome_pos [OF Done]
    have Done': "chunk_outcome (b @ c) = Done x n" by (rule h1chunk.done_stable [OF Done])
    have dr: "drop n (b @ c) = drop n b @ c" using n by simp
    show ?thesis
    proof (cases x)
      case None
      have "absorb limit acc ex b = ADone acc (drop n b)" by (subst absorb.simps) (simp add: Done None)
      moreover have "absorb limit acc ex (b @ c) = ADone acc (drop n b @ c)"
        by (subst absorb.simps) (simp add: Done' None dr del: drop_append)
      ultimately show ?thesis by simp
    next
      case (Some d)
      let ?stop = "(limit > 0 \<and> int (length d) > limit - int (length acc)) \<or> excessAfter ex n d > maxChunkExcess"
      show ?thesis
      proof (cases ?stop)
        case True
        have "\<exists>e'. absorb limit acc ex (b @ c') = ARefuse e'" if "chunk_outcome (b @ c') = Done x n" for c'
          using True by (subst absorb.simps) (auto simp: that Some Let_def)
        from this [of "[]"] this [of c] show ?thesis using Done Done' by auto
      next
        case False
        have step: "absorb limit acc ex (b @ c') = absorb limit (acc @ d) (excessAfter ex n d) (drop n (b @ c'))"
          if "chunk_outcome (b @ c') = Done x n" for c'
          using False by (subst absorb.simps) (auto simp: that Some Let_def)
        have "length (drop n b) < length b" using n by auto
        from less.hyps [OF this] show ?thesis
          unfolding step [OF Done'] dr using step [of "[]"] Done by simp
      qed
    qed
  qed
qed

text \<open>The answer to a chunked body: refused, incomplete, or the body.\<close>

datatype body_answer = Refused | Incomplete | Body "byte list"

definition scanAnswer :: "(scan_error + nat option) \<times> h1body \<Rightarrow> body_answer" where
  "scanAnswer r = (case r of (Inl _, _) \<Rightarrow> Refused | (Inr None, _) \<Rightarrow> Incomplete | (Inr (Some _), s) \<Rightarrow> Body (chunkBuf s))"

definition absorbAnswer :: "absorbed \<Rightarrow> body_answer" where
  "absorbAnswer a = (case a of ARefuse _ \<Rightarrow> Refused | AMore _ _ _ \<Rightarrow> Incomplete | ADone acc _ \<Rightarrow> Body acc)"

lemma scanAnswer_absorb:
  assumes "chunkHeadLen s \<le> length (s_buffer s)"
  shows "scanAnswer (scanChunked limit bc s)
    = absorbAnswer (absorb limit (chunkBuf s) (chunkExcess s) (drop (chunkHeadLen s) (s_buffer s)))"
  using scanChunked_absorb [OF assms, of limit bc]
  by (cases "scanChunked limit bc s")
    (auto simp: scanAnswer_def absorbAnswer_def split: absorbed.splits)

lemma scanSegments_absorb:
  assumes "chunkHeadLen s \<le> length (s_buffer s)"
  shows "scanAnswer (scanSegments limit bc s segs)
    = absorbAnswer (absorb limit (chunkBuf s) (chunkExcess s) (drop (chunkHeadLen s) (s_buffer s) @ concat segs))"
  using assms
proof (induction segs arbitrary: s)
  case Nil
  then show ?case using scanAnswer_absorb by simp
next
  case (Cons x xs)
  let ?b = "drop (chunkHeadLen s) (s_buffer s)"
  note sc = scanChunked_absorb [OF Cons.prems, of limit bc]
  note app = absorb_append [of limit "chunkBuf s" "chunkExcess s" ?b "concat (x # xs)"]
  show ?case
  proof (cases "absorb limit (chunkBuf s) (chunkExcess s) ?b")
    case (ARefuse e)
    then obtain s' where "scanChunked limit bc s = (Inl e, s')" using sc by (cases "scanChunked limit bc s") auto
    moreover obtain e' where "absorb limit (chunkBuf s) (chunkExcess s) (?b @ concat (x # xs)) = ARefuse e'"
      using app ARefuse by auto
    ultimately show ?thesis by (simp add: scanAnswer_def absorbAnswer_def)
  next
    case (AMore acc ex rest)
    then obtain s' where s': "scanChunked limit bc s = (Inr None, s')" "chunkBuf s' = acc" "chunkExcess s' = ex"
        "chunkHeadLen s' = chunkHeadLen s" "s_buffer s' = take (chunkHeadLen s) (s_buffer s) @ rest"
      using sc by auto
    have "scanAnswer (scanSegments limit bc (s'\<lparr>s_buffer := s_buffer s' @ x\<rparr>) xs)
        = absorbAnswer (absorb limit acc ex ((rest @ x) @ concat xs))"
      using Cons.IH [of "s'\<lparr>s_buffer := s_buffer s' @ x\<rparr>"] s' Cons.prems by simp
    then show ?thesis using s'(1) app AMore by simp
  next
    case (ADone acc rest)
    then obtain e s' where "scanChunked limit bc s = (Inr (Some e), s')" "chunkBuf s' = acc" using sc by auto
    moreover have "absorb limit (chunkBuf s) (chunkExcess s) (?b @ concat (x # xs)) = ADone acc (rest @ concat (x # xs))"
      using app ADone by simp
    ultimately show ?thesis by (simp add: scanAnswer_def absorbAnswer_def)
  qed
qed

text \<open>
  C14. The decoding of a chunked request body, with its size limit and its framing limit, does not
  depend on how the body is cut into segments: scanning after every segment, with the decoded part
  dropped from the buffer each time, ends in the same answer (refused, incomplete, or the same body) as
  one scan of everything.
\<close>

theorem chunked_body_segments:
  assumes "chunkHeadLen s \<le> length (s_buffer s)"
  shows "scanAnswer (scanSegments limit bc s segs)
    = scanAnswer (scanChunked limit bc (s\<lparr>s_buffer := s_buffer s @ concat segs\<rparr>))"
proof -
  have "chunkHeadLen (s\<lparr>s_buffer := s_buffer s @ concat segs\<rparr>) \<le> length (s_buffer (s\<lparr>s_buffer := s_buffer s @ concat segs\<rparr>))"
    using assms by simp
  from scanAnswer_absorb [OF this] show ?thesis using scanSegments_absorb [OF assms] assms by simp
qed

definition exampleBody :: "byte list \<Rightarrow> h1body" where
  "exampleBody b = \<lparr>chunkedInProgress = True, chunkBuf = [], chunkExcess = 0, chunkAliased = False,
     chunkHeadLen = 3, s_buffer = str ''HDR'' @ b\<rparr>"

theorem chunked_body_segments_witness:
  "scanAnswer (scanSegments 100 False (exampleBody (str ''2'')) [[CR], [LF] @ str ''h'', str ''i'' @ [CR, LF]])
     = scanAnswer (scanChunked 100 False (exampleBody (str ''2'' @ [CR, LF] @ str ''hi'' @ [CR, LF])))"
  using chunked_body_segments [of "exampleBody (str ''2'')" 100 False "[[CR], [LF] @ str ''h'', str ''i'' @ [CR, LF]]"]
  by (simp add: exampleBody_def str_simps)

section \<open>Limits\<close>

lemma absorb_limit:
  assumes "limit > 0" "int (length acc) \<le> limit"
  shows "case absorb limit acc ex b of
      ARefuse e \<Rightarrow> True
    | AMore acc' ex' rest \<Rightarrow> int (length acc') \<le> limit \<and> chunk_outcome rest = More \<and> partialCheck limit acc' rest = None
    | ADone acc' rest \<Rightarrow> int (length acc') \<le> limit"
  using assms(2)
proof (induction "length b" arbitrary: acc ex b rule: less_induct)
  case less
  show ?case
  proof (cases "chunk_outcome b")
    case More
    then show ?thesis using less.prems by (subst absorb.simps) (simp split: option.split)
  next
    case (Fail e)
    then show ?thesis by (subst absorb.simps) simp
  next
    case (Done x n)
    note n = chunk_outcome_pos [OF Done]
    show ?thesis
    proof (cases x)
      case None
      then show ?thesis using Done less.prems by (subst absorb.simps) simp
    next
      case (Some d)
      show ?thesis
      proof (cases "int (length d) > limit - int (length acc) \<or> excessAfter ex n d > maxChunkExcess")
        case True
        then have "\<exists>e. absorb limit acc ex b = ARefuse e"
          using assms(1) by (subst absorb.simps) (auto simp: Done Some Let_def)
        then show ?thesis by auto
      next
        case False
        then have "absorb limit acc ex b = absorb limit (acc @ d) (excessAfter ex n d) (drop n b)"
          by (subst absorb.simps) (auto simp: Done Some Let_def)
        moreover have "length (drop n b) < length b" using n by auto
        ultimately show ?thesis using less.hyps [of "drop n b" "acc @ d"] False by simp
      qed
    qed
  qed
qed

lemma waiting_bound:
  assumes more: "chunk_outcome rest = More" and chk: "partialCheck limit acc rest = None"
    and lim: "limit > 0" "int (length acc) \<le> limit" "limit + int MaxChunkLineSize + 4 \<le> MaxInt64"
  shows "int (length rest) \<le> int MaxChunkLineSize + 2 + max (limit - int (length acc) + 1) (int MaxHeaderSize + 4)"
proof (cases "peek_outcome rest")
  case More
  then have "length rest \<le> MaxChunkLineSize + 1"
    by (auto simp: peek_outcome_def PeekChunk_line split: option.splits if_splits sum.splits prod.splits)
  then show ?thesis by (simp add: MaxHeaderSize_def)
next
  case (Fail e)
  then show ?thesis using chk by (simp add: partialCheck_def)
next
  case (Done sz hdr)
  obtain le where le: "bytes_Index rest bCRLF = Some le" "le \<le> MaxChunkLineSize"
      "parseHex64 (sizeField (take le rest)) = Some sz" "hdr = le + 2"
    using Done by (auto simp: peek_outcome_def PeekChunk_line split: option.splits if_splits sum.splits prod.splits)
  note l = chunk_outcome_line [OF le(1-3)]
  have at: "chunkAt hdr sz rest = More" using l(1) [of "[]"] le(4) more by simp
  show ?thesis
  proof (cases "sz = 0")
    case True
    then have "length rest - hdr \<le> MaxHeaderSize + 4" using chk Done by (simp add: partialCheck_def split: if_splits)
    then show ?thesis using le by simp
  next
    case False
    then have "sz \<le> limit - int (length acc)" using chk Done lim by (simp add: partialCheck_def split: if_splits)
    moreover have "int hdr + sz + 2 > MaxInt64 \<or> int hdr + sz + 2 > int (length rest)"
      using at False by (auto simp: chunkAt_def split: if_splits)
    ultimately show ?thesis using le lim by auto
  qed
qed

text \<open>
  C15. Memory is bounded by the configured limit. With a body limit, a scan never leaves more decoded
  bytes than the limit, and while the body is incomplete the receive buffer holds at most the head, a
  size line of bounded length, and either the rest of one chunk that still fits the limit or a
  trailer of bounded size.
\<close>

theorem chunked_body_limits:
  assumes "chunkHeadLen s \<le> length (s_buffer s)" "limit > 0" "int (length (chunkBuf s)) \<le> limit"
    and "limit + int MaxChunkLineSize + 4 \<le> MaxInt64" and "scanChunked limit bc s = (Inr r, s')"
  shows "int (length (chunkBuf s')) \<le> limit
    \<and> (r = None \<longrightarrow> int (length (s_buffer s')) \<le> int (chunkHeadLen s) + int MaxChunkLineSize + 2
          + max (limit - int (length (chunkBuf s')) + 1) (int MaxHeaderSize + 4))"
proof -
  let ?a = "absorb limit (chunkBuf s) (chunkExcess s) (drop (chunkHeadLen s) (s_buffer s))"
  note sc = scanChunked_absorb [OF assms(1), of limit bc]
  note lim = absorb_limit [OF assms(2,3), of "chunkExcess s" "drop (chunkHeadLen s) (s_buffer s)"]
  show ?thesis
  proof (cases ?a)
    case (ARefuse e)
    then show ?thesis using sc assms(5) by simp
  next
    case (AMore acc ex rest)
    then show ?thesis using sc lim assms waiting_bound [of rest limit acc] by auto
  next
    case (ADone acc rest)
    then show ?thesis using sc lim assms(5) by auto
  qed
qed

theorem chunked_body_limits_witness:
  "\<exists>s'. scanChunked 100 False (exampleBody []) = (Inr None, s') \<and> int (length (chunkBuf s')) \<le> 100"
proof -
  have "chunk_outcome [] = More" "partialCheck 100 [] [] = None"
    by (simp_all add: chunk_outcome_eq partialCheck_def peek_outcome_def PeekChunk_def)
  then have "absorb 100 [] 0 [] = AMore [] 0 []" by (subst absorb.simps) simp
  then obtain s' where s': "scanChunked 100 False (exampleBody []) = (Inr None, s')"
    using scanChunked_absorb [of "exampleBody []" 100 False] by (auto simp: exampleBody_def str_simps)
  show ?thesis
    using chunked_body_limits [OF _ _ _ _ s'] s'
    by (simp add: exampleBody_def str_simps MaxChunkLineSize_def MaxInt64_def)
qed

section \<open>A body sent by the streaming writer\<close>

lemma excess_frame:
  assumes "length d \<le> maxChunkData"
  shows "excessAfter 0 (length (frameChunk d)) d = 0"
proof -
  have "length (hexEncode (length d)) \<le> 8"
    using assms by (intro hexEncode_length) (simp_all add: maxChunkData_def)
  then show ?thesis by (simp add: excessAfter_def frameChunk_def)
qed

lemma absorb_frames:
  assumes "wholeChunks cs" "limit \<le> 0 \<or> int (length (acc @ concat cs)) \<le> limit"
  shows "absorb limit acc 0 (concat (map frameChunk cs) @ lastChunk @ rest) = ADone (acc @ concat cs) rest"
  using assms
proof (induction cs arbitrary: acc)
  case Nil
  then show ?case
    using lastChunk_read [of rest] by (subst absorb.simps) simp
next
  case (Cons d cs)
  let ?tail = "concat (map frameChunk cs) @ lastChunk @ rest"
  have d: "d \<noteq> []" "length d \<le> maxChunkData" "wholeChunks cs" using Cons.prems by (auto simp: wholeChunks_def)
  have r: "chunk_outcome (frameChunk d @ ?tail) = Done (Some d) (length (frameChunk d))"
    by (rule frameChunk_read [OF d(1,2)])
  have "absorb limit acc 0 (frameChunk d @ ?tail) = absorb limit (acc @ d) 0 ?tail"
    using Cons.prems(2) by (subst absorb.simps) (auto simp: r excess_frame [OF d(2)] maxChunkExcess_def)
  then show ?case using Cons.IH [of "acc @ d"] d(3) Cons.prems(2) by simp
qed

text \<open>
  C16. A body framed by the streaming writer is received whole: if the bytes after the head are the
  frames of chunks \<open>cs\<close>, the last chunk and then \<open>rest\<close>, and the body is within the limit, the scan
  completes with exactly the concatenated chunks and leaves exactly \<open>rest\<close> for the next request.
\<close>

theorem chunked_body_roundtrip:
  assumes "chunkHeadLen s \<le> length (s_buffer s)" "chunkBuf s = []" "chunkExcess s = 0" "wholeChunks cs"
    and "drop (chunkHeadLen s) (s_buffer s) = concat (map frameChunk cs) @ lastChunk @ rest"
    and "limit \<le> 0 \<or> int (length (concat cs)) \<le> limit"
  shows "\<exists>e s'. scanChunked limit bc s = (Inr (Some e), s') \<and> chunkBuf s' = concat cs \<and> drop e (s_buffer s') = rest"
  using scanChunked_absorb [OF assms(1), of limit bc] absorb_frames [OF assms(4), of limit "[]" rest] assms
  by simp

theorem chunked_body_roundtrip_witness:
  "\<exists>e s'. scanChunked 100 False (exampleBody (frameChunk (str ''hi'') @ lastChunk @ str ''GET'')) = (Inr (Some e), s')
     \<and> chunkBuf s' = str ''hi'' \<and> drop e (s_buffer s') = str ''GET''"
  using chunked_body_roundtrip [of "exampleBody (frameChunk (str ''hi'') @ lastChunk @ str ''GET'')" "[str ''hi'']"
      "str ''GET''" 100 False]
  by (simp add: exampleBody_def str_simps wholeChunks_def maxChunkData_def)

end
