(* ===== verification/Router_Tree.thy ===== *)
theory Router_Tree
  imports Prelude
begin

text \<open>
  The radix tree of the router (\<^verbatim>\<open>router_tree.go\<close>). A node is a pointer in the code. The insertions
  of the code return the pointer of the node they reach, and the caller goes on with it: here they
  take what the caller does with that node as an argument \<open>k\<close> and put the result in its place. A
  route keeps the pointer of its node for later changes, so every node carries an identity \<open>nid\<close>, the
  insertions thread the next fresh one, and a write through a route's pointer is \<open>updNode\<close>. A handler
  chain is an element of a type parameter, None being Go's nil.
\<close>

section \<open>Definitions\<close>

datatype nodeType = Static | Param | CatchAll

fun typeRank :: "nodeType \<Rightarrow> nat" where
  "typeRank Static = 0"
| "typeRank Param = 1"
| "typeRank CatchAll = 2"

datatype 'h node =
  Node (nid: nat) (path: gostring) (children: "'h node list") (nType: nodeType)
    (handlers: "'h option") (paramKey: gostring) (fullPath: gostring) (async: bool)

datatype segment = Segment (kind: nodeType) (segText: gostring)

abbreviation cSlash :: byte where "cSlash \<equiv> 0x2F"
abbreviation cColon :: byte where "cColon \<equiv> 0x3A"
abbreviation cStar :: byte where "cStar \<equiv> 0x2A"

definition findSegmentEnd :: "gostring \<Rightarrow> nat" where
  "findSegmentEnd p = length (takeWhile (\<lambda>c. c \<noteq> cSlash) p)"

text \<open>The loop of \<^verbatim>\<open>splitPath\<close>, on the path after its leading slash.\<close>

function splitLoop :: "gostring \<Rightarrow> segment list" where
  "splitLoop [] = []"
| "splitLoop (c # cs) =
     (let p = c # cs in
      if c = cColon then
        let e = findSegmentEnd p; rest = drop e p
        in Segment Param (take e p)
             # (case rest of
                  [] \<Rightarrow> []
                | d # rest' \<Rightarrow> if d = cSlash then Segment Static [cSlash] # splitLoop rest' else splitLoop rest)
      else if c = cStar then [Segment CatchAll p]
      else
        let e = length (takeWhile (\<lambda>d. d \<noteq> cColon \<and> d \<noteq> cStar) p)
        in Segment Static (take e p) # splitLoop (drop e p))"
  by pat_completeness auto
termination
proof (relation "measure length", goal_cases)
  case (2 c cs p e rest d rest')
  have "Suc (length rest') \<le> length p" using 2(4,5) by (metis diff_le_self length_Cons length_drop)
  then show ?case using 2(1) by simp
next
  case (3 c cs p e rest d rest')
  have "0 < e" using 3 by (simp add: findSegmentEnd_def)
  then show ?case using 3 by simp
next
  case (4 c cs p e)
  have "0 < e" using 4 by simp
  then show ?case using 4 by simp
qed simp

declare splitLoop.simps [simp del]

definition splitPath :: "gostring \<Rightarrow> segment list" where
  "splitPath p = (if p = [cSlash] then [] else splitLoop (drop 1 p))"

text \<open>\<^verbatim>\<open>insertSorted\<close> keeps the order static, param, catchAll.\<close>

definition insertSorted :: "'h node list \<Rightarrow> 'h node \<Rightarrow> 'h node list" where
  "insertSorted chs child =
     (let i = length (takeWhile (\<lambda>ch. typeRank (nType ch) \<le> typeRank (nType child)) chs)
      in take i chs @ child # drop i chs)"

fun longestPrefix :: "gostring \<Rightarrow> gostring \<Rightarrow> nat" where
  "longestPrefix (a # as) (b # bs) = (if a = b then Suc (longestPrefix as bs) else 0)"
| "longestPrefix _ _ = 0"

definition setChildren :: "'h node \<Rightarrow> 'h node list \<Rightarrow> 'h node" where
  "setChildren n chs = Node (nid n) (path n) chs (nType n) (handlers n) (paramKey n) (fullPath n) (async n)"

text \<open>The split of a static child at byte \<open>cp\<close>; the new node has the fresh identity \<open>nx\<close>.\<close>

definition splitNode :: "nat \<Rightarrow> 'h node \<Rightarrow> nat \<Rightarrow> 'h node" where
  "splitNode nx ch cp =
     (let split = Node nx (drop cp (path ch)) (children ch) (nType ch) (handlers ch) (paramKey ch)
                    (fullPath ch) False
      in Node (nid ch) (take cp (path ch)) [split] (nType ch) None (paramKey ch) [] (async ch))"

text \<open>The loops over the children that stop at the first child with a property.\<close>

fun findIndex :: "('a \<Rightarrow> bool) \<Rightarrow> 'a list \<Rightarrow> nat option" where
  "findIndex P [] = None"
| "findIndex P (x # xs) = (if P x then Some 0 else map_option Suc (findIndex P xs))"

lemma findIndex_None: "findIndex P xs = None \<longleftrightarrow> (\<forall>x \<in> set xs. \<not> P x)"
  by (induction xs) auto

lemma findIndex_Some:
  "findIndex P xs = Some i \<Longrightarrow> i < length xs \<and> P (xs ! i) \<and> (\<forall>j < i. \<not> P (xs ! j))"
proof (induction xs arbitrary: i)
  case (Cons x xs)
  show ?case
  proof (cases "P x")
    case False
    then obtain j where "findIndex P xs = Some j" "i = Suc j" using Cons.prems by auto
    then show ?thesis using Cons.IH [of j] False by (auto simp: nth_Cons split: nat.splits)
  qed (use Cons.prems in auto)
qed simp

definition staticMatch :: "'h node list \<Rightarrow> gostring \<Rightarrow> nat option" where
  "staticMatch chs tx = findIndex (\<lambda>ch. nType ch = Static \<and> longestPrefix tx (path ch) \<noteq> 0) chs"

text \<open>
  The insertions return the changed parent, the identity of the node reached, and the next fresh
  identity; \<open>k\<close> gets the fresh identity and the node reached, and returns the same.
\<close>

type_synonym 'h visit = "nat \<Rightarrow> 'h node \<Rightarrow> 'h node \<times> nat \<times> nat"

definition putChild :: "'h node \<Rightarrow> nat \<Rightarrow> 'h node \<times> nat \<times> nat \<Rightarrow> 'h node \<times> nat \<times> nat" where
  "putChild parent i r = (case r of (ch, t, nx) \<Rightarrow> (setChildren parent ((children parent)[i := ch]), t, nx))"

definition newChild :: "'h node \<Rightarrow> 'h node \<times> nat \<times> nat \<Rightarrow> 'h node \<times> nat \<times> nat" where
  "newChild parent r = (case r of (ch, t, nx) \<Rightarrow> (setChildren parent (insertSorted (children parent) ch), t, nx))"

function insertStatic :: "nat \<Rightarrow> 'h node \<Rightarrow> gostring \<Rightarrow> 'h visit \<Rightarrow> 'h node \<times> nat \<times> nat" where
  "insertStatic nx parent tx k =
     (case staticMatch (children parent) tx of
        None \<Rightarrow> newChild parent (k (nx + 1) (Node nx tx [] Static None [] [] False))
      | Some i \<Rightarrow>
          let ch = children parent ! i; cp = longestPrefix tx (path ch)
          in if cp = length (path ch) \<and> cp = length tx then putChild parent i (k nx ch)
             else
               let ch1 = (if cp < length (path ch) then splitNode nx ch cp else ch);
                   nx1 = (if cp < length (path ch) then nx + 1 else nx)
               in if cp = length tx then putChild parent i (k nx1 ch1)
                  else putChild parent i (insertStatic nx1 ch1 (drop cp tx) k))"
  by pat_completeness auto

lemma staticMatch_Some:
  assumes "staticMatch chs tx = Some i"
  shows "i < length chs" "nType (chs ! i) = Static" "longestPrefix tx (path (chs ! i)) \<noteq> 0"
  using findIndex_Some [OF assms [unfolded staticMatch_def]] by auto

lemma longestPrefix_le: "longestPrefix a b \<le> length a \<and> longestPrefix a b \<le> length b"
  by (induction a b rule: longestPrefix.induct) auto

termination insertStatic
proof (relation "measure (\<lambda>(nx, p, tx, k). length tx)", goal_cases)
  case (2 nx parent tx k i ch cp ch1 nx1)
  have "cp \<noteq> 0" using staticMatch_Some(3) [OF 2(1)] 2(2,3) by simp
  moreover have "cp \<le> length tx" using longestPrefix_le 2(3) by simp
  ultimately show ?case by simp
qed simp

declare insertStatic.simps [simp del]

definition insertChild :: "nat \<Rightarrow> 'h node \<Rightarrow> segment \<Rightarrow> 'h visit \<Rightarrow> 'h node \<times> nat \<times> nat" where
  "insertChild nx parent seg k =
     (case kind seg of
        Param \<Rightarrow>
          let key = drop 1 (segText seg) in
          (case findIndex (\<lambda>ch. nType ch = Param \<and> paramKey ch = key) (children parent) of
             Some i \<Rightarrow> putChild parent i (k nx (children parent ! i))
           | None \<Rightarrow> newChild parent (k (nx + 1) (Node nx [] [] Param None key [] False)))
      | CatchAll \<Rightarrow>
          let key = drop 1 (segText seg) in
          (case findIndex (\<lambda>ch. nType ch = CatchAll) (children parent) of
             Some i \<Rightarrow> putChild parent i (k nx (children parent ! i))
           | None \<Rightarrow> newChild parent (k (nx + 1) (Node nx [] [] CatchAll None key [] False)))
      | Static \<Rightarrow> insertStatic nx parent (segText seg) k)"

text \<open>
  The registration loop of \<^verbatim>\<open>addRouteWithAsync\<close>: walk the segments, then set the handlers, the full
  path and the async flag of the node reached.
\<close>

definition setRoute :: "'h \<Rightarrow> gostring \<Rightarrow> bool \<Rightarrow> 'h visit" where
  "setRoute h full as nx n =
     (Node (nid n) (path n) (children n) (nType n) (Some h) (paramKey n) full as, nid n, nx)"

fun insertSegs :: "segment list \<Rightarrow> 'h visit \<Rightarrow> 'h visit" where
  "insertSegs [] k nx n = k nx n"
| "insertSegs (seg # segs) k nx n = insertChild nx n seg (insertSegs segs k)"

subsection \<open>Lookup\<close>

type_synonym params = "(gostring \<times> gostring) list"
type_synonym 'h found = "('h \<times> gostring \<times> bool) option"

definition nodeFound :: "'h node \<Rightarrow> 'h found" where
  "nodeFound n = map_option (\<lambda>h. (h, fullPath n, async n)) (handlers n)"

lemma size_children [termination_simp]: "size_list size (children n) < size n"
  by (cases n) simp

text \<open>
  \<^verbatim>\<open>search\<close> over the children of a node; None is the nil handler chain. The params slice is returned as
  the code leaves it.
\<close>

function searchCh :: "'h node list \<Rightarrow> gostring \<Rightarrow> params \<Rightarrow> 'h found \<times> params" where
  "searchCh [] p ps = (None, ps)"
| "searchCh (ch # chs) p ps =
     (case nType ch of
        Static \<Rightarrow>
          if prefix (path ch) p then
            let remaining = drop (length (path ch)) p in
            if remaining = [] then
              (if handlers ch \<noteq> None then (nodeFound ch, ps)
               else case find (\<lambda>gc. nType gc = CatchAll) (children ch) of
                      Some gc \<Rightarrow> (nodeFound gc, ps @ [(paramKey gc, [])])
                    | None \<Rightarrow> (None, ps))
            else
              (case searchCh (children ch) remaining ps of
                 (Some r, ps') \<Rightarrow> (Some r, ps')
               | (None, ps') \<Rightarrow> searchCh chs p ps')
          else searchCh chs p ps
      | Param \<Rightarrow>
          let e = findSegmentEnd p in
          if e = 0 then searchCh chs p ps
          else
            let ps1 = ps @ [(paramKey ch, take e p)]; remaining = drop e p in
            if remaining = [] then
              (if handlers ch \<noteq> None then (nodeFound ch, ps1) else searchCh chs p (butlast ps1))
            else
              (case searchCh (children ch) remaining ps1 of
                 (Some r, ps') \<Rightarrow> (Some r, ps')
               | (None, ps') \<Rightarrow> searchCh chs p (butlast ps'))
      | CatchAll \<Rightarrow> (nodeFound ch, ps @ [(paramKey ch, cSlash # p)]))"
  by pat_completeness auto
termination
  by (relation "measure (\<lambda>(chs, p, ps). size_list size chs)") (auto simp: less_SucI size_children add.commute trans_less_add1)

declare searchCh.simps(2) [simp del]

definition search :: "'h node \<Rightarrow> gostring \<Rightarrow> params \<Rightarrow> 'h found \<times> params" where
  "search n p ps = searchCh (children n) p ps"

text \<open>\<^verbatim>\<open>cleanPath\<close>.\<close>

fun hasDouble :: "gostring \<Rightarrow> bool" where
  "hasDouble (a # b # p) \<longleftrightarrow> (a = cSlash \<and> b = cSlash) \<or> hasDouble (b # p)"
| "hasDouble _ \<longleftrightarrow> False"

fun collapse :: "gostring \<Rightarrow> gostring" where
  "collapse (a # b # p) = (if a = cSlash \<and> b = cSlash then collapse (b # p) else a # collapse (b # p))"
| "collapse p = p"

definition cleanPath :: "gostring \<Rightarrow> gostring" where
  "cleanPath p =
     (if length p = 0 then [cSlash]
      else if \<not> hasDouble p then p
      else let b = collapse p in if length b > 1 \<and> last b = cSlash then butlast b else b)"

text \<open>\<^verbatim>\<open>validatePath\<close>: the panics as errors.\<close>

datatype path_error = ErrEmptyParam | ErrEmptyCatchAll | ErrCatchAllNotLast

fun validatePath :: "gostring \<Rightarrow> path_error option" where
  "validatePath [] = None"
| "validatePath (c # p) =
     (if c = cColon then (if p = [] \<or> hd p = cSlash then Some ErrEmptyParam else validatePath p)
      else if c = cStar then
        (if p = [] then Some ErrEmptyCatchAll
         else if cSlash \<in> set p then Some ErrCatchAllNotLast else None)
      else validatePath p)"

end
