(* ===== verification/Router_Search.thy ===== *)
theory Router_Search
  imports Router_Tree
begin

text \<open>
  What the router's tree stores and what its lookup finds: the registered patterns of a tree, the
  matching of a path against a pattern, soundness and completeness of \<^verbatim>\<open>search\<close> with respect to them.
\<close>

section \<open>Patterns\<close>

datatype tok = Lit byte | Par gostring | Cat gostring

definition nodePat :: "'h node \<Rightarrow> tok list" where
  "nodePat n = (case nType n of Static \<Rightarrow> map Lit (path n) | Param \<Rightarrow> [Par (paramKey n)] | CatchAll \<Rightarrow> [Cat (paramKey n)])"

text \<open>
  A path matches a pattern with the given params: a literal is one byte, a parameter is the non-empty
  text up to the next slash, and a catch-all is the rest, with a slash in front of it unless it is empty.
\<close>

fun matches :: "tok list \<Rightarrow> gostring \<Rightarrow> params \<Rightarrow> bool" where
  "matches [] p ps \<longleftrightarrow> p = [] \<and> ps = []"
| "matches (Lit c # t) p ps \<longleftrightarrow> (case p of [] \<Rightarrow> False | d # p' \<Rightarrow> c = d \<and> matches t p' ps)"
| "matches (Par k # t) p ps \<longleftrightarrow>
     (let e = findSegmentEnd p in
      e \<noteq> 0 \<and> (case ps of [] \<Rightarrow> False | (k', v) # ps' \<Rightarrow> k' = k \<and> v = take e p \<and> matches t (drop e p) ps'))"
| "matches (Cat k # t) p ps \<longleftrightarrow> t = [] \<and> ps = [(k, if p = [] then [] else cSlash # p)]"

lemma matches_lits: "matches (map Lit s @ t) (s @ p) ps \<longleftrightarrow> matches t p ps"
  by (induction s) auto

lemma matches_lits_iff: "matches (map Lit s @ t) p ps \<longleftrightarrow> prefix s p \<and> matches t (drop (length s) p) ps"
  by (induction s arbitrary: p) (auto split: list.splits)

text \<open>The registered routes below a list of children: pattern, handlers, full path, async flag.\<close>

type_synonym 'h entry = "tok list \<times> 'h \<times> gostring \<times> bool"

definition ownEntry :: "'h node \<Rightarrow> 'h entry list" where
  "ownEntry n = (case nodeFound n of None \<Rightarrow> [] | Some x \<Rightarrow> [([], x)])"

function entriesCh :: "'h node list \<Rightarrow> 'h entry list" where
  "entriesCh [] = []"
| "entriesCh (ch # chs) =
     map (\<lambda>(p, x). (nodePat ch @ p, x)) (ownEntry ch @ entriesCh (children ch)) @ entriesCh chs"
  by pat_completeness auto
termination
  by (relation "measure (size_list size)") (auto simp: less_SucI size_children add.commute trans_less_add1)

definition nodeEntries :: "'h node \<Rightarrow> 'h entry list" where
  "nodeEntries n = ownEntry n @ entriesCh (children n)"

lemma entriesCh_concat: "entriesCh chs = concat (map (\<lambda>ch. map (\<lambda>(p, x). (nodePat ch @ p, x)) (nodeEntries ch)) chs)"
  by (induction chs) (auto simp: nodeEntries_def)

lemma entriesCh_set:
  "(q, x) \<in> set (entriesCh chs) \<longleftrightarrow> (\<exists>ch \<in> set chs. \<exists>p. q = nodePat ch @ p \<and> (p, x) \<in> set (nodeEntries ch))"
  by (auto simp: entriesCh_concat)

lemma nodeEntries_set:
  "(q, x) \<in> set (nodeEntries n) \<longleftrightarrow> (q = [] \<and> nodeFound n = Some x) \<or> (q, x) \<in> set (entriesCh (children n))"
  by (cases x) (auto simp: nodeEntries_def ownEntry_def split: option.splits)

section \<open>Soundness\<close>

text \<open>
  The shape every registered tree has: static nodes have text, a parameter is followed by static
  text or nothing, and a catch-all has handlers and nothing below it.
\<close>

definition shapeOk :: "'h node \<Rightarrow> bool" where
  "shapeOk n = (case nType n of
     Static \<Rightarrow> path n \<noteq> []
   | Param \<Rightarrow> list_all (\<lambda>c. nType c = Static) (children n)
   | CatchAll \<Rightarrow> handlers n \<noteq> None \<and> children n = [])"

function treeOk :: "'h node list \<Rightarrow> bool" where
  "treeOk [] \<longleftrightarrow> True"
| "treeOk (ch # chs) \<longleftrightarrow> shapeOk ch \<and> treeOk (children ch) \<and> treeOk chs"
  by pat_completeness auto
termination
  by (relation "measure (size_list size)") (auto simp: less_SucI size_children add.commute trans_less_add1)

lemma treeOk_iff: "treeOk chs \<longleftrightarrow> (\<forall>ch \<in> set chs. shapeOk ch \<and> treeOk (children ch))"
  by (induction chs) auto

lemma nodeFound_None: "nodeFound n = None \<longleftrightarrow> handlers n = None"
  by (simp add: nodeFound_def)

lemma treeOk_find:
  assumes "treeOk chs" "find (\<lambda>gc. nType gc = CatchAll) chs = Some gc"
  shows "handlers gc \<noteq> None \<and> gc \<in> set chs \<and> nType gc = CatchAll"
proof -
  have gc: "gc \<in> set chs" "nType gc = CatchAll" using assms(2) by (auto simp: find_Some_iff)
  then have "shapeOk gc" using assms(1) treeOk_iff [of chs] by blast
  then show ?thesis using gc by (simp add: shapeOk_def)
qed

text \<open>What a lookup establishes: a registered entry that matches, or the params as they were.\<close>

definition lookupOk :: "'h node list \<Rightarrow> gostring \<Rightarrow> params \<Rightarrow> 'h found \<times> params \<Rightarrow> bool" where
  "lookupOk chs p ps r = (case r of
     (None, ps') \<Rightarrow> ps' = ps
   | (Some x, ps') \<Rightarrow> (\<exists>pat ps1. (pat, x) \<in> set (entriesCh chs) \<and> matches pat p ps1 \<and> ps' = ps @ ps1))"

lemma lookupOk_tail: "lookupOk chs p ps r \<Longrightarrow> lookupOk (ch # chs) p ps r"
  unfolding lookupOk_def entriesCh_set by (cases r; cases "fst r") auto

lemma lookupOk_here:
  assumes "(q, x) \<in> set (nodeEntries ch)" "matches (nodePat ch @ q) p ps1"
  shows "lookupOk (ch # chs) p ps (Some x, ps @ ps1)"
proof -
  have "(nodePat ch @ q, x) \<in> set (entriesCh (ch # chs))"
    using assms(1) entriesCh_set [of "nodePat ch @ q" x "ch # chs"] by auto
  then show ?thesis using assms(2) by (auto simp: lookupOk_def)
qed

lemma takeWhile_seg: "findSegmentEnd p \<le> length p"
  by (simp add: findSegmentEnd_def length_takeWhile_le)

lemma searchCh_ok:
  assumes "treeOk chs" "p \<noteq> []"
  shows "lookupOk chs p ps (searchCh chs p ps)"
  using assms
proof (induction chs arbitrary: p ps rule: entriesCh.induct)
  case 1
  then show ?case by (simp add: lookupOk_def)
next
  case (2 ch chs)
  have served: "treeOk (children ch)" "treeOk chs" "nType ch = CatchAll \<Longrightarrow> handlers ch \<noteq> None"
    using 2(3) by (simp_all add: shapeOk_def)
  note tail = lookupOk_tail [OF 2(2) [OF served(2) 2(4)]]
  show ?case
  proof (cases "nType ch")
    case Static
    let ?r = "drop (length (path ch)) p"
    have pat: "nodePat ch = map Lit (path ch)" using Static by (simp add: nodePat_def)
    show ?thesis
    proof (cases "prefix (path ch) p")
      case False
      then show ?thesis using tail Static by (simp add: searchCh.simps)
    next
      case True
      then have p: "p = path ch @ ?r" by (auto simp: prefix_def)
      show ?thesis
      proof (cases "?r = []")
        case rest: True
        then have m: "matches (nodePat ch @ q) p ps1 \<longleftrightarrow> matches q [] ps1" for q ps1
          using p pat matches_lits [of "path ch" q "[]" ps1] by simp
        consider (own) "handlers ch \<noteq> None"
          | (gc) gc where "handlers ch = None" "find (\<lambda>gc. nType gc = CatchAll) (children ch) = Some gc"
          | (none) "handlers ch = None" "find (\<lambda>gc. nType gc = CatchAll) (children ch) = None"
          by blast
        then show ?thesis
        proof cases
          case own
          then obtain x where x: "nodeFound ch = Some x" by (auto simp: nodeFound_def)
          have "lookupOk (ch # chs) p ps (Some x, ps @ [])"
            by (rule lookupOk_here [of "[]"]) (use x m [of "[]" "[]"] in \<open>auto simp: nodeEntries_set\<close>)
          then show ?thesis using Static True rest own x by (simp add: searchCh.simps)
        next
          case gc
          have g: "handlers gc \<noteq> None" "gc \<in> set (children ch)" "nType gc = CatchAll"
            using treeOk_find [OF served(1) gc(2)] by auto
          then obtain x where x: "nodeFound gc = Some x" by (auto simp: nodeFound_def)
          have "([Cat (paramKey gc)], x) \<in> set (entriesCh (children ch))"
            unfolding entriesCh_set
            by (rule bexI [OF _ g(2)], rule exI [of _ "[]"]) (use g x in \<open>auto simp: nodePat_def nodeEntries_set\<close>)
          then have "([Cat (paramKey gc)], x) \<in> set (nodeEntries ch)" by (simp add: nodeEntries_set)
          then have "lookupOk (ch # chs) p ps (Some x, ps @ [(paramKey gc, [])])"
            by (rule lookupOk_here) (simp add: m)
          then show ?thesis using Static True rest gc x by (simp add: searchCh.simps)
        next
          case none
          then show ?thesis using Static True rest by (simp add: searchCh.simps lookupOk_def)
        qed
      next
        case rest: False
        note ih = 2(1) [OF served(1) rest, of ps]
        show ?thesis
        proof (cases "fst (searchCh (children ch) ?r ps)")
          case None
          then have "searchCh (children ch) ?r ps = (None, ps)" using ih by (cases "searchCh (children ch) ?r ps") (auto simp: lookupOk_def)
          then show ?thesis using tail Static True rest by (simp add: searchCh.simps)
        next
          case (Some x)
          then obtain pat' ps1 where e: "(pat', x) \<in> set (entriesCh (children ch))" "matches pat' ?r ps1"
              "searchCh (children ch) ?r ps = (Some x, ps @ ps1)"
            using ih by (cases "searchCh (children ch) ?r ps") (auto simp: lookupOk_def)
          have "matches (nodePat ch @ pat') p ps1" using matches_lits [of "path ch" pat' ?r ps1] e(2) p pat by simp
          then have "lookupOk (ch # chs) p ps (Some x, ps @ ps1)"
            using e(1) by (intro lookupOk_here [of pat']) (auto simp: nodeEntries_set)
          then show ?thesis using Static True rest e(3) by (simp add: searchCh.simps)
        qed
      qed
    qed
  next
    case Param
    let ?e = "findSegmentEnd p" and ?r = "drop (findSegmentEnd p) p"
    let ?b = "(paramKey ch, take ?e p)"
    have pat: "nodePat ch = [Par (paramKey ch)]" using Param by (simp add: nodePat_def)
    show ?thesis
    proof (cases "?e = 0")
      case True
      then show ?thesis using tail Param by (simp add: searchCh.simps)
    next
      case e: False
      have m: "matches (nodePat ch @ q) p (?b # ps1) \<longleftrightarrow> matches q ?r ps1" for q ps1
        using e by (simp add: pat Let_def)
      show ?thesis
      proof (cases "?r = []")
        case rest: True
        show ?thesis
        proof (cases "nodeFound ch")
          case None
          then show ?thesis using tail Param e rest by (simp add: searchCh.simps nodeFound_None Let_def)
        next
          case (Some x)
          have "lookupOk (ch # chs) p ps (Some x, ps @ [?b])"
            by (rule lookupOk_here [of "[]"]) (use Some rest m [of "[]" "[]"] in \<open>auto simp: nodeEntries_set\<close>)
          moreover have "handlers ch \<noteq> None" using Some nodeFound_None [of ch] by auto
          ultimately show ?thesis using Param e rest Some by (simp add: searchCh.simps Let_def)
        qed
      next
        case rest: False
        note ih = 2(1) [OF served(1) rest, of "ps @ [?b]"]
        show ?thesis
        proof (cases "fst (searchCh (children ch) ?r (ps @ [?b]))")
          case None
          then have "searchCh (children ch) ?r (ps @ [?b]) = (None, ps @ [?b])"
            using ih by (cases "searchCh (children ch) ?r (ps @ [?b])") (auto simp: lookupOk_def)
          then show ?thesis using tail Param e rest by (simp add: searchCh.simps Let_def)
        next
          case (Some x)
          then obtain pat' ps1 where f: "(pat', x) \<in> set (entriesCh (children ch))" "matches pat' ?r ps1"
              "searchCh (children ch) ?r (ps @ [?b]) = (Some x, (ps @ [?b]) @ ps1)"
            using ih by (cases "searchCh (children ch) ?r (ps @ [?b])") (auto simp: lookupOk_def)
          have "lookupOk (ch # chs) p ps (Some x, ps @ (?b # ps1))"
            using f(1,2) m by (intro lookupOk_here [of pat']) (auto simp: nodeEntries_set)
          then show ?thesis using Param e rest f(3) by (simp add: searchCh.simps Let_def)
        qed
      qed
    qed
  next
    case CatchAll
    then obtain x where x: "nodeFound ch = Some x" using served(3) by (auto simp: nodeFound_def)
    have "lookupOk (ch # chs) p ps (Some x, ps @ [(paramKey ch, cSlash # p)])"
      by (rule lookupOk_here [of "[]"]) (use x CatchAll 2(4) in \<open>auto simp: nodeEntries_set nodePat_def\<close>)
    then show ?thesis using CatchAll x by (simp add: searchCh.simps)
  qed
qed

section \<open>Completeness\<close>

text \<open>
  A lookup is blocked where the rest of the path is exactly the text of a static node that has
  neither handlers nor a catch-all below it: there \<^verbatim>\<open>search\<close> gives up instead of going on with the
  siblings. \<open>blocked\<close> says that a lookup runs into such a node on its way.
\<close>

function blocked :: "'h node list \<Rightarrow> gostring \<Rightarrow> bool" where
  "blocked [] p \<longleftrightarrow> False"
| "blocked (ch # chs) p \<longleftrightarrow>
     (case nType ch of
        Static \<Rightarrow>
          (if prefix (path ch) p then
             let r = drop (length (path ch)) p in
             if r = [] then handlers ch = None \<and> find (\<lambda>gc. nType gc = CatchAll) (children ch) = None
             else blocked (children ch) r \<or> blocked chs p
           else blocked chs p)
      | Param \<Rightarrow>
          (let e = findSegmentEnd p in
           (e \<noteq> 0 \<and> drop e p \<noteq> [] \<and> blocked (children ch) (drop e p)) \<or> blocked chs p)
      | CatchAll \<Rightarrow> False)"
  by pat_completeness auto
termination
  by (relation "measure (\<lambda>(chs, p). size_list size chs)") (auto simp: less_SucI size_children add.commute trans_less_add1)

lemma nodePat_nonempty: "shapeOk n \<Longrightarrow> nodePat n \<noteq> []"
  by (auto simp: shapeOk_def nodePat_def split: nodeType.splits)

lemma matches_end:
  assumes "treeOk chs" "(q, x) \<in> set (entriesCh chs)" "matches q [] ps"
  shows "\<exists>c \<in> set chs. nType c = CatchAll"
proof -
  obtain c q' where c: "c \<in> set chs" "q = nodePat c @ q'" using assms(2) by (auto simp: entriesCh_set)
  have "shapeOk c" using assms(1) c(1) treeOk_iff [of chs] by blast
  then have "nType c = CatchAll"
    using assms(3) c(2) unfolding shapeOk_def nodePat_def
    by (cases "nType c"; cases "path c") (auto simp: findSegmentEnd_def)
  then show ?thesis using c(1) by blast
qed

lemma search_fail: "treeOk chs \<Longrightarrow> p \<noteq> [] \<Longrightarrow> fst (searchCh chs p ps) = None \<Longrightarrow> searchCh chs p ps = (None, ps)"
  using searchCh_ok [of chs p ps] by (cases "searchCh chs p ps") (auto simp: lookupOk_def)

lemma searchCh_complete:
  assumes "treeOk chs" "p \<noteq> []" "\<not> blocked chs p" "(pat, x) \<in> set (entriesCh chs)" "matches pat p ps1"
  shows "fst (searchCh chs p ps) \<noteq> None"
  using assms
proof (induction chs arbitrary: p ps pat ps1 rule: entriesCh.induct)
  case 1
  then show ?case by simp
next
  case (2 ch chs)
  have ok: "treeOk (children ch)" "treeOk chs" "shapeOk ch" using 2(3) by simp_all
  consider (here) q where "pat = nodePat ch @ q" "(q, x) \<in> set (nodeEntries ch)"
    | (later) "(pat, x) \<in> set (entriesCh chs)"
    using 2(6) unfolding entriesCh_set [of pat x "ch # chs"] entriesCh_set [of pat x chs] by auto
  note split = this
  have later: "fst (searchCh chs p ps') \<noteq> None" if "\<not> blocked chs p" "(pat, x) \<in> set (entriesCh chs)" for ps'
    using 2(2) [OF ok(2) 2(4) that 2(7)] .
  show ?case
  proof (cases "nType ch")
    case Static
    let ?r = "drop (length (path ch)) p"
    have pat: "nodePat ch = map Lit (path ch)" using Static by (simp add: nodePat_def)
    show ?thesis
    proof (cases "prefix (path ch) p")
      case False
      have "(pat, x) \<in> set (entriesCh chs)"
        using split
      proof cases
        case (here q)
        then show ?thesis using 2(7) False by (simp add: pat matches_lits_iff)
      qed
      then show ?thesis using later False Static 2(5) by (simp add: searchCh.simps)
    next
      case True
      show ?thesis
      proof (cases "?r = []")
        case rest: True
        then have "handlers ch \<noteq> None \<or> (\<exists>gc. find (\<lambda>gc. nType gc = CatchAll) (children ch) = Some gc)"
          using 2(5) True Static by auto
        then show ?thesis
          using Static True rest treeOk_find [OF ok(1)] by (auto simp: searchCh.simps nodeFound_def)
      next
        case rest: False
        have nb: "\<not> blocked (children ch) ?r" "\<not> blocked chs p" using 2(5) Static True rest by (auto simp: Let_def)
        show ?thesis
        proof (cases "fst (searchCh (children ch) ?r ps)")
          case None
          have "(pat, x) \<in> set (entriesCh chs)"
            using split
          proof cases
            case (here q)
            then have "matches q ?r ps1" using 2(7) by (simp add: pat matches_lits_iff)
            moreover have "q \<noteq> []" using calculation rest by auto
            ultimately have "fst (searchCh (children ch) ?r ps) \<noteq> None"
              using here(2) 2(1) [OF ok(1) rest nb(1)] by (auto simp: nodeEntries_set)
            then show ?thesis using None by simp
          qed
          then show ?thesis
            using later [OF nb(2), of ps] search_fail [OF ok(1) rest None] Static True rest by (simp add: searchCh.simps)
        next
          case (Some y)
          then show ?thesis
            using Static True rest by (cases "searchCh (children ch) ?r ps") (simp add: searchCh.simps)
        qed
      qed
    qed
  next
    case Param
    let ?e = "findSegmentEnd p" and ?r = "drop (findSegmentEnd p) p"
    let ?b = "(paramKey ch, take ?e p)"
    have pat: "nodePat ch = [Par (paramKey ch)]" using Param by (simp add: nodePat_def)
    have nb2: "\<not> blocked chs p" using 2(5) Param by (simp add: Let_def)
    have static: "\<forall>c \<in> set (children ch). nType c = Static" using ok(3) Param by (simp add: shapeOk_def list_all_iff)
    show ?thesis
    proof (cases "?e = 0")
      case True
      have "(pat, x) \<in> set (entriesCh chs)"
        using split
      proof cases
        case (here q)
        then show ?thesis using 2(7) True by (simp add: pat)
      qed
      then show ?thesis using later [OF nb2] Param True by (simp add: searchCh.simps)
    next
      case e: False
      show ?thesis
      proof (cases "?r = []")
        case rest: True
        show ?thesis
        proof (cases "handlers ch")
          case None
          have "(pat, x) \<in> set (entriesCh chs)"
            using split
          proof cases
            case (here q)
            then have "(q, x) \<in> set (entriesCh (children ch))" using None by (auto simp: nodeEntries_set nodeFound_def)
            moreover obtain ps2 where "matches q [] ps2"
              using 2(7) here(1) rest by (auto simp: pat Let_def split: list.splits)
            ultimately show ?thesis using matches_end [OF ok(1)] static by fastforce
          qed
          then show ?thesis using later [OF nb2, of ps] Param e rest None by (simp add: searchCh.simps Let_def)
        next
          case (Some h)
          then show ?thesis using Param e rest by (simp add: searchCh.simps Let_def nodeFound_None)
        qed
      next
        case rest: False
        have nb: "\<not> blocked (children ch) ?r" using 2(5) Param e rest by (simp add: Let_def)
        show ?thesis
        proof (cases "fst (searchCh (children ch) ?r (ps @ [?b]))")
          case None
          have "(pat, x) \<in> set (entriesCh chs)"
            using split
          proof cases
            case (here q)
            then obtain ps2 where m: "matches q ?r ps2" using 2(7) by (auto simp: pat Let_def split: list.splits)
            then have "q \<noteq> []" using rest by auto
            then have "fst (searchCh (children ch) ?r (ps @ [?b])) \<noteq> None"
              using here(2) m 2(1) [OF ok(1) rest nb] by (auto simp: nodeEntries_set)
            then show ?thesis using None by simp
          qed
          then show ?thesis
            using later [OF nb2, of ps] search_fail [OF ok(1) rest None] Param e rest by (simp add: searchCh.simps Let_def)
        next
          case (Some y)
          then show ?thesis
            using Param e rest by (cases "searchCh (children ch) ?r (ps @ [?b])") (simp add: searchCh.simps Let_def)
        qed
      qed
    qed
  next
    case CatchAll
    then show ?thesis using ok(3) by (simp add: searchCh.simps shapeOk_def nodeFound_None)
  qed
qed

end
