(* ===== verification/Router_Insert.thy ===== *)
theory Router_Insert
  imports Router_Search
begin

text \<open>
  Registration refines a map from patterns to handler chains: inserting a route changes exactly the
  entry of its pattern and keeps the invariant of the radix tree.
\<close>

section \<open>The map a tree stands for\<close>

text \<open>A catch-all is one pattern whatever its key: a second one at the same place reuses the node.\<close>

fun canon :: "tok \<Rightarrow> tok" where
  "canon (Lit c) = Lit c"
| "canon (Par k) = Par k"
| "canon (Cat k) = Cat []"

abbreviation canonPat :: "'h node \<Rightarrow> tok list" where "canonPat n \<equiv> map canon (nodePat n)"

definition absNode :: "'h node \<Rightarrow> (tok list \<times> 'h \<times> gostring) set" where
  "absNode n = (\<lambda>(p, h, fp, as). (map canon p, h, fp)) ` set (nodeEntries n)"

definition absChild :: "'h node \<Rightarrow> (tok list \<times> 'h \<times> gostring) set" where
  "absChild ch = (\<lambda>(p, v). (canonPat ch @ p, v)) ` absNode ch"

definition absOwn :: "'h node \<Rightarrow> (tok list \<times> 'h \<times> gostring) set" where
  "absOwn n = (case handlers n of None \<Rightarrow> {} | Some h \<Rightarrow> {([], h, fullPath n)})"

definition upd :: "'k \<Rightarrow> 'v \<Rightarrow> ('k \<times> 'v) set \<Rightarrow> ('k \<times> 'v) set" where
  "upd q v A = insert (q, v) {e \<in> A. fst e \<noteq> q}"

lemma absNode_children: "absNode n = absOwn n \<union> (\<Union>ch \<in> set (children n). absChild ch)"
proof -
  have own: "(\<lambda>(p, h, fp, as). (map canon p, h, fp)) ` set (ownEntry n) = absOwn n"
    by (auto simp: ownEntry_def absOwn_def nodeFound_def split: option.splits)
  have "(\<lambda>(p, h, fp, as). (map canon p, h, fp)) ` set (entriesCh (children n)) = (\<Union>ch \<in> set (children n). absChild ch)"
    unfolding entriesCh_concat absChild_def absNode_def by (force simp: image_iff)
  then show ?thesis unfolding absNode_def nodeEntries_def using own by (simp add: image_Un)
qed

text \<open>The first token of everything below a node: what tells siblings apart.\<close>

definition nodeKey :: "'h node \<Rightarrow> tok" where
  "nodeKey n = (case nType n of Static \<Rightarrow> Lit (hd (path n)) | Param \<Rightarrow> Par (paramKey n) | CatchAll \<Rightarrow> Cat [])"

section \<open>The invariant\<close>

definition shapePre :: "'h node \<Rightarrow> bool" where
  "shapePre n = (case nType n of
     Static \<Rightarrow> path n \<noteq> []
   | Param \<Rightarrow> list_all (\<lambda>c. nType c = Static) (children n)
   | CatchAll \<Rightarrow> children n = [])"

text \<open>Siblings are in the order static, param, catchAll and differ in their first token.\<close>

definition siblings :: "'h node list \<Rightarrow> bool" where
  "siblings chs \<longleftrightarrow> sorted (map (typeRank \<circ> nType) chs) \<and> distinct (map nodeKey chs)"

function forestOk :: "'h node list \<Rightarrow> bool" where
  "forestOk chs \<longleftrightarrow> siblings chs \<and> (\<forall>ch \<in> set chs. shapeOk ch \<and> forestOk (children ch))"
  by pat_completeness auto
termination
proof (relation "measure (size_list size)", goal_cases)
  case (2 chs ch)
  have "size ch \<le> size_list size chs" using 2 by (rule size_list_estimation') simp
  then show ?case using size_children [of ch] by simp
qed simp

declare forestOk.simps [simp del]

lemma forestOk_treeOk: "forestOk chs \<Longrightarrow> treeOk chs"
proof (induction chs rule: forestOk.induct)
  case (1 chs)
  then show ?case using forestOk.simps [of chs] treeOk_iff [of chs] by blast
qed

lemma shape_split: "shapeOk n \<longleftrightarrow> shapePre n \<and> (nType n = CatchAll \<longrightarrow> handlers n \<noteq> None)"
  by (auto simp: shapeOk_def shapePre_def split: nodeType.splits)

lemma canonPat_key: "shapePre n \<Longrightarrow> canonPat n \<noteq> [] \<and> hd (canonPat n) = nodeKey n"
  by (auto simp: shapePre_def nodePat_def nodeKey_def hd_map split: nodeType.splits)

lemma absChild_key: "shapePre ch \<Longrightarrow> (p, v) \<in> absChild ch \<Longrightarrow> p \<noteq> [] \<and> hd p = nodeKey ch"
  using canonPat_key [of ch] by (auto simp: absChild_def)

subsection \<open>Replacing and adding a child\<close>

lemma upd_image:
  fixes ch ch' :: "'h node"
  assumes "absNode ch' = upd q v (absNode ch)" "canonPat ch' = canonPat ch"
  shows "absChild ch' = upd (canonPat ch @ q) v (absChild ch)"
proof -
  have in_ch: "(p, w) \<in> absChild n \<longleftrightarrow> (\<exists>p0. p = canonPat n @ p0 \<and> (p0, w) \<in> absNode n)"
    for p w and n :: "'h node" by (auto simp: absChild_def)
  have "e \<in> absChild ch' \<longleftrightarrow> e \<in> upd (canonPat ch @ q) v (absChild ch)" for e
    by (cases e) (auto simp: in_ch assms upd_def)
  then show ?thesis by blast
qed

lemma upd_other: "\<forall>e \<in> A. fst e \<noteq> q \<Longrightarrow> upd q v A = insert (q, v) A"
  by (auto simp: upd_def)

lemma upd_Un: "upd q v (A \<union> B) = upd q v A \<union> {e \<in> B. fst e \<noteq> q}"
  by (auto simp: upd_def)

lemma abs_replace:
  assumes d: "distinct (map nodeKey chs)" and i: "i < length chs"
    and shapes: "\<forall>ch \<in> set chs. shapePre ch"
    and r: "r \<noteq> []" "hd r = nodeKey (chs ! i)"
    and ch': "absChild ch' = upd r v (absChild (chs ! i))"
  shows "(\<Union>ch \<in> set (chs[i := ch']). absChild ch) = upd r v (\<Union>ch \<in> set chs. absChild ch)"
proof -
  let ?rest = "take i chs @ drop (Suc i) chs"
  have parts: "set chs = insert (chs ! i) (set ?rest)" "set (chs[i := ch']) = insert ch' (set ?rest)"
    using i by (metis Un_insert_right id_take_nth_drop list.simps(15) set_append)
      (use i in \<open>simp add: upd_conv_take_nth_drop\<close>)
  have "nodeKey ch \<noteq> hd r" if "ch \<in> set ?rest" for ch
  proof -
    have "map nodeKey chs = map nodeKey (take i chs) @ nodeKey (chs ! i) # map nodeKey (drop (Suc i) chs)"
      using i by (metis id_take_nth_drop list.simps(9) map_append)
    then have "nodeKey (chs ! i) \<notin> nodeKey ` set ?rest" using d by auto
    then show ?thesis using that r(2) by (metis image_eqI)
  qed
  moreover have "shapePre ch" if "ch \<in> set ?rest" for ch using that shapes parts(1) by blast
  ultimately have "\<forall>e \<in> (\<Union>ch \<in> set ?rest. absChild ch). fst e \<noteq> r"
    using absChild_key by fastforce
  then have "{e \<in> (\<Union>ch \<in> set ?rest. absChild ch). fst e \<noteq> r} = (\<Union>ch \<in> set ?rest. absChild ch)" by auto
  then show ?thesis unfolding parts UN_insert upd_Un ch' by simp
qed

lemma abs_add:
  assumes "\<forall>ch \<in> set chs. shapePre ch \<and> nodeKey ch \<noteq> hd r" "r \<noteq> []" "absChild c = {(r, v)}"
  shows "(\<Union>ch \<in> insert c (set chs). absChild ch) = upd r v (\<Union>ch \<in> set chs. absChild ch)"
proof -
  have "\<forall>e \<in> (\<Union>ch \<in> set chs. absChild ch). fst e \<noteq> r"
    using assms(1) absChild_key by fastforce
  from upd_other [OF this] show ?thesis using assms(3) by simp
qed

lemma insertSorted_set: "set (insertSorted chs c) = insert c (set chs)"
proof -
  let ?i = "length (takeWhile (\<lambda>ch. typeRank (nType ch) \<le> typeRank (nType c)) chs)"
  have "set chs = set (take ?i chs) \<union> set (drop ?i chs)" by (metis append_take_drop_id set_append)
  then show ?thesis by (simp add: insertSorted_def Let_def)
qed

lemma insertSorted_parts:
  assumes "sorted (map (typeRank \<circ> nType) chs)"
  obtains a b where "chs = a @ b" "insertSorted chs c = a @ c # b"
    "\<forall>x \<in> set a. typeRank (nType x) \<le> typeRank (nType c)" "\<forall>x \<in> set b. typeRank (nType c) \<le> typeRank (nType x)"
proof -
  let ?P = "\<lambda>ch. typeRank (nType ch) \<le> typeRank (nType c)"
  obtain a b where ab: "takeWhile ?P chs = a" "dropWhile ?P chs = b" by blast
  have chs: "chs = a @ b" using ab takeWhile_dropWhile_id by metis
  have "take (length a) chs = a" "drop (length a) chs = b" using chs by simp_all
  then have ins: "insertSorted chs c = a @ c # b" using ab by (simp add: insertSorted_def Let_def)
  have lo: "\<forall>x \<in> set a. typeRank (nType x) \<le> typeRank (nType c)" using ab(1) set_takeWhileD by fastforce
  have hi: "\<forall>x \<in> set b. typeRank (nType c) \<le> typeRank (nType x)"
  proof (cases b)
    case (Cons y ys)
    then have "\<not> typeRank (nType y) \<le> typeRank (nType c)" using ab(2) by (simp add: dropWhile_eq_Cons_conv)
    moreover have "sorted (map (typeRank \<circ> nType) (y # ys))" using assms chs Cons by (simp add: sorted_append)
    ultimately show ?thesis using Cons by auto
  qed simp
  show ?thesis by (rule that [OF chs ins lo hi])
qed

lemma insertSorted_siblings:
  assumes "siblings chs" "nodeKey c \<notin> nodeKey ` set chs"
  shows "siblings (insertSorted chs c)"
proof -
  have s: "sorted (map (typeRank \<circ> nType) chs)" "distinct (map nodeKey chs)" using assms(1) by (auto simp: siblings_def)
  obtain a b where ab: "chs = a @ b" "insertSorted chs c = a @ c # b"
    "\<forall>x \<in> set a. typeRank (nType x) \<le> typeRank (nType c)" "\<forall>x \<in> set b. typeRank (nType c) \<le> typeRank (nType x)"
    using s(1) by (rule insertSorted_parts)
  show ?thesis
    using s ab assms(2) unfolding siblings_def ab(2) by (auto simp: sorted_append)
qed

lemma siblings_replace:
  assumes "siblings chs" "i < length chs" "nType c = nType (chs ! i)" "nodeKey c = nodeKey (chs ! i)"
  shows "siblings (chs[i := c])"
proof -
  have "map nodeKey (chs[i := c]) = map nodeKey chs" "map (typeRank \<circ> nType) (chs[i := c]) = map (typeRank \<circ> nType) chs"
    using assms by (simp_all add: list_eq_iff_nth_eq nth_list_update)
  then show ?thesis using assms(1) by (simp only: siblings_def)
qed

section \<open>What a visit does to the node it reaches\<close>

text \<open>
  \<open>visitOk P k q v\<close>: on any node of a type in \<open>P\<close> that satisfies the invariant, \<open>k\<close> sets the entry of
  pattern \<open>q\<close> below it to \<open>v\<close>, keeps the invariant, and keeps what the node's parent sees of it.
\<close>

definition sameHead :: "'h node \<Rightarrow> 'h node \<Rightarrow> bool" where
  "sameHead n n' \<longleftrightarrow> nType n' = nType n \<and> path n' = path n \<and> paramKey n' = paramKey n"

definition setsEntry :: "'h node \<Rightarrow> tok list \<Rightarrow> 'h \<times> gostring \<Rightarrow> 'h node \<Rightarrow> bool" where
  "setsEntry n q v n' \<longleftrightarrow> sameHead n n' \<and> shapeOk n' \<and> forestOk (children n') \<and> absNode n' = upd q v (absNode n)"

definition visitOk :: "(nodeType \<Rightarrow> bool) \<Rightarrow> 'h visit \<Rightarrow> tok list \<Rightarrow> 'h \<times> gostring \<Rightarrow> bool" where
  "visitOk P k q v \<longleftrightarrow>
     (\<forall>nx n. P (nType n) \<longrightarrow> shapePre n \<longrightarrow> forestOk (children n) \<longrightarrow> setsEntry n q v (fst (k nx n)))"

lemma visitOkD:
  "visitOk P k q v \<Longrightarrow> P (nType n) \<Longrightarrow> shapePre n \<Longrightarrow> forestOk (children n) \<Longrightarrow> setsEntry n q v (fst (k nx n))"
  by (simp add: visitOk_def)

lemma sameHead_pat: "sameHead n n' \<Longrightarrow> canonPat n' = canonPat n \<and> nodeKey n' = nodeKey n"
  by (cases "nType n") (simp_all add: sameHead_def nodePat_def nodeKey_def)

lemma setRoute_ok: "visitOk (\<lambda>_. True) (setRoute h fp as) [] (h, fp)"
proof -
  have "setsEntry n [] (h, fp) (fst (setRoute h fp as nx n))" if "shapePre n" "forestOk (children n)" for n :: "'a node" and nx
  proof -
    let ?n = "fst (setRoute h fp as nx n)"
    have n: "children ?n = children n" "handlers ?n = Some h" "fullPath ?n = fp" "sameHead n ?n" "nType ?n = nType n"
      by (simp_all add: setRoute_def sameHead_def)
    have "shapePre ?n" using that(1) n by (simp add: shapePre_def sameHead_def split: nodeType.splits)
    moreover have "\<forall>ch \<in> set (children n). shapePre ch"
      using that(2) forestOk.simps [of "children n"] shape_split by blast
    then have "\<forall>e \<in> (\<Union>ch \<in> set (children n). absChild ch). fst e \<noteq> []" using absChild_key by fastforce
    then have "absNode ?n = upd [] (h, fp) (absNode n)"
      unfolding absNode_children n absOwn_def by (auto simp: upd_def split: option.splits)
    ultimately show ?thesis using n that by (simp add: setsEntry_def shape_split)
  qed
  then show ?thesis by (simp add: visitOk_def)
qed

lemma setChildren_simps [simp]:
  "children (setChildren n chs) = chs" "nType (setChildren n chs) = nType n" "path (setChildren n chs) = path n"
  "paramKey (setChildren n chs) = paramKey n" "handlers (setChildren n chs) = handlers n"
  "fullPath (setChildren n chs) = fullPath n" "sameHead n (setChildren n chs)"
  by (simp_all add: setChildren_def sameHead_def)

lemma absNode_setChildren: "absNode (setChildren n chs) = absOwn n \<union> (\<Union>ch \<in> set chs. absChild ch)"
  by (cases "handlers n") (simp_all add: absNode_children absOwn_def)

lemma upd_own: "q \<noteq> [] \<Longrightarrow> absOwn n \<union> upd q v A = upd q v (absOwn n \<union> A)"
  by (auto simp: upd_def absOwn_def split: option.splits)

text \<open>The two ways an insertion changes a parent.\<close>

lemma putChild_ok:
  assumes n: "shapePre n" "nType n \<noteq> CatchAll" "forestOk (children n)" and i: "i < length (children n)"
    and ch: "nType ch' = nType (children n ! i)" "nodeKey ch' = nodeKey (children n ! i)" "shapeOk ch'" "forestOk (children ch')"
    and r: "r \<noteq> []" "hd r = nodeKey (children n ! i)" "absChild ch' = upd r v (absChild (children n ! i))"
  shows "setsEntry n r v (fst (putChild n i (ch', t, nx)))"
proof -
  let ?chs = "children n"
  have f: "siblings ?chs" "\<forall>c \<in> set ?chs. shapeOk c \<and> forestOk (children c)" using n(3) forestOk.simps [of ?chs] by blast+
  have sub: "set (?chs[i := ch']) \<subseteq> insert ch' (set ?chs)" by (rule set_update_subset_insert)
  have "forestOk (?chs[i := ch'])"
    using siblings_replace [OF f(1) i ch(1,2)] f(2) ch(3,4) sub forestOk.simps [of "?chs[i := ch']"] by blast
  moreover have "(\<Union>c \<in> set (?chs[i := ch']). absChild c) = upd r v (\<Union>c \<in> set ?chs. absChild c)"
    using f i r by (intro abs_replace) (auto simp: siblings_def shape_split)
  moreover have "shapePre (setChildren n (?chs[i := ch']))"
    using n(1,2) ch(1) i by (auto simp: shapePre_def list_all_length nth_list_update split: nodeType.splits)
  ultimately show ?thesis
    using n r(1) upd_own [of r n]
    by (simp add: putChild_def setsEntry_def shape_split absNode_setChildren absNode_children [of n])
qed

lemma newChild_ok:
  assumes n: "shapePre n" "nType n \<noteq> CatchAll" "forestOk (children n)" and kinds: "nType n = Param \<longrightarrow> nType c = Static"
    and key: "nodeKey c \<notin> nodeKey ` set (children n)" and c: "shapeOk c" "forestOk (children c)"
    and r: "r \<noteq> []" "hd r = nodeKey c" "absChild c = {(r, v)}"
  shows "setsEntry n r v (fst (newChild n (c, t, nx)))"
proof -
  let ?chs = "children n"
  have f: "siblings ?chs" "\<forall>c \<in> set ?chs. shapeOk c \<and> forestOk (children c)" using n(3) forestOk.simps [of ?chs] by blast+
  have key': "\<forall>x \<in> set ?chs. nodeKey x \<noteq> nodeKey c" using key by (metis image_eqI)
  have "forestOk (insertSorted ?chs c)"
    using insertSorted_siblings [OF f(1) key] f(2) c
    by (subst forestOk.simps) (simp add: insertSorted_set)
  moreover have "(\<Union>x \<in> set (insertSorted ?chs c). absChild x) = upd r v (\<Union>x \<in> set ?chs. absChild x)"
    unfolding insertSorted_set using f(2) key' r by (intro abs_add) (auto simp: shape_split)
  moreover have "shapePre (setChildren n (insertSorted ?chs c))"
    using n(1,2) kinds by (auto simp: shapePre_def list_all_iff insertSorted_set split: nodeType.splits)
  ultimately show ?thesis
    using n r(1) upd_own [of r n]
    by (simp add: newChild_def setsEntry_def shape_split absNode_setChildren absNode_children [of n])
qed

section \<open>Insertion\<close>

lemma longestPrefix_take: "take (longestPrefix a b) a = take (longestPrefix a b) b"
  by (induction a b rule: longestPrefix.induct) auto

lemma longestPrefix_zero: "a \<noteq> [] \<Longrightarrow> b \<noteq> [] \<Longrightarrow> longestPrefix a b = 0 \<longleftrightarrow> hd a \<noteq> hd b"
  by (cases a; cases b) auto

lemma staticMatch_None:
  assumes "staticMatch chs tx = None" "\<forall>c \<in> set chs. shapeOk c" "tx \<noteq> []"
  shows "Lit (hd tx) \<notin> nodeKey ` set chs"
proof
  assume "Lit (hd tx) \<in> nodeKey ` set chs"
  then obtain c where c: "c \<in> set chs" "nodeKey c = Lit (hd tx)" by (metis imageE)
  then have t: "nType c = Static" "hd (path c) = hd tx" by (auto simp: nodeKey_def split: nodeType.splits)
  have "path c \<noteq> []" using assms(2) c(1) t(1) by (auto simp: shapeOk_def)
  moreover have "longestPrefix tx (path c) = 0"
    using assms(1) c(1) t(1) unfolding staticMatch_def findIndex_None by blast
  ultimately show False using t(2) assms(3) longestPrefix_zero [of tx "path c"] by metis
qed

text \<open>A fresh node has no entry, so a visit leaves it with one.\<close>

lemma fresh_child:
  fixes n :: "'h node"
  assumes k: "visitOk P k q v" "P ty" and n: "n = Node nx p [] ty None key [] False" "shapePre n"
  shows "absChild (fst (k nx' n)) = {(canonPat n @ q, v)}" "shapeOk (fst (k nx' n))"
    "forestOk (children (fst (k nx' n)))" "sameHead n (fst (k nx' n))"
proof -
  have "forestOk (children n)" unfolding n(1) by (subst forestOk.simps) (simp add: siblings_def)
  then have s: "setsEntry n q v (fst (k nx' n))" using k(2) n by (intro visitOkD [OF k(1)]) simp_all
  then show "shapeOk (fst (k nx' n))" "forestOk (children (fst (k nx' n)))" "sameHead n (fst (k nx' n))"
    by (simp_all add: setsEntry_def)
  have "absNode n = {}" by (simp add: absNode_children absOwn_def n(1))
  then have "absNode (fst (k nx' n)) = {(q, v)}" using s by (simp add: setsEntry_def upd_def)
  then show "absChild (fst (k nx' n)) = {(canonPat n @ q, v)}"
    using sameHead_pat [OF \<open>sameHead n (fst (k nx' n))\<close>] by (simp add: absChild_def)
qed

text \<open>Splitting a static node changes nothing of what it stands for.\<close>

lemma splitNode_ok:
  assumes "nType ch = Static" "0 < cp" "cp < length (path ch)" "forestOk (children ch)"
  shows "absChild (splitNode nx ch cp) = absChild ch" "shapeOk (splitNode nx ch cp)"
    "forestOk (children (splitNode nx ch cp))" "nType (splitNode nx ch cp) = Static"
    "path (splitNode nx ch cp) = take cp (path ch)" "nodeKey (splitNode nx ch cp) = nodeKey ch"
proof -
  let ?s = "Node nx (drop cp (path ch)) (children ch) Static (handlers ch) (paramKey ch) (fullPath ch) False"
  have eq: "splitNode nx ch cp = Node (nid ch) (take cp (path ch)) [?s] Static None (paramKey ch) [] (async ch)"
    using assms(1) by (simp add: splitNode_def Let_def)
  have abs: "absNode ?s = absNode ch" by (simp add: absNode_children absOwn_def split: option.split)
  have pats: "canonPat (splitNode nx ch cp) @ canonPat ?s = canonPat ch"
    using assms(1) by (simp add: eq nodePat_def flip: map_append)
  have "absNode (splitNode nx ch cp) = absChild ?s" by (simp add: eq absNode_children absOwn_def)
  then show "absChild (splitNode nx ch cp) = absChild ch"
    unfolding absChild_def abs pats [symmetric] by (simp add: image_image case_prod_unfold)
  show "shapeOk (splitNode nx ch cp)" "forestOk (children (splitNode nx ch cp))"
    using assms by (auto simp: eq shapeOk_def forestOk.simps [of "[?s]"] siblings_def)
  show "nType (splitNode nx ch cp) = Static" "path (splitNode nx ch cp) = take cp (path ch)"
      "nodeKey (splitNode nx ch cp) = nodeKey ch"
    using assms by (simp_all add: eq nodeKey_def hd_take)
qed

lemma fst_putChild: "fst (putChild n i r) = fst (putChild n i (fst r, 0, 0))"
  by (cases r) (simp add: putChild_def)

lemma fst_newChild: "fst (newChild n r) = fst (newChild n (fst r, 0, 0))"
  by (cases r) (simp add: newChild_def)

lemma canonPat_static: "nType n = Static \<Longrightarrow> canonPat n = map Lit (path n)"
  by (simp add: nodePat_def comp_def)

text \<open>A visit below the \<open>i\<close>-th child, possibly split, as a change of the parent.\<close>

lemma putChild_visit:
  assumes n: "shapePre n" "nType n \<noteq> CatchAll" "forestOk (children n)" and i: "i < length (children n)"
    and ch1: "nType ch1 = nType (children n ! i)" "nodeKey ch1 = nodeKey (children n ! i)"
      "absChild ch1 = absChild (children n ! i)" "shapePre ch1"
    and s: "setsEntry ch1 q v (fst r)"
  shows "setsEntry n (canonPat ch1 @ q) v (fst (putChild n i r))"
proof -
  have h: "sameHead ch1 (fst r)" "shapeOk (fst r)" "forestOk (children (fst r))" "absNode (fst r) = upd q v (absNode ch1)"
    using s by (auto simp: setsEntry_def)
  have "setsEntry n (canonPat ch1 @ q) v (fst (putChild n i (fst r, 0, 0)))"
  proof (rule putChild_ok [OF n i])
    show "nType (fst r) = nType (children n ! i)" using h(1) ch1(1) by (simp add: sameHead_def)
    show "nodeKey (fst r) = nodeKey (children n ! i)" using sameHead_pat [OF h(1)] ch1(2) by simp
    show "absChild (fst r) = upd (canonPat ch1 @ q) v (absChild (children n ! i))"
      using upd_image [OF h(4)] sameHead_pat [OF h(1)] ch1(3) by simp
  qed (use h canonPat_key [OF ch1(4)] ch1(2) in auto)
  then show ?thesis by (subst fst_putChild)
qed

lemma newChild_visit:
  assumes n: "shapePre n" "nType n \<noteq> CatchAll" "forestOk (children n)" and k: "visitOk P k q v" "P ty"
    and new: "new = Node nx p [] ty None key [] False" "shapePre new" "nType n = Param \<longrightarrow> ty = Static"
      "nodeKey new \<notin> nodeKey ` set (children n)"
  shows "setsEntry n (canonPat new @ q) v (fst (newChild n (k nx' new)))"
proof -
  note f = fresh_child [OF k new(1,2), of nx']
  have key: "nodeKey (fst (k nx' new)) = nodeKey new" "nType (fst (k nx' new)) = ty"
    using f(4) sameHead_pat [OF f(4)] new(1) by (auto simp: sameHead_def)
  have "setsEntry n (canonPat new @ q) v (fst (newChild n (fst (k nx' new), 0, 0)))"
  proof (rule newChild_ok [OF n])
    show "absChild (fst (k nx' new)) = {(canonPat new @ q, v)}" by (rule f(1))
    show "hd (canonPat new @ q) = nodeKey (fst (k nx' new))" using canonPat_key [OF new(2)] key(1) by simp
  qed (use f key new canonPat_key [OF new(2)] in auto)
  then show ?thesis by (subst fst_newChild)
qed

lemma insertStatic_ok:
  fixes n :: "'h node"
  assumes "visitOk P k q v" "P Static" "tx \<noteq> []" "shapePre n" "nType n \<noteq> CatchAll" "forestOk (children n)"
  shows "setsEntry n (map Lit tx @ q) v (fst (insertStatic nx n tx k))"
  using assms
proof (induction nx n tx k rule: insertStatic.induct)
  case (1 nx n tx k)
  have kids: "\<forall>c \<in> set (children n). shapeOk c \<and> forestOk (children c)"
    using 1(7) forestOk.simps [of "children n"] by blast
  show ?case
  proof (cases "staticMatch (children n) tx")
    case None
    let ?new = "Node nx tx [] Static None [] [] False :: 'h node"
    have pre: "shapePre ?new" using 1(4) by (simp add: shapePre_def)
    have "nodeKey ?new = Lit (hd tx)" by (simp add: nodeKey_def)
    then have "nodeKey ?new \<notin> nodeKey ` set (children n)" using staticMatch_None [OF None _ 1(4)] kids by simp
    from newChild_visit [OF 1(5-7,2,3) refl pre _ this, of "nx + 1"]
    have "setsEntry n (map Lit tx @ q) v (fst (newChild n (k (nx + 1) ?new)))"
      using canonPat_static [of ?new] by simp
    moreover have "insertStatic nx n tx k = newChild n (k (nx + 1) ?new)"
      by (subst insertStatic.simps) (simp add: None)
    ultimately show ?thesis by (simp only:)
  next
    case (Some i)
    let ?ch = "children n ! i" and ?cp = "longestPrefix tx (path (children n ! i))"
    note m = staticMatch_Some [OF Some]
    have ch: "shapeOk ?ch" "forestOk (children ?ch)" using kids m(1) by auto
    have cp: "0 < ?cp" "?cp \<le> length tx" "?cp \<le> length (path ?ch)" "take ?cp tx = take ?cp (path ?ch)"
      using m(3) longestPrefix_le longestPrefix_take by auto
    let ?ch1 = "if ?cp < length (path ?ch) then splitNode nx ?ch ?cp else ?ch"
    let ?nx1 = "if ?cp < length (path ?ch) then nx + 1 else nx"
    have ch1: "nType ?ch1 = Static" "nodeKey ?ch1 = nodeKey ?ch" "absChild ?ch1 = absChild ?ch" "shapeOk ?ch1"
        "forestOk (children ?ch1)" "path ?ch1 = take ?cp tx"
      using splitNode_ok [OF m(2) cp(1) _ ch(2), of nx] m(2) ch cp by auto
    have pre: "shapePre ?ch1" using ch1(4) shape_split by blast
    have "nType ?ch1 = nType ?ch" using ch1(1) m(2) by simp
    note put = putChild_visit [OF 1(5-7) m(1) this ch1(2,3) pre]
    have pat: "canonPat ?ch1 = map Lit (take ?cp tx)" using ch1(1,6) canonPat_static by metis
    show ?thesis
    proof (cases "?cp = length tx")
      case True
      have "setsEntry ?ch1 q v (fst (k ?nx1 ?ch1))" using 1(3) ch1(1,5) pre by (intro visitOkD [OF 1(2)]) simp_all
      from put [OF this] have "setsEntry n (map Lit tx @ q) v (fst (putChild n i (k ?nx1 ?ch1)))"
        unfolding pat using True by simp
      moreover have "insertStatic nx n tx k = putChild n i (k ?nx1 ?ch1)"
        using cp(3) True by (subst insertStatic.simps) (auto simp: Some Let_def)
      ultimately show ?thesis by (simp only:)
    next
      case False
      have rest: "drop ?cp tx \<noteq> []" using cp(2) False by simp
      have "setsEntry ?ch1 (map Lit (drop ?cp tx) @ q) v (fst (insertStatic ?nx1 ?ch1 (drop ?cp tx) k))"
        by (rule 1(1) [OF Some refl refl _ refl refl False 1(2,3) rest pre]) (use False ch1 in auto)
      from put [OF this]
      have "setsEntry n (map Lit tx @ q) v (fst (putChild n i (insertStatic ?nx1 ?ch1 (drop ?cp tx) k)))"
        unfolding pat by (simp flip: append_assoc map_append)
      moreover have "insertStatic nx n tx k = putChild n i (insertStatic ?nx1 ?ch1 (drop ?cp tx) k)"
        using False by (subst insertStatic.simps) (simp add: Some Let_def)
      ultimately show ?thesis by (simp only:)
    qed
  qed
qed

definition segPat :: "segment \<Rightarrow> tok list" where
  "segPat s = (case kind s of
     Static \<Rightarrow> map Lit (segText s) | Param \<Rightarrow> [Par (drop 1 (segText s))] | CatchAll \<Rightarrow> [Cat (drop 1 (segText s))])"

text \<open>The segment lists \<^verbatim>\<open>splitPath\<close> produces, and what may follow a node of a type.\<close>

fun nextOk :: "nodeType \<Rightarrow> segment list \<Rightarrow> bool" where
  "nextOk Static ss \<longleftrightarrow> True"
| "nextOk Param ss \<longleftrightarrow> ss = [] \<or> kind (hd ss) = Static"
| "nextOk CatchAll ss \<longleftrightarrow> ss = []"

fun segsOk :: "segment list \<Rightarrow> bool" where
  "segsOk [] \<longleftrightarrow> True"
| "segsOk (s # ss) \<longleftrightarrow> (kind s = Static \<longrightarrow> segText s \<noteq> []) \<and> nextOk (kind s) ss \<and> segsOk ss"

lemma insertKeyed_ok:
  fixes n :: "'h node"
  assumes n: "shapePre n" "nType n = Static" "forestOk (children n)" and k: "visitOk P k q v" "P ty"
    and new: "new = Node nx [] [] ty None key [] False" "shapePre new"
    and find: "\<And>ch. ch \<in> set (children n) \<Longrightarrow> F ch \<longleftrightarrow> nodeKey ch = nodeKey new" "\<And>ch. F ch \<Longrightarrow> nType ch = ty"
      "\<And>ch. F ch \<Longrightarrow> canonPat ch = canonPat new"
  shows "setsEntry n (canonPat new @ q) v
    (fst (case findIndex F (children n) of
            Some i \<Rightarrow> putChild n i (k nx (children n ! i))
          | None \<Rightarrow> newChild n (k (nx + 1) new)))"
proof (cases "findIndex F (children n)")
  case None
  then have "nodeKey new \<notin> nodeKey ` set (children n)" using find(1) unfolding findIndex_None by fastforce
  then have "setsEntry n (canonPat new @ q) v (fst (newChild n (k (nx + 1) new)))"
    using n(2) by (intro newChild_visit [OF n(1) _ n(3) k new]) auto
  then show ?thesis using None by simp
next
  case (Some i)
  then have i: "i < length (children n)" "F (children n ! i)" using findIndex_Some by blast+
  let ?ch = "children n ! i"
  have "?ch \<in> set (children n)" using i(1) by simp
  then have ch: "shapeOk ?ch" "forestOk (children ?ch)" using n(3) forestOk.simps [of "children n"] by blast+
  then have pre: "shapePre ?ch" using shape_split by blast
  have "setsEntry ?ch q v (fst (k nx ?ch))"
    using k(2) find(2) [OF i(2)] pre ch(2) by (intro visitOkD [OF k(1)]) simp_all
  then have "setsEntry n (canonPat ?ch @ q) v (fst (putChild n i (k nx ?ch)))"
    using n(2) by (intro putChild_visit [OF n(1) _ n(3) i(1) refl refl refl pre]) simp_all
  then show ?thesis using Some find(3) [OF i(2)] by simp
qed

lemma insertChild_ok:
  fixes n :: "'h node"
  assumes k: "visitOk P k q v" "P (kind seg)" and seg: "kind seg = Static \<longrightarrow> segText seg \<noteq> []"
    and n: "shapePre n" "forestOk (children n)" "nextOk (nType n) (seg # segs)"
  shows "setsEntry n (map canon (segPat seg) @ q) v (fst (insertChild nx n seg k))"
proof (cases "kind seg")
  case Static
  then show ?thesis
    using insertStatic_ok [OF k(1), of "segText seg" n nx] k(2) seg n
    by (cases "nType n") (simp_all add: insertChild_def segPat_def comp_def)
next
  case Param
  let ?new = "Node nx [] [] Param None (drop 1 (segText seg)) [] False :: 'h node"
  have t: "nType n = Static" using n(3) Param by (cases "nType n") simp_all
  have "setsEntry n (canonPat ?new @ q) v
    (fst (case findIndex (\<lambda>ch. nType ch = Param \<and> paramKey ch = drop 1 (segText seg)) (children n) of
            Some i \<Rightarrow> putChild n i (k nx (children n ! i))
          | None \<Rightarrow> newChild n (k (nx + 1) ?new)))"
    by (rule insertKeyed_ok [OF n(1) t n(2) k(1) _ refl])
      (use k(2) Param in \<open>auto simp: shapePre_def nodeKey_def nodePat_def split: nodeType.splits\<close>)
  then show ?thesis using Param by (simp add: insertChild_def segPat_def nodePat_def Let_def del: One_nat_def)
next
  case CatchAll
  let ?new = "Node nx [] [] CatchAll None (drop 1 (segText seg)) [] False :: 'h node"
  have t: "nType n = Static" using n(3) CatchAll by (cases "nType n") simp_all
  have "setsEntry n (canonPat ?new @ q) v
    (fst (case findIndex (\<lambda>ch. nType ch = CatchAll) (children n) of
            Some i \<Rightarrow> putChild n i (k nx (children n ! i))
          | None \<Rightarrow> newChild n (k (nx + 1) ?new)))"
    by (rule insertKeyed_ok [OF n(1) t n(2) k(1) _ refl])
      (use k(2) CatchAll in \<open>auto simp: shapePre_def nodeKey_def nodePat_def split: nodeType.splits\<close>)
  then show ?thesis using CatchAll by (simp add: insertChild_def segPat_def nodePat_def Let_def del: One_nat_def)
qed

lemma insertSegs_ok:
  assumes "segsOk segs" "visitOk (\<lambda>_. True) k [] v"
  shows "visitOk (\<lambda>t. nextOk t segs) (insertSegs segs k) (map canon (concat (map segPat segs))) v"
  using assms
proof (induction segs)
  case Nil
  then show ?case by (simp add: visitOk_def)
next
  case (Cons seg segs)
  then have ih: "visitOk (\<lambda>t. nextOk t segs) (insertSegs segs k) (map canon (concat (map segPat segs))) v" by simp
  show ?case
    unfolding visitOk_def
    using insertChild_ok [OF ih, of seg _ segs] Cons.prems(1) by simp
qed

section \<open>Paths\<close>

lemma splitLoop_ok: "segsOk (splitLoop p) \<and> concat (map segText (splitLoop p)) = p"
proof (induction p rule: splitLoop.induct)
  case 1
  then show ?case by (simp add: splitLoop.simps)
next
  case (2 c cs)
  let ?p = "c # cs" and ?e = "findSegmentEnd (c # cs)"
  consider (colon) "c = cColon" | (star) "c \<noteq> cColon" "c = cStar" | (lit) "c \<noteq> cColon" "c \<noteq> cStar" by blast
  then show ?case
  proof cases
    case colon
    have rest: "drop ?e ?p = [] \<or> hd (drop ?e ?p) = cSlash"
      unfolding findSegmentEnd_def dropWhile_eq_drop [symmetric] using hd_dropWhile by blast
    show ?thesis
    proof (cases "drop ?e ?p")
      case Nil
      then have "splitLoop ?p = [Segment Param (take ?e ?p)]" using colon by (subst splitLoop.simps) (simp add: Let_def)
      moreover have "take ?e ?p = ?p" using Nil by (metis append_Nil2 append_take_drop_id)
      ultimately show ?thesis by simp
    next
      case (Cons d rest')
      then have d: "d = cSlash" using rest by simp
      have eq: "splitLoop ?p = Segment Param (take ?e ?p) # Segment Static [cSlash] # splitLoop rest'"
        using colon Cons d by (subst splitLoop.simps) (simp add: Let_def)
      have "segsOk (splitLoop rest') \<and> concat (map segText (splitLoop rest')) = rest'"
        using 2(1) [OF refl colon refl refl Cons d] .
      moreover have "take ?e ?p @ cSlash # rest' = ?p" using Cons d by (metis append_take_drop_id)
      ultimately show ?thesis by (simp add: eq)
    qed
  next
    case star
    then have "splitLoop ?p = [Segment CatchAll ?p]" by (subst splitLoop.simps) simp
    then show ?thesis by simp
  next
    case lit
    let ?f = "length (takeWhile (\<lambda>d. d \<noteq> cColon \<and> d \<noteq> cStar) ?p)"
    have eq: "splitLoop ?p = Segment Static (take ?f ?p) # splitLoop (drop ?f ?p)"
      using lit by (subst splitLoop.simps) (simp add: Let_def)
    have "segsOk (splitLoop (drop ?f ?p)) \<and> concat (map segText (splitLoop (drop ?f ?p))) = drop ?f ?p"
      using 2(3) [OF refl lit refl] .
    moreover have "take ?f ?p \<noteq> []" using lit by simp
    ultimately show ?thesis unfolding eq by (simp del: take_Suc_Cons)
  qed
qed

definition pathPat :: "gostring \<Rightarrow> tok list" where
  "pathPat p = concat (map segPat (splitPath p))"

abbreviation pathKey :: "gostring \<Rightarrow> tok list" where "pathKey p \<equiv> map canon (pathPat p)"

definition rootOk :: "'h node \<Rightarrow> bool" where
  "rootOk n \<longleftrightarrow> nType n = Static \<and> path n \<noteq> [] \<and> forestOk (children n)"

lemma splitPath_ok: "segsOk (splitPath p)"
  using splitLoop_ok by (simp add: splitPath_def)

lemma register_ok:
  assumes "rootOk n"
  shows "rootOk (fst (insertSegs (splitPath p) (setRoute h p as) nx n))"
    and "absNode (fst (insertSegs (splitPath p) (setRoute h p as) nx n)) = upd (pathKey p) (h, p) (absNode n)"
proof -
  have "visitOk (\<lambda>t. nextOk t (splitPath p)) (insertSegs (splitPath p) (setRoute h p as)) (pathKey p) (h, p)"
    unfolding pathPat_def by (rule insertSegs_ok [OF splitPath_ok setRoute_ok])
  from visitOkD [OF this, of n nx]
  have *: "setsEntry n (pathKey p) (h, p) (fst (insertSegs (splitPath p) (setRoute h p as) nx n))"
    using assms by (simp add: rootOk_def shapePre_def)
  show "rootOk (fst (insertSegs (splitPath p) (setRoute h p as) nx n))"
    using * assms unfolding setsEntry_def rootOk_def sameHead_def by metis
  show "absNode (fst (insertSegs (splitPath p) (setRoute h p as) nx n)) = upd (pathKey p) (h, p) (absNode n)"
    using * by (simp add: setsEntry_def)
qed

text \<open>The catch-all's own key does not matter to what matches, only to the name of its parameter.\<close>

lemma matches_canon:
  "matches a p ps \<Longrightarrow> map canon a = map canon b
    \<Longrightarrow> \<exists>ps'. matches b p ps' \<and> map snd ps' = map snd ps \<and> (Cat [] \<notin> set (map canon a) \<longrightarrow> ps' = ps)"
proof (induction a p ps arbitrary: b rule: matches.induct)
  case (2 c t p ps)
  then obtain b' where b: "b = Lit c # b'" "map canon t = map canon b'" by (cases b; cases "hd b") auto
  obtain p' where "p = c # p'" "matches t p' ps" using 2(2) by (auto split: list.splits)
  then show ?case using 2(1) [of c p' b'] b by auto
next
  case (3 k t p ps)
  then obtain b' where b: "b = Par k # b'" "map canon t = map canon b'" by (cases b; cases "hd b") auto
  let ?e = "findSegmentEnd p"
  obtain ps1 where ps1: "?e \<noteq> 0" "ps = (k, take ?e p) # ps1" "matches t (drop ?e p) ps1"
    using 3(2) by (auto simp: Let_def split: list.splits)
  obtain ps' where "matches b' (drop ?e p) ps'" "map snd ps' = map snd ps1" "Cat [] \<notin> set (map canon t) \<longrightarrow> ps' = ps1"
    using 3(1) [OF refl ps1(2) refl ps1(3) b(2)] by blast
  then show ?case using ps1 b by (intro exI [of _ "(k, take ?e p) # ps'"]) simp
next
  case (4 k t p ps)
  then obtain k' where "b = [Cat k']" by (cases b; cases "hd b") auto
  then show ?case using 4 by simp
qed auto

subsection \<open>A fully literal route is found first\<close>

lemma absChild_entries: "absNode n = absOwn n \<union> (\<lambda>(p, h, fp, as). (map canon p, h, fp)) ` set (entriesCh (children n))"
  by (auto simp: absNode_def nodeEntries_def ownEntry_def absOwn_def nodeFound_def split: option.splits)

lemma lits_prefix: "map Lit a @ q = map Lit p \<Longrightarrow> prefix a p \<and> q = map Lit (drop (length a) p)"
  by (induction a arbitrary: p) (auto simp: Cons_eq_map_conv)

lemma searchCh_literal:
  assumes "forestOk chs" "p \<noteq> []" "(map Lit p, x) \<in> set (entriesCh chs)"
  shows "searchCh chs p ps = (Some x, ps)"
  using assms
proof (induction chs arbitrary: p rule: entriesCh.induct)
  case 1
  then show ?case by simp
next
  case (2 ch chs)
  have all: "siblings (ch # chs)" "\<And>c. c \<in> set (ch # chs) \<Longrightarrow> shapeOk c \<and> forestOk (children c)"
    using 2(3) forestOk.simps [of "ch # chs"] by blast+
  have tl: "forestOk chs" unfolding forestOk.simps [of chs] using all by (simp add: siblings_def)
  have headStatic: "nType c = Static \<and> path c \<noteq> [] \<and> hd (path c) = hd p"
    if c: "c \<in> set (ch # chs)" "map Lit p = nodePat c @ q" for c q
  proof -
    have "shapeOk c" using all(2) c(1) by blast
    then show ?thesis using c(2) 2(4)
      by (cases p; cases "path c"; cases "nType c") (auto simp: shapeOk_def nodePat_def)
  qed
  obtain c q where c: "c \<in> set (ch # chs)" "map Lit p = nodePat c @ q" "(q, x) \<in> set (nodeEntries c)"
    using 2(5) entriesCh_set [of "map Lit p" x "ch # chs"] by blast
  note cs = headStatic [OF c(1,2)]
  have ty: "nType ch = Static"
    using all(1) c(1) cs by (cases "nType ch") (auto simp: siblings_def dest!: bspec)
  show ?case
  proof (cases "c = ch")
    case True
    have q: "prefix (path ch) p" "q = map Lit (drop (length (path ch)) p)"
      using lits_prefix [of "path ch" q p] c(2) ty True by (simp_all add: nodePat_def)
    show ?thesis
    proof (cases "drop (length (path ch)) p = []")
      case True
      then have "(q, x) \<in> set (ownEntry ch)"
      proof -
        have "q \<noteq> nodePat c' @ q'" if "c' \<in> set (children ch)" for c' q'
          using True q(2) nodePat_nonempty [of c'] that all(2) [of ch] forestOk.simps [of "children ch"] by auto
        then have "(q, x) \<notin> set (entriesCh (children ch))" unfolding entriesCh_set by blast
        then show ?thesis using c(3) \<open>c = ch\<close> by (simp add: nodeEntries_def)
      qed
      then have "nodeFound ch = Some x" by (auto simp: ownEntry_def split: option.splits)
      then show ?thesis using True ty q(1) by (subst searchCh.simps) (auto simp: Let_def nodeFound_def)
    next
      case False
      then have "(q, x) \<in> set (entriesCh (children ch))"
        using c(3) q(2) \<open>c = ch\<close> by (auto simp: nodeEntries_def ownEntry_def split: option.splits)
      then have "searchCh (children ch) (drop (length (path ch)) p) ps = (Some x, ps)"
        using 2(1) [of "drop (length (path ch)) p"] all(2) [of ch] False q(2) by simp
      then show ?thesis using False ty q(1) by (subst searchCh.simps) (simp add: Let_def)
    qed
  next
    case False
    then have c': "c \<in> set chs" using c(1) by simp
    have "nodeKey ch \<noteq> nodeKey c" using all(1) c' by (auto simp: siblings_def)
    moreover have "nodeKey c = Lit (hd p)" using cs by (simp add: nodeKey_def)
    ultimately have "\<not> prefix (path ch) p"
      using ty all(2) [of ch] by (cases "path ch") (auto simp: nodeKey_def shapeOk_def elim: prefixE)
    moreover have "(map Lit p, x) \<in> set (entriesCh chs)" using c' c(2,3) by (auto simp: entriesCh_set)
    ultimately show ?thesis using 2(2) [OF tl 2(4)] ty by (subst searchCh.simps) simp
  qed
qed

subsection \<open>Patterns of paths\<close>

lemma splitPath_texts: "hd p = cSlash \<Longrightarrow> p \<noteq> [] \<Longrightarrow> concat (map segText (splitPath p)) = drop 1 p"
  using splitLoop_ok by (simp add: splitPath_def)

lemma canon_Lit: "canon t = Lit c \<longleftrightarrow> t = Lit c"
  by (cases t) auto

lemma canon_lits: "map canon q = map Lit s \<longleftrightarrow> q = map Lit s"
  by (induction q arbitrary: s) (auto simp: Cons_eq_map_conv canon_Lit)

lemma segs_literal: "concat (map segPat segs) = map Lit s \<Longrightarrow> concat (map segText segs) = s"
proof (induction segs arbitrary: s)
  case (Cons seg segs)
  show ?case
  proof (cases "kind seg")
    case Static
    then have "map Lit (segText seg) @ concat (map segPat segs) = map Lit s" using Cons.prems by (simp add: segPat_def [of seg])
    from lits_prefix [OF this] show ?thesis using Cons.IH by (auto elim: prefixE)
  qed (use Cons.prems in \<open>auto simp: segPat_def Cons_eq_map_conv\<close>)
qed simp

lemma pathKey_literal:
  assumes "pathKey p = map Lit s" "p \<noteq> []" "hd p = cSlash"
  shows "p = cSlash # s"
proof -
  have "drop 1 p = s" using assms segs_literal [of "splitPath p" s] splitPath_texts [of p] by (simp add: canon_lits pathPat_def)
  then show ?thesis using assms(2,3) by (cases p) auto
qed

lemma pathPat_static:
  assumes "list_all (\<lambda>c. \<not> (c = cColon \<or> c = cStar)) p"
  shows "pathPat p = map Lit (drop 1 p)"
proof -
  have "splitLoop s = (if s = [] then [] else [Segment Static s])" if "list_all (\<lambda>c. \<not> (c = cColon \<or> c = cStar)) s" for s
  proof (cases s)
    case (Cons c cs)
    have "takeWhile (\<lambda>d. d \<noteq> cColon \<and> d \<noteq> cStar) cs = cs"
      using that Cons by (simp add: takeWhile_eq_all_conv list_all_iff)
    then show ?thesis using that Cons by (subst Cons, subst splitLoop.simps) (simp add: Let_def splitLoop.simps(1) del: takeWhile_eq_all_conv)
  qed (simp add: splitLoop.simps)
  moreover have "list_all (\<lambda>c. \<not> (c = cColon \<or> c = cStar)) (drop 1 p)" using assms by (cases p) auto
  ultimately show ?thesis by (auto simp: pathPat_def splitPath_def segPat_def)
qed

end
