(* ===== verification/Router_Adaptive.thy ===== *)
theory Router_Adaptive
  imports Prelude
begin

text \<open>
  The adaptive dispatch classifier of the router (\<^verbatim>\<open>router.go\<close>, with its thresholds from
  \<^verbatim>\<open>handler.go\<close>): a route that inherits the async default runs inline, is promoted to its own
  goroutine when it blocks, and is settled when it never does. The clock readings and the measured
  durations are arguments. The two counters are int32 cells; a map entry is None where the code has
  stored no cell. The last section looks at the two atomic steps of the fast counter separately.
\<close>

section \<open>Definitions\<close>

definition adaptivePromoteThreshold :: int where "adaptivePromoteThreshold = 300 * 1000"
definition adaptiveBlockingThreshold :: int where "adaptiveBlockingThreshold = 2 * 1000 * 1000"
definition adaptivePromoteStreak :: int where "adaptivePromoteStreak = 8"
definition adaptiveSettleStreak :: int where "adaptiveSettleStreak = 256"
definition adaptivePromoteTTL :: int where "adaptivePromoteTTL = 5 * 1000 * 1000 * 1000"

record adaptive =
  promoted :: "gostring \<Rightarrow> int option"
  slowStreak :: "gostring \<Rightarrow> int option"
  fastStreak :: "gostring \<Rightarrow> int option"
  settled :: "gostring \<Rightarrow> bool"

definition freshAdaptive :: adaptive where
  "freshAdaptive = \<lparr>promoted = (\<lambda>_. None), slowStreak = (\<lambda>_. None), fastStreak = (\<lambda>_. None), settled = (\<lambda>_. False)\<rparr>"

text \<open>Storing into a counter that exists, and loading one or storing a new zero cell.\<close>

definition storeCell :: "int \<Rightarrow> gostring \<Rightarrow> (gostring \<Rightarrow> int option) \<Rightarrow> gostring \<Rightarrow> int option" where
  "storeCell v p m = (case m p of None \<Rightarrow> m | Some _ \<Rightarrow> m(p \<mapsto> v))"

definition loadCell :: "gostring \<Rightarrow> (gostring \<Rightarrow> int option) \<Rightarrow> int" where
  "loadCell p m = (case m p of None \<Rightarrow> 0 | Some v \<Rightarrow> v)"

definition isPromoted :: "int \<Rightarrow> gostring \<Rightarrow> adaptive \<Rightarrow> bool \<times> adaptive" where
  "isPromoted now p a =
     (case promoted a p of
        None \<Rightarrow> (False, a)
      | Some v \<Rightarrow>
          if wrap64 (now - v) > adaptivePromoteTTL then
            (False, a\<lparr>promoted := (promoted a)(p := None), slowStreak := storeCell 0 p (slowStreak a)\<rparr>)
          else (True, a))"

definition promoteRoute :: "int \<Rightarrow> gostring \<Rightarrow> adaptive \<Rightarrow> adaptive" where
  "promoteRoute now p a = a\<lparr>promoted := (promoted a)(p \<mapsto> now)\<rparr>"

definition promoteRouteImmediate :: "int \<Rightarrow> gostring \<Rightarrow> adaptive \<Rightarrow> adaptive" where
  "promoteRouteImmediate now p a = promoteRoute now p (a\<lparr>fastStreak := storeCell 0 p (fastStreak a)\<rparr>)"

definition recordInlineRun :: "int \<Rightarrow> gostring \<Rightarrow> bool \<Rightarrow> adaptive \<Rightarrow> adaptive" where
  "recordInlineRun now p slow a =
     (if \<not> slow then
        let a1 = a\<lparr>slowStreak := storeCell 0 p (slowStreak a)\<rparr>;
            c = wrap32 (loadCell p (fastStreak a1) + 1)
        in if c \<ge> adaptiveSettleStreak
           then a1\<lparr>fastStreak := (fastStreak a1)(p \<mapsto> adaptiveSettleStreak), settled := (settled a1)(p := True)\<rparr>
           else a1\<lparr>fastStreak := (fastStreak a1)(p \<mapsto> c)\<rparr>
      else
        let a1 = a\<lparr>fastStreak := storeCell 0 p (fastStreak a)\<rparr>;
            c = wrap32 (loadCell p (slowStreak a1) + 1);
            a2 = a1\<lparr>slowStreak := (slowStreak a1)(p \<mapsto> c)\<rparr>
        in if c \<ge> adaptivePromoteStreak then promoteRoute now p a2 else a2)"

definition adaptiveLearning :: "int \<Rightarrow> gostring \<Rightarrow> adaptive \<Rightarrow> bool \<times> adaptive" where
  "adaptiveLearning now p a =
     (if settled a p then (False, a) else case isPromoted now p a of (b, a') \<Rightarrow> (\<not> b, a'))"

definition reopenSettled :: "adaptive \<Rightarrow> adaptive" where
  "reopenSettled a = a\<lparr>settled := (\<lambda>_. False)\<rparr>"

text \<open>
  What \<^verbatim>\<open>HandleStream\<close> does around one inline run of an adaptive route: \<open>now\<close> is the clock when
  the run is considered, \<open>dur\<close> its duration, \<open>now'\<close> the clock when it is promoted.
\<close>

definition timedRun :: "int \<Rightarrow> int \<Rightarrow> int \<Rightarrow> gostring \<Rightarrow> adaptive \<Rightarrow> adaptive" where
  "timedRun now dur now' p a =
     (case adaptiveLearning now p a of
        (learning, a1) \<Rightarrow>
          if learning then
            (if dur > adaptiveBlockingThreshold then promoteRouteImmediate now' p a1
             else recordInlineRun now' p (dur > adaptivePromoteThreshold) a1)
          else a1)"

text \<open>What \<^verbatim>\<open>setAsync\<close> clears when an explicit choice replaces the adaptive one.\<close>

definition clearAdaptive :: "gostring \<Rightarrow> adaptive \<Rightarrow> adaptive" where
  "clearAdaptive p a = \<lparr>promoted = (promoted a)(p := None), slowStreak = (slowStreak a)(p := None),
     fastStreak = (fastStreak a)(p := None), settled = (settled a)(p := False)\<rparr>"

lemmas adaptive_defs = isPromoted_def promoteRoute_def promoteRouteImmediate_def recordInlineRun_def
  adaptiveLearning_def reopenSettled_def timedRun_def clearAdaptive_def storeCell_def loadCell_def
  adaptivePromoteThreshold_def adaptiveBlockingThreshold_def adaptivePromoteStreak_def
  adaptiveSettleStreak_def adaptivePromoteTTL_def

section \<open>Streaks\<close>

text \<open>The length of the run of \<open>b\<close> at the end of a sequence.\<close>

definition trailing :: "bool \<Rightarrow> bool list \<Rightarrow> nat" where
  "trailing b xs = length (takeWhile (\<lambda>x. x = b) (rev xs))"


lemma trailing_Nil [simp]: "trailing b [] = 0"
  by (simp add: trailing_def)







section \<open>What the classifier decides\<close>







section \<open>Invariant and liveness\<close>

text \<open>The states the router reaches: timed runs, dispatch queries, re-openings, explicit choices.\<close>

inductive adaptReach :: "adaptive \<Rightarrow> bool" where
  fresh: "adaptReach freshAdaptive"
| run: "adaptReach a \<Longrightarrow> adaptReach (timedRun now dur now' p a)"
| query: "adaptReach a \<Longrightarrow> adaptReach (snd (isPromoted now p a))"
| reopen: "adaptReach a \<Longrightarrow> adaptReach (reopenSettled a)"
| clear: "adaptReach a \<Longrightarrow> adaptReach (clearAdaptive p a)"

definition routeInv :: "int option \<Rightarrow> int \<Rightarrow> int \<Rightarrow> bool \<Rightarrow> bool" where
  "routeInv pr slow fast st \<longleftrightarrow>
     0 \<le> slow \<and> slow \<le> adaptivePromoteStreak \<and> (pr = None \<longrightarrow> slow < adaptivePromoteStreak)
     \<and> 0 \<le> fast \<and> fast \<le> adaptiveSettleStreak \<and> (st \<longrightarrow> fast = adaptiveSettleStreak)
     \<and> (slow = 0 \<or> fast = 0)"

definition adaptInv :: "adaptive \<Rightarrow> bool" where
  "adaptInv a \<longleftrightarrow>
     (\<forall>p. routeInv (promoted a p) (loadCell p (slowStreak a)) (loadCell p (fastStreak a)) (settled a p))"

lemma cell_simps [simp]:
  "loadCell q (storeCell 0 p m) = (if q = p then 0 else loadCell q m)"
  "loadCell q (m(p \<mapsto> v)) = (if q = p then v else loadCell q m)"
  "loadCell q (m(p := None)) = (if q = p then 0 else loadCell q m)"
  by (auto simp: storeCell_def loadCell_def split: option.splits)

lemma isPromoted_inv: "adaptInv a \<Longrightarrow> adaptInv (snd (isPromoted now p a))"
  by (auto simp: adaptInv_def isPromoted_def routeInv_def adaptivePromoteStreak_def split: option.splits)

lemma recordInlineRun_inv:
  assumes "adaptInv a" "\<not> settled a p" "promoted a p = None"
  shows "adaptInv (recordInlineRun now p slow a)"
proof -
  have inv: "routeInv (promoted a q) (loadCell q (slowStreak a)) (loadCell q (fastStreak a)) (settled a q)" for q
    using assms(1) by (simp add: adaptInv_def)
  have w: "wrap32 (loadCell p (slowStreak a) + 1) = loadCell p (slowStreak a) + 1"
    "wrap32 (loadCell p (fastStreak a) + 1) = loadCell p (fastStreak a) + 1"
    using inv [of p] by (auto simp: routeInv_def adaptivePromoteStreak_def adaptiveSettleStreak_def intro!: wrap32_id)
  let ?b = "recordInlineRun now p slow a"
  have "routeInv (promoted ?b q) (loadCell q (slowStreak ?b)) (loadCell q (fastStreak ?b)) (settled ?b q)" for q
    using inv [of q] inv [of p] w assms(2,3)
    by (cases slow; cases "q = p")
      (simp_all add: recordInlineRun_def Let_def promoteRoute_def routeInv_def
        adaptivePromoteStreak_def adaptiveSettleStreak_def)
  then show ?thesis by (simp add: adaptInv_def)
qed

lemma learning_state:
  assumes "adaptiveLearning now p a = (True, a1)"
  shows "\<not> settled a1 p" "promoted a1 p = None" "a1 = snd (isPromoted now p a)"
  using assms by (auto simp: adaptiveLearning_def isPromoted_def split: if_splits option.splits prod.splits)

lemma timedRun_inv:
  assumes "adaptInv a"
  shows "adaptInv (timedRun now dur now' p a)"
proof (cases "adaptiveLearning now p a")
  case (Pair l a1)
  have a1: "adaptInv a1"
    using assms Pair isPromoted_inv [OF assms, of now p] by (auto simp: adaptiveLearning_def split: if_splits prod.splits)
  have imm: "adaptInv (promoteRouteImmediate now' p a1)" if "\<not> settled a1 p"
    using a1 that by (auto simp: adaptInv_def promoteRouteImmediate_def promoteRoute_def routeInv_def
        adaptivePromoteStreak_def adaptiveSettleStreak_def)
  show ?thesis
    using a1 imm recordInlineRun_inv [OF a1] learning_state [of now p a a1] Pair
    by (cases l) (simp_all add: timedRun_def)
qed

lemma adapt_init: "adaptInv freshAdaptive"
  by (simp add: adaptInv_def routeInv_def freshAdaptive_def loadCell_def adaptivePromoteStreak_def adaptiveSettleStreak_def)

lemma adapt_reopen: "adaptInv a \<Longrightarrow> adaptInv (reopenSettled a)"
  by (simp add: adaptInv_def reopenSettled_def routeInv_def)

lemma adapt_clear: "adaptInv a \<Longrightarrow> adaptInv (clearAdaptive p a)"
  by (simp add: adaptInv_def clearAdaptive_def routeInv_def adaptivePromoteStreak_def adaptiveSettleStreak_def)

lemma adaptReach_inv: "adaptReach a \<Longrightarrow> adaptInv a"
  by (induction rule: adaptReach.induct) (simp_all add: timedRun_inv isPromoted_inv adapt_init adapt_reopen adapt_clear)

text \<open>
  The counters stay in range. In every state the classifier reaches, the slow streak is between 0
  and 8 and below 8 while the route is not promoted, the fast streak is between 0 and 256, a settled
  route has a full fast streak (so the first fast run after a re-opening settles it again), and the two
  streaks are never both running.
\<close>

lemma adaptive_invariant:
  assumes "adaptReach a"
  shows "case (loadCell p (slowStreak a), loadCell p (fastStreak a)) of (slow, fast) \<Rightarrow>
      0 \<le> slow \<and> slow \<le> adaptivePromoteStreak \<and> (promoted a p = None \<longrightarrow> slow < adaptivePromoteStreak)
      \<and> 0 \<le> fast \<and> fast \<le> adaptiveSettleStreak \<and> (settled a p \<longrightarrow> fast = adaptiveSettleStreak)
      \<and> (slow = 0 \<or> fast = 0)"
  using adaptReach_inv [OF assms(1)] unfolding adaptInv_def routeInv_def by simp

definition exampleAdaptive :: adaptive where
  "exampleAdaptive = timedRun 7 400000 8 (str ''/a'') (reopenSettled (timedRun 5 10 6 (str ''/a'') freshAdaptive))"

lemma exampleAdaptive_reach: "adaptReach exampleAdaptive"
  unfolding exampleAdaptive_def by (intro adaptReach.intros)

text \<open>Within a window of one TTL a promotion holds.\<close>

lemma promoted_window:
  assumes "promoted a p = Some v" "T \<le> v" "v \<le> T + adaptivePromoteTTL" "T \<le> t" "t \<le> T + adaptivePromoteTTL"
  shows "fst (isPromoted t p a)"
proof -
  have "wrap64 (t - v) = t - v" using assms by (intro wrap64_id) (simp_all add: MinInt64_def MaxInt64_def adaptivePromoteTTL_def)
  then show ?thesis using assms by (simp add: isPromoted_def)
qed

definition slowRuns :: "gostring \<Rightarrow> (int \<times> int \<times> int) list \<Rightarrow> adaptive \<Rightarrow> adaptive" where
  "slowRuns p rs a = foldl (\<lambda>a (now, dur, now'). timedRun now dur now' p a) a rs"

lemma slowRuns_snoc: "slowRuns p (rs @ [(now, dur, now')]) a = timedRun now dur now' p (slowRuns p rs a)"
  by (simp add: slowRuns_def)

lemma slow_step:
  assumes "adaptInv a" "\<not> settled a p" "\<not> fst (isPromoted now p a)" "dur > adaptivePromoteThreshold"
  shows "\<not> settled (timedRun now dur now' p a) p
    \<and> (promoted (timedRun now dur now' p a) p = Some now'
       \<or> (promoted (timedRun now dur now' p a) p = None
          \<and> loadCell p (slowStreak (timedRun now dur now' p a)) = (if promoted a p = None then loadCell p (slowStreak a) else 0) + 1))"
proof -
  have inv: "routeInv (promoted a p) (loadCell p (slowStreak a)) (loadCell p (fastStreak a)) (settled a p)"
    using assms(1) by (simp add: adaptInv_def)
  obtain a1 where a1: "isPromoted now p a = (False, a1)" using assms(3) by (cases "isPromoted now p a") simp
  have s: "\<not> settled a1 p" "promoted a1 p = None"
    "loadCell p (slowStreak a1) = (if promoted a p = None then loadCell p (slowStreak a) else 0)"
    using a1 assms(2) by (auto simp: isPromoted_def split: option.splits if_splits)
  have w: "wrap32 (loadCell p (slowStreak a1) + 1) = loadCell p (slowStreak a1) + 1"
    using inv s(3) by (intro wrap32_id) (auto simp: routeInv_def adaptivePromoteStreak_def)
  show ?thesis using a1 s w assms(2,4)
    by (simp add: timedRun_def adaptiveLearning_def promoteRouteImmediate_def promoteRoute_def recordInlineRun_def Let_def)
qed

lemma timedRun_reach: "adaptInv a \<Longrightarrow> adaptInv (slowRuns p rs a)"
  by (induction rs rule: rev_induct) (auto simp: slowRuns_snoc timedRun_inv, simp add: slowRuns_def)

definition inWindow :: "int \<Rightarrow> int \<Rightarrow> bool" where
  "inWindow T t \<longleftrightarrow> T \<le> t \<and> t \<le> T + adaptivePromoteTTL"

lemma slowRuns_state:
  assumes "adaptInv a" "\<not> settled a p"
    and "\<forall>(now, dur, now') \<in> set rs. dur > adaptivePromoteThreshold \<and> inWindow T now \<and> inWindow T now'"
    and "\<forall>i < length rs. \<not> fst (isPromoted (fst (rs ! i)) p (slowRuns p (take i rs) a))"
  shows "\<not> settled (slowRuns p rs a) p \<and> (rs \<noteq> [] \<longrightarrow>
    (\<exists>v. promoted (slowRuns p rs a) p = Some v \<and> inWindow T v)
    \<or> (promoted (slowRuns p rs a) p = None \<and> int (length rs) \<le> loadCell p (slowStreak (slowRuns p rs a))))"
  using assms(3,4)
proof (induction rs rule: rev_induct)
  case Nil
  then show ?case using assms(2) by (simp add: slowRuns_def)
next
  case (snoc x rs)
  obtain now dur now' where x: "x = (now, dur, now')" by (cases x)
  let ?a = "slowRuns p rs a"
  have inv: "adaptInv ?a" by (rule timedRun_reach [OF assms(1)])
  have "\<forall>i < length rs. \<not> fst (isPromoted (fst (rs ! i)) p (slowRuns p (take i rs) a))"
  proof (intro allI impI)
    fix i assume "i < length rs"
    then show "\<not> fst (isPromoted (fst (rs ! i)) p (slowRuns p (take i rs) a))"
      using snoc.prems(2) [rule_format, of i] by (simp add: nth_append)
  qed
  then have ih: "\<not> settled ?a p" "rs \<noteq> [] \<Longrightarrow> (\<exists>v. promoted ?a p = Some v \<and> inWindow T v)
      \<or> (promoted ?a p = None \<and> int (length rs) \<le> loadCell p (slowStreak ?a))"
    using snoc by auto
  have np: "\<not> fst (isPromoted now p ?a)" using snoc.prems(2) [rule_format, of "length rs"] by (simp add: x)
  have win: "dur > adaptivePromoteThreshold" "inWindow T now" "inWindow T now'" using snoc.prems(1) x by auto
  have "promoted ?a p = None \<and> int (length rs) \<le> loadCell p (slowStreak ?a) \<or> rs = []"
    using ih(2) np win promoted_window [of ?a p _ T now] by (auto simp: inWindow_def)
  moreover have "0 \<le> loadCell p (slowStreak ?a)" using inv by (auto simp: adaptInv_def routeInv_def)
  ultimately show ?case using slow_step [OF inv ih(1) np win(1), of now'] win(3)
    by (auto simp: x slowRuns_snoc split: if_splits)
qed

text \<open>
  C25. A route that blocks is taken off the event loop. From every reachable state in which the route is
  not settled, if eight consecutive requests within one promotion TTL all run longer than the
  threshold, then one of them was itself dispatched async, or the next request in that window is.
\<close>

theorem blocking_route_promotes:
  assumes "adaptReach a" "\<not> settled a p" "length rs = 8" "inWindow T t"
    and "\<forall>(now, dur, now') \<in> set rs. dur > adaptivePromoteThreshold \<and> inWindow T now \<and> inWindow T now'"
  shows "(\<exists>i < 8. fst (isPromoted (fst (rs ! i)) p (slowRuns p (take i rs) a)))
    \<or> fst (isPromoted t p (slowRuns p rs a))"
proof (cases "\<exists>i < 8. fst (isPromoted (fst (rs ! i)) p (slowRuns p (take i rs) a))")
  case False
  then have none: "\<not> (\<exists>i < 8. fst (isPromoted (fst (rs ! i)) p (slowRuns p (take i rs) a)))" .
  let ?a = "slowRuns p rs a"
  have a: "adaptInv a" by (rule adaptReach_inv [OF assms(1)])
  have inv: "adaptInv ?a" by (rule timedRun_reach [OF a])
  have "routeInv (promoted ?a p) (loadCell p (slowStreak ?a)) (loadCell p (fastStreak ?a)) (settled ?a p)"
    using inv by (simp add: adaptInv_def)
  moreover have "rs \<noteq> []" using assms(3) by auto
  ultimately obtain v where "promoted ?a p = Some v" "inWindow T v"
    using slowRuns_state [OF a assms(2,5)] none assms(3) by (auto simp: routeInv_def adaptivePromoteStreak_def)
  then have "fst (isPromoted t p ?a)" using assms(4) promoted_window [of ?a p v T t] by (simp add: inWindow_def)
  then show ?thesis ..
qed blast

theorem blocking_route_promotes_witness:
  "\<not> settled exampleAdaptive (str ''/a'')
   \<and> ((\<exists>i < 8. fst (isPromoted (fst (replicate 8 (9, 400000 :: int, 10 :: int) ! i)) (str ''/a'')
          (slowRuns (str ''/a'') (take i (replicate 8 (9, 400000, 10))) exampleAdaptive)))
     \<or> fst (isPromoted 11 (str ''/a'') (slowRuns (str ''/a'') (replicate 8 (9, 400000, 10)) exampleAdaptive)))"
proof -
  have "\<not> settled exampleAdaptive (str ''/a'')"
    by (simp add: exampleAdaptive_def freshAdaptive_def adaptive_defs wrap32_def)
  then show ?thesis
    using blocking_route_promotes [OF exampleAdaptive_reach, of "str ''/a''" "replicate 8 (9, 400000, 10)" 0 11]
    by (simp add: inWindow_def adaptivePromoteTTL_def adaptivePromoteThreshold_def)
qed

section \<open>The fast counter under concurrency\<close>

text \<open>
  A fast run increments the counter and, at the threshold, stores it back in a second atomic step; a
  slow run stores zero. Up to \<open>W\<close> runs are in flight. \<open>pend\<close> counts those between the two steps.
\<close>

record fastCell =
  cell :: int
  pend :: nat

inductive fastStep :: "nat \<Rightarrow> fastCell \<Rightarrow> fastCell \<Rightarrow> bool" for W where
  add_low: "wrap32 (cell s + 1) < adaptiveSettleStreak \<Longrightarrow> fastStep W s (s\<lparr>cell := wrap32 (cell s + 1)\<rparr>)"
| add_high: "wrap32 (cell s + 1) \<ge> adaptiveSettleStreak \<Longrightarrow> pend s < W
     \<Longrightarrow> fastStep W s (s\<lparr>cell := wrap32 (cell s + 1), pend := pend s + 1\<rparr>)"
| clamp: "pend s > 0 \<Longrightarrow> fastStep W s (s\<lparr>cell := adaptiveSettleStreak, pend := pend s - 1\<rparr>)"
| slow_run: "fastStep W s (s\<lparr>cell := 0\<rparr>)"

inductive fastReach :: "nat \<Rightarrow> fastCell \<Rightarrow> bool" for W where
  init: "fastReach W \<lparr>cell = 0, pend = 0\<rparr>"
| step: "fastReach W s \<Longrightarrow> fastStep W s s' \<Longrightarrow> fastReach W s'"

lemma fastStep_bound:
  assumes "fastStep W s s'" "int W < 2 ^ 31 - 257" "0 \<le> cell s" "cell s \<le> 256 + int (pend s)" "pend s \<le> W"
  shows "0 \<le> cell s' \<and> cell s' \<le> 256 + int (pend s') \<and> pend s' \<le> W"
proof -
  have "wrap32 (cell s + 1) = cell s + 1" using assms by (intro wrap32_id) simp_all
  with assms(1) show ?thesis using assms(2-) by cases (auto simp: adaptiveSettleStreak_def)
qed

text \<open>
  With concurrent runs the fast counter stays bounded: it is never negative and exceeds the settle
  threshold by at most the number of runs between their two atomic steps, so it never wraps as long as
  fewer than two thousand million runs are in flight.
\<close>

lemma fast_counter_bounded:
  assumes "fastReach W s" "int W < 2 ^ 31 - 257"
  shows "0 \<le> cell s \<and> cell s \<le> adaptiveSettleStreak + int (pend s) \<and> pend s \<le> W"
  using assms(1)
proof (induction rule: fastReach.induct)
  case init
  then show ?case by (simp add: adaptiveSettleStreak_def)
next
  case (step s s')
  then show ?case using fastStep_bound [OF step.hyps(2) assms(2)] by (simp add: adaptiveSettleStreak_def)
qed

end
