(* ===== verification/Router.thy ===== *)
theory Router
  imports Router_Insert Router_Adaptive "HOL-Library.List_Lexorder" "HOL-Library.AList"
begin

text \<open>
  The router (\<^verbatim>\<open>router.go\<close>): one radix tree and one static map per method, registration, the route
  handles and their later changes, lookup, the methods a path answers. A handler chain is a list of
  handlers of a type parameter. The handles that registration returns are pointers: here they are
  indices into \<open>routesHeap\<close>, and the pointer a handle keeps to its node is the node's identity.
  Only the log line of \<^verbatim>\<open>warnDuplicateRoute\<close> is left out.
\<close>

section \<open>Definitions\<close>

datatype asyncSetting = asyncDefault | asyncOn | asyncOff

record 'f staticEntry =
  se_handlers :: "'f list"
  se_fullPath :: gostring
  se_async :: bool

record route =
  rt_method :: gostring
  rt_path :: gostring
  rt_name :: gostring
  rt_node :: nat

definition nMethods :: nat where "nMethods = 7"

definition methodNames :: "gostring list" where
  "methodNames = [str ''GET'', str ''POST'', str ''PUT'', str ''DELETE'', str ''PATCH'', str ''HEAD'', str ''OPTIONS'']"

definition methodIndex :: "gostring \<Rightarrow> nat option" where
  "methodIndex m =
     (if m = str ''GET'' then Some 0
      else if m = str ''POST'' then Some 1
      else if m = str ''PUT'' then Some 2
      else if m = str ''DELETE'' then Some 3
      else if m = str ''PATCH'' then Some 4
      else if m = str ''HEAD'' then Some 5
      else if m = str ''OPTIONS'' then Some 6
      else None)"

type_synonym 'f staticMap = "gostring \<Rightarrow> 'f staticEntry option"

record 'f router =
  trees :: "'f list node option list"
  staticRoutes :: "'f staticMap list"
  customTrees :: "(gostring \<times> 'f list node) list"
  customStatic :: "gostring \<Rightarrow> 'f staticMap"
  namedRoutes :: "gostring \<Rightarrow> nat option"
  defaultAsync :: bool
  noAutoHEAD :: bool
  noAutoOPTIONS :: bool
  asyncRouteCount :: nat
  adaptiveRoutes :: "gostring \<Rightarrow> bool"
  unmatchedAdaptive :: bool
  adapt :: adaptive
  routesHeap :: "route list"
  nextNode :: nat

definition newRouter :: "'f router" where
  "newRouter = \<lparr>trees = replicate nMethods None, staticRoutes = replicate nMethods (\<lambda>_. None),
     customTrees = [], customStatic = (\<lambda>_ _. None), namedRoutes = (\<lambda>_. None), defaultAsync = False,
     noAutoHEAD = False, noAutoOPTIONS = False, asyncRouteCount = 0, adaptiveRoutes = (\<lambda>_. False),
     unmatchedAdaptive = False,
     adapt = freshAdaptive, routesHeap = [], nextNode = 0\<rparr>"

definition resolveAsync :: "'f router \<Rightarrow> asyncSetting \<Rightarrow> bool" where
  "resolveAsync r s = (case s of asyncOn \<Rightarrow> True | asyncOff \<Rightarrow> False | asyncDefault \<Rightarrow> defaultAsync r)"

definition getTree :: "'f router \<Rightarrow> gostring \<Rightarrow> 'f list node option" where
  "getTree r m = (case methodIndex m of Some i \<Rightarrow> trees r ! i | None \<Rightarrow> map_of (customTrees r) m)"

definition setTree :: "'f router \<Rightarrow> gostring \<Rightarrow> 'f list node \<Rightarrow> 'f router" where
  "setTree r m root =
     (case methodIndex m of
        Some i \<Rightarrow> r\<lparr>trees := (trees r)[i := Some root]\<rparr>
      | None \<Rightarrow> r\<lparr>customTrees := AList.update m root (customTrees r)\<rparr>)"

definition getStaticMap :: "'f router \<Rightarrow> gostring \<Rightarrow> 'f staticMap" where
  "getStaticMap r m = (case methodIndex m of Some i \<Rightarrow> staticRoutes r ! i | None \<Rightarrow> customStatic r m)"

definition setStaticEntry :: "'f router \<Rightarrow> gostring \<Rightarrow> gostring \<Rightarrow> 'f staticEntry \<Rightarrow> 'f router" where
  "setStaticEntry r m p e =
     (case methodIndex m of
        Some i \<Rightarrow> r\<lparr>staticRoutes := (staticRoutes r)[i := (staticRoutes r ! i)(p \<mapsto> e)]\<rparr>
      | None \<Rightarrow> r\<lparr>customStatic := (customStatic r)(m := (customStatic r m)(p \<mapsto> e))\<rparr>)"

definition isStaticPath :: "gostring \<Rightarrow> bool" where
  "isStaticPath p \<longleftrightarrow> list_all (\<lambda>c. \<not> (c = cColon \<or> c = cStar)) p"

subsection \<open>Registration\<close>

datatype route_error = ErrNoLeadingSlash | ErrPath path_error | ErrDuplicateRouteName | ErrNoHandlers

text \<open>The root of the method's tree, a new one with a fresh identity where there is none yet.\<close>

definition rootFor :: "'f router \<Rightarrow> gostring \<Rightarrow> 'f list node" where
  "rootFor r m = (case getTree r m of Some n \<Rightarrow> n | None \<Rightarrow> Node (nextNode r) [cSlash] [] Static None [] [] False)"

definition insertRoute :: "'f router \<Rightarrow> gostring \<Rightarrow> gostring \<Rightarrow> 'f list \<Rightarrow> bool \<Rightarrow> nat \<times> 'f router" where
  "insertRoute r m p hs asy =
     (let nx = (if getTree r m = None then nextNode r + 1 else nextNode r);
          (root', t, nx') = insertSegs (splitPath p) (setRoute hs p asy) nx (rootFor r m);
          r1 = (setTree r m root')\<lparr>nextNode := nx'\<rparr>
      in (t, if isStaticPath p
             then setStaticEntry r1 m p \<lparr>se_handlers = hs, se_fullPath = p, se_async = asy\<rparr>
             else r1))"

definition addRouteWithAsync ::
  "'f router \<Rightarrow> gostring \<Rightarrow> gostring \<Rightarrow> 'f list \<Rightarrow> asyncSetting \<Rightarrow> (route_error + nat) \<times> 'f router" where
  "addRouteWithAsync r method p hs as =
     (if p = [] \<or> hd p \<noteq> cSlash then (Inl ErrNoLeadingSlash, r)
      else case validatePath p of
        Some e \<Rightarrow> (Inl (ErrPath e), r)
      | None \<Rightarrow>
          let adaptv = (as = asyncDefault \<and> defaultAsync r);
              asy = (if adaptv then False else resolveAsync r as);
              r1 = (if adaptv then r\<lparr>adaptiveRoutes := (adaptiveRoutes r)(p := True)\<rparr> else r);
              (t, r2) = insertRoute r1 method p hs asy;
              r3 = (if asy \<or> adaptv then r2\<lparr>asyncRouteCount := asyncRouteCount r2 + 1\<rparr> else r2)
          in (Inr (length (routesHeap r3)),
              r3\<lparr>routesHeap := routesHeap r3 @ [\<lparr>rt_method = method, rt_path = p, rt_name = [], rt_node = t\<rparr>]\<rparr>))"

definition addRoute ::
  "'f router \<Rightarrow> gostring \<Rightarrow> gostring \<Rightarrow> 'f list \<Rightarrow> (route_error + nat) \<times> 'f router" where
  "addRoute r method p hs = addRouteWithAsync r method p hs asyncDefault"

text \<open>Reading and writing the node a handle points to.\<close>

fun updNode :: "nat \<Rightarrow> ('h node \<Rightarrow> 'h node) \<Rightarrow> 'h node \<Rightarrow> 'h node" where
  "updNode t f (Node i p chs ty h k fp a) =
     (let n = Node i p (map (updNode t f) chs) ty h k fp a in if i = t then f n else n)"

fun readNode :: "nat \<Rightarrow> 'h node \<Rightarrow> 'h node option" where
  "readNode t (Node i p chs ty h k fp a) =
     (if i = t then Some (Node i p chs ty h k fp a)
      else fold (\<lambda>c acc. case acc of Some n \<Rightarrow> Some n | None \<Rightarrow> c) (map (readNode t) chs) None)"

definition routeNode :: "'f router \<Rightarrow> nat \<Rightarrow> 'f list node option" where
  "routeNode r i = (let rt = routesHeap r ! i in Option.bind (getTree r (rt_method rt)) (readNode (rt_node rt)))"

definition updRoute :: "'f router \<Rightarrow> nat \<Rightarrow> ('f list node \<Rightarrow> 'f list node) \<Rightarrow> 'f router" where
  "updRoute r i f =
     (let rt = routesHeap r ! i in
      case getTree r (rt_method rt) of
        None \<Rightarrow> r
      | Some root \<Rightarrow> setTree r (rt_method rt) (updNode (rt_node rt) f root))"

definition routeName :: "'f router \<Rightarrow> nat \<Rightarrow> gostring \<Rightarrow> (route_error + unit) \<times> 'f router" where
  "routeName r i nm =
     (let r1 = r\<lparr>routesHeap := (routesHeap r)[i := (routesHeap r ! i)\<lparr>rt_name := nm\<rparr>]\<rparr> in
      if namedRoutes r1 nm \<noteq> None then (Inl ErrDuplicateRouteName, r1)
      else (Inr (), r1\<lparr>namedRoutes := (namedRoutes r1)(nm \<mapsto> i)\<rparr>))"

definition routeTryName :: "'f router \<Rightarrow> nat \<Rightarrow> gostring \<Rightarrow> (route_error + unit) \<times> 'f router" where
  "routeTryName r i nm =
     (if namedRoutes r nm \<noteq> None then (Inl ErrDuplicateRouteName, r)
      else (Inr (), r\<lparr>routesHeap := (routesHeap r)[i := (routesHeap r ! i)\<lparr>rt_name := nm\<rparr>],
                      namedRoutes := (namedRoutes r)(nm \<mapsto> i)\<rparr>))"

definition setHandlers :: "'h \<Rightarrow> 'h node \<Rightarrow> 'h node" where
  "setHandlers h n = Node (nid n) (path n) (children n) (nType n) (Some h) (paramKey n) (fullPath n) (async n)"

definition setNodeAsync :: "bool \<Rightarrow> 'h node \<Rightarrow> 'h node" where
  "setNodeAsync b n = Node (nid n) (path n) (children n) (nType n) (handlers n) (paramKey n) (fullPath n) b"

definition routeUse :: "'f router \<Rightarrow> nat \<Rightarrow> 'f list \<Rightarrow> (route_error + unit) \<times> 'f router" where
  "routeUse r i mw =
     (case routeNode r i of
        None \<Rightarrow> (Inl ErrNoHandlers, r)
      | Some n \<Rightarrow>
          (case handlers n of
             None \<Rightarrow> (Inl ErrNoHandlers, r)
           | Some hs \<Rightarrow>
               if hs = [] then (Inl ErrNoHandlers, r)
               else
                 let chain = butlast hs @ mw @ [last hs];
                     r1 = updRoute r i (setHandlers chain);
                     rt = routesHeap r ! i
                 in (Inr (),
                     if getStaticMap r1 (rt_method rt) (rt_path rt) \<noteq> None
                     then setStaticEntry r1 (rt_method rt) (rt_path rt)
                            \<lparr>se_handlers = chain, se_fullPath = rt_path rt, se_async = async n\<rparr>
                     else r1)))"

definition setAsync :: "'f router \<Rightarrow> nat \<Rightarrow> bool \<Rightarrow> 'f router" where
  "setAsync r i want =
     (case routeNode r i of
        None \<Rightarrow> r
      | Some n \<Rightarrow>
          let rt = routesHeap r ! i; p = rt_path rt;
              r1 = (if adaptiveRoutes r p then
                      let r' = r\<lparr>adaptiveRoutes := (adaptiveRoutes r)(p := False), adapt := clearAdaptive p (adapt r)\<rparr>
                      in if \<not> want \<and> asyncRouteCount r' > 0 then r'\<lparr>asyncRouteCount := asyncRouteCount r' - 1\<rparr> else r'
                    else if async n \<noteq> want then
                      (if want then r\<lparr>asyncRouteCount := asyncRouteCount r + 1\<rparr>
                       else if asyncRouteCount r > 0 then r\<lparr>asyncRouteCount := asyncRouteCount r - 1\<rparr> else r)
                    else r);
              r2 = updRoute r1 i (setNodeAsync want)
          in (case getStaticMap r2 (rt_method rt) p of
                Some e \<Rightarrow> setStaticEntry r2 (rt_method rt) p (e\<lparr>se_async := want\<rparr>)
              | None \<Rightarrow> r2))"

subsection \<open>Lookup\<close>

text \<open>The part of \<^verbatim>\<open>find\<close> after the static map.\<close>

definition treeFind :: "'f router \<Rightarrow> gostring \<Rightarrow> gostring \<Rightarrow> params \<Rightarrow> 'f list found \<times> params" where
  "treeFind r method p ps =
     (case getTree r method of
        None \<Rightarrow> (None, ps)
      | Some root \<Rightarrow>
          let p1 = cleanPath p in
          if p1 = [cSlash] then (nodeFound root, ps)
          else
            let p2 = (if length p1 > 1 \<and> hd p1 = cSlash then drop 1 p1 else p1)
            in search root p2 ps)"

definition findRoute :: "'f router \<Rightarrow> gostring \<Rightarrow> gostring \<Rightarrow> params \<Rightarrow> 'f list found \<times> params" where
  "findRoute r method p ps =
     (case getStaticMap r method p of
        Some e \<Rightarrow> (Some (se_handlers e, se_fullPath e, se_async e), ps)
      | None \<Rightarrow> treeFind r method p ps)"

definition findHEADAsGET :: "'f router \<Rightarrow> gostring \<Rightarrow> params \<Rightarrow> nat \<Rightarrow> 'f list found \<times> params" where
  "findHEADAsGET r p ps n = (if noAutoHEAD r then (None, ps) else findRoute r (str ''GET'') p (take n ps))"

text \<open>The lookup of \<^verbatim>\<open>HandleStream\<close> on a miss of the per-connection cache.\<close>

definition lookupRoute :: "'f router \<Rightarrow> gostring \<Rightarrow> gostring \<Rightarrow> params \<Rightarrow> 'f list found \<times> params" where
  "lookupRoute r method p ps =
     (case findRoute r method p ps of
        (Some x, ps') \<Rightarrow> (Some x, ps')
      | (None, ps') \<Rightarrow> if method = str ''HEAD'' then findHEADAsGET r p ps' (length ps) else (None, ps'))"

definition unmatchedAdaptiveKey :: gostring where "unmatchedAdaptiveKey = str ''<unmatched>''"

definition hasAsyncRoutes :: "'f router \<Rightarrow> bool" where
  "hasAsyncRoutes r \<longleftrightarrow> asyncRouteCount r > 0 \<or> unmatchedAdaptive r"

definition routerPromoted :: "int \<Rightarrow> gostring \<Rightarrow> 'f router \<Rightarrow> bool \<times> 'f router" where
  "routerPromoted now p r = (case isPromoted now p (adapt r) of (b, a) \<Rightarrow> (b, r\<lparr>adapt := a\<rparr>))"

definition unmatchedPromoted :: "int \<Rightarrow> 'f router \<Rightarrow> bool \<times> 'f router" where
  "unmatchedPromoted now r = (if unmatchedAdaptive r then routerPromoted now unmatchedAdaptiveKey r else (False, r))"

definition adaptivePromoted :: "int \<Rightarrow> gostring \<Rightarrow> 'f router \<Rightarrow> bool \<times> 'f router" where
  "adaptivePromoted now p r = (if adaptiveRoutes r p then routerPromoted now p r else (False, r))"

definition routeAsync :: "int \<Rightarrow> gostring \<Rightarrow> gostring \<Rightarrow> 'f router \<Rightarrow> bool \<times> 'f router" where
  "routeAsync now method p r =
     (case getStaticMap r method p of
        Some e \<Rightarrow> if se_async e then (True, r) else adaptivePromoted now (se_fullPath e) r
      | None \<Rightarrow>
          let (x, ps) = findRoute r method p [];
              (x', ps') = (if x = None \<and> method = str ''HEAD'' then findHEADAsGET r p ps 0 else (x, ps))
          in (case x' of
                None \<Rightarrow> unmatchedPromoted now r
              | Some (h, fp, as) \<Rightarrow> if as then (True, r) else adaptivePromoted now fp r))"

definition has :: "'f router \<Rightarrow> gostring \<Rightarrow> gostring \<Rightarrow> bool" where
  "has r p m \<longleftrightarrow> fst (findRoute r m p []) \<noteq> None"

text \<open>The flags of the standard methods: those with a route, then with the automatic answers.\<close>

definition foundStandard :: "'f router \<Rightarrow> gostring \<Rightarrow> bool list" where
  "foundStandard r p = map (\<lambda>i. trees r ! i \<noteq> None \<and> has r p (methodNames ! i)) [0..<nMethods]"

definition foundAll :: "'f router \<Rightarrow> bool list \<Rightarrow> bool list" where
  "foundAll r found =
     (let found1 = found[5 := found ! 5 \<or> found ! 0 \<and> \<not> noAutoHEAD r]
      in found1[6 := found1 ! 6 \<or> \<not> noAutoOPTIONS r])"

definition allowedMethods :: "'f router \<Rightarrow> gostring \<Rightarrow> gostring \<Rightarrow> gostring list" where
  "allowedMethods r p except =
     (let found = foundStandard r p;
          custom = filter (has r p) (map fst (customTrees r))
      in if True \<notin> set found \<and> custom = [] then []
         else map (\<lambda>i. methodNames ! i)
                (filter (\<lambda>i. foundAll r found ! i \<and> methodNames ! i \<noteq> except) [0..<nMethods])
              @ filter (\<lambda>m. m \<noteq> except) (sort custom))"

record routeInfo =
  ri_method :: gostring
  ri_path :: gostring
  ri_count :: nat

function walkCh :: "gostring \<Rightarrow> 'f list node list \<Rightarrow> routeInfo list" where
  "walkCh m [] = []"
| "walkCh m (ch # chs) =
     (case handlers ch of
        None \<Rightarrow> []
      | Some h \<Rightarrow> [\<lparr>ri_method = m, ri_path = fullPath ch, ri_count = length h\<rparr>])
     @ walkCh m (children ch) @ walkCh m chs"
  by pat_completeness auto
termination
  by (relation "measure (\<lambda>(m, chs). size_list size chs)") (auto simp: less_SucI size_children add.commute trans_less_add1)

definition walk :: "'f router \<Rightarrow> routeInfo list" where
  "walk r =
     (let methods = map (\<lambda>i. methodNames ! i) (filter (\<lambda>i. trees r ! i \<noteq> None) [0..<nMethods])
                    @ map fst (customTrees r)
      in concat (map (\<lambda>m. case getTree r m of
                   None \<Rightarrow> []
                 | Some root \<Rightarrow>
                     (case handlers root of
                        None \<Rightarrow> []
                      | Some h \<Rightarrow> [\<lparr>ri_method = m, ri_path = fullPath root, ri_count = length h\<rparr>])
                     @ walkCh m (children root)) (sort methods)))"

section \<open>Method tables\<close>

text \<open>What the router relies on of its per-method storage, for the trees and for the static entries alike.\<close>

locale keyed_store =
  fixes ok :: "'s \<Rightarrow> bool" and get :: "'s \<Rightarrow> 'k \<Rightarrow> 'v option" and put :: "'s \<Rightarrow> 'k \<Rightarrow> 'v \<Rightarrow> 's"
  assumes put_ok: "ok s \<Longrightarrow> ok (put s k v)"
    and get_put: "ok s \<Longrightarrow> get (put s k v) k' = (if k' = k then Some v else get s k')"
begin

lemma puts_ok: "ok s \<Longrightarrow> ok (foldl (\<lambda>s (k, v). put s k v) s kvs)"
  by (induction kvs arbitrary: s) (auto simp: put_ok)

lemma get_puts: "ok s \<Longrightarrow> get (foldl (\<lambda>s (k, v). put s k v) s kvs) k = (case map_of (rev kvs) k of Some v \<Rightarrow> Some v | None \<Rightarrow> get s k)"
  by (induction kvs rule: rev_induct) (auto simp: get_put puts_ok map_add_def)

end

definition arraysOk :: "'f router \<Rightarrow> bool" where
  "arraysOk r \<longleftrightarrow> length (trees r) = nMethods \<and> length (staticRoutes r) = nMethods
     \<and> distinct (map fst (customTrees r)) \<and> (\<forall>m \<in> fst ` set (customTrees r). methodIndex m = None)"

lemma methodIndex_names: "i < nMethods \<Longrightarrow> methodIndex (methodNames ! i) = Some i"
proof -
  have "map methodIndex methodNames = map Some [0..<nMethods]" by code_simp
  then have "map methodIndex methodNames ! i = map Some [0..<nMethods] ! i" by simp
  moreover have "length methodNames = nMethods" by (simp add: methodNames_def nMethods_def)
  ultimately show "i < nMethods \<Longrightarrow> methodIndex (methodNames ! i) = Some i" by simp
qed

lemma methodIndex_Some: "methodIndex m = Some i \<longleftrightarrow> i < nMethods \<and> m = methodNames ! i"
proof
  assume "methodIndex m = Some i"
  then show "i < nMethods \<and> m = methodNames ! i"
    unfolding methodIndex_def methodNames_def nMethods_def by (auto split: if_splits)
qed (simp add: methodIndex_names)

lemma methodIndex_lt: "methodIndex m = Some i \<Longrightarrow> i < nMethods"
  by (simp add: methodIndex_Some)

lemma methodIndex_inj: "methodIndex m = Some i \<Longrightarrow> methodIndex m' = Some i \<Longrightarrow> m = m'"
  by (simp add: methodIndex_Some)

lemma setTree_fields [simp]:
  "staticRoutes (setTree r m n) = staticRoutes r" "customStatic (setTree r m n) = customStatic r"
  "getStaticMap (setTree r m n) m' = getStaticMap r m'" "routesHeap (setTree r m n) = routesHeap r"
  by (simp_all add: setTree_def getStaticMap_def split: option.splits)

lemma setStaticEntry_fields [simp]:
  "getTree (setStaticEntry r m p e) m' = getTree r m'" "routesHeap (setStaticEntry r m p e) = routesHeap r"
  by (simp_all add: setStaticEntry_def getTree_def split: option.splits)

lemma setTree_ok: "arraysOk r \<Longrightarrow> arraysOk (setTree r m n)"
  by (auto simp: arraysOk_def setTree_def distinct_update update_keys dom_update [symmetric]
      split: option.splits simp del: set_map simp add: set_map [symmetric])

lemma getTree_setTree: "arraysOk r \<Longrightarrow> getTree (setTree r m n) m' = (if m' = m then Some n else getTree r m')"
  using methodIndex_lt [of m] methodIndex_inj [of m _ m']
  by (cases "methodIndex m"; cases "methodIndex m'")
    (auto simp: arraysOk_def setTree_def getTree_def update_conv' nth_list_update)

lemma setStaticEntry_ok: "arraysOk r \<Longrightarrow> arraysOk (setStaticEntry r m p e)"
  by (auto simp: arraysOk_def setStaticEntry_def split: option.splits)

lemma getStaticMap_set:
  "arraysOk r \<Longrightarrow> getStaticMap (setStaticEntry r m p e) m' p' = (if m' = m \<and> p' = p then Some e else getStaticMap r m' p')"
  using methodIndex_lt [of m] methodIndex_inj [of m _ m']
  by (cases "methodIndex m"; cases "methodIndex m'")
    (auto simp: arraysOk_def setStaticEntry_def getStaticMap_def nth_list_update)

interpretation treeStore: keyed_store arraysOk getTree setTree
  by unfold_locales (simp_all add: setTree_ok getTree_setTree)

interpretation staticStore: keyed_store arraysOk "\<lambda>r (m, p). getStaticMap r m p" "\<lambda>r (m, p) e. setStaticEntry r m p e"
  by unfold_locales (auto simp: setStaticEntry_ok getStaticMap_set split: if_splits)

section \<open>Registration\<close>

definition treeRoutes :: "'f list node option \<Rightarrow> (tok list \<times> 'f list \<times> gostring) set" where
  "treeRoutes t = (case t of None \<Rightarrow> {} | Some n \<Rightarrow> absNode n)"

text \<open>The route table a router stands for: method and pattern to handler chain and full path.\<close>

definition routes :: "'f router \<Rightarrow> ((gostring \<times> tok list) \<times> 'f list \<times> gostring) set" where
  "routes r = {((m, k), v) | m k v. (k, v) \<in> treeRoutes (getTree r m)}"

definition rooted :: "gostring \<Rightarrow> bool" where "rooted p \<longleftrightarrow> p \<noteq> [] \<and> hd p = cSlash"

definition validRoute :: "gostring \<Rightarrow> bool" where "validRoute p \<longleftrightarrow> rooted p \<and> validatePath p = None"

text \<open>
  The invariant: the trees are radix trees whose entries have the pattern of their full path, and every
  static entry is the entry of the tree for its path.
\<close>

definition treesOk :: "'f router \<Rightarrow> bool" where
  "treesOk r \<longleftrightarrow> (\<forall>m n. getTree r m = Some n \<longrightarrow>
     rootOk n \<and> (\<forall>k h fp. (k, h, fp) \<in> absNode n \<longrightarrow> rooted fp \<and> k = pathKey fp))"

definition staticsOk :: "'f router \<Rightarrow> bool" where
  "staticsOk r \<longleftrightarrow> (\<forall>m p e. getStaticMap r m p = Some e \<longrightarrow>
     rooted p \<and> isStaticPath p \<and> se_fullPath e = p \<and> (pathKey p, se_handlers e, p) \<in> treeRoutes (getTree r m))"

definition routerOk :: "'f router \<Rightarrow> bool" where
  "routerOk r \<longleftrightarrow> arraysOk r \<and> treesOk r \<and> staticsOk r"

lemma static_key: "rooted p \<Longrightarrow> isStaticPath p \<Longrightarrow> pathKey p = map Lit (drop 1 p)"
  unfolding isStaticPath_def using pathPat_static [of p] canon_lits by metis

lemma static_key_inj:
  assumes "rooted p" "isStaticPath p" "rooted q" "pathKey q = pathKey p"
  shows "q = p"
proof -
  have "pathKey q = map Lit (drop 1 p)" using static_key [OF assms(1,2)] assms(4) by metis
  then have "q = cSlash # drop 1 p" using pathKey_literal assms(3) unfolding rooted_def by blast
  then show ?thesis using assms(1) by (cases p) (simp_all add: rooted_def)
qed

lemma rootFor_ok:
  assumes "treesOk r"
  shows "rootOk (rootFor r m)" "absNode (rootFor r m) = treeRoutes (getTree r m)"
proof -
  have "forestOk []" by (subst forestOk.simps) (simp add: siblings_def)
  then show "rootOk (rootFor r m)" using assms by (auto simp: rootFor_def treesOk_def rootOk_def split: option.splits)
  show "absNode (rootFor r m) = treeRoutes (getTree r m)"
    by (simp add: rootFor_def treeRoutes_def absNode_children absOwn_def split: option.splits)
qed

lemma router_fields [simp]:
  "getTree (r\<lparr>adaptiveRoutes := x\<rparr>) = getTree r" "getStaticMap (r\<lparr>adaptiveRoutes := x\<rparr>) = getStaticMap r"
  "getTree (r\<lparr>asyncRouteCount := c\<rparr>) = getTree r" "getStaticMap (r\<lparr>asyncRouteCount := c\<rparr>) = getStaticMap r"
  "getTree (r\<lparr>routesHeap := l\<rparr>) = getTree r" "getStaticMap (r\<lparr>routesHeap := l\<rparr>) = getStaticMap r"
  "getTree (r\<lparr>nextNode := i\<rparr>) = getTree r" "getStaticMap (r\<lparr>nextNode := i\<rparr>) = getStaticMap r"
  "getTree (r\<lparr>namedRoutes := nm\<rparr>) = getTree r" "getStaticMap (r\<lparr>namedRoutes := nm\<rparr>) = getStaticMap r"
  "getTree (r\<lparr>adapt := ad\<rparr>) = getTree r" "getStaticMap (r\<lparr>adapt := ad\<rparr>) = getStaticMap r"
  "arraysOk (r\<lparr>adaptiveRoutes := x\<rparr>) = arraysOk r" "arraysOk (r\<lparr>asyncRouteCount := c\<rparr>) = arraysOk r"
  "arraysOk (r\<lparr>routesHeap := l\<rparr>) = arraysOk r" "arraysOk (r\<lparr>nextNode := i\<rparr>) = arraysOk r"
  "arraysOk (r\<lparr>namedRoutes := nm\<rparr>) = arraysOk r" "arraysOk (r\<lparr>adapt := ad\<rparr>) = arraysOk r"
  by (rule ext, simp add: getTree_def getStaticMap_def arraysOk_def split: option.splits)+
    (simp_all add: arraysOk_def)

lemma rootFor_adaptive [simp]: "rootFor (r\<lparr>adaptiveRoutes := x\<rparr>) m = rootFor r m"
  by (simp add: rootFor_def split: option.split)

definition inserted :: "'f router \<Rightarrow> gostring \<Rightarrow> gostring \<Rightarrow> 'f list \<Rightarrow> 'f router \<Rightarrow> bool" where
  "inserted r m p hs r' \<longleftrightarrow> arraysOk r' \<and> routesHeap r' = routesHeap r
     \<and> (\<exists>nx asy. \<forall>m'. getTree r' m'
          = (if m' = m then Some (fst (insertSegs (splitPath p) (setRoute hs p asy) nx (rootFor r m))) else getTree r m'))
     \<and> (\<exists>asy. \<forall>m' p'. getStaticMap r' m' p'
          = (if isStaticPath p \<and> m' = m \<and> p' = p then Some \<lparr>se_handlers = hs, se_fullPath = p, se_async = asy\<rparr>
             else getStaticMap r m' p'))"

lemma insertRoute_tables:
  assumes "arraysOk r"
  shows "inserted r m p hs (snd (insertRoute r m p hs asy))"
proof -
  define nx where "nx = (if getTree r m = None then nextNode r + 1 else nextNode r)"
  obtain root' t nx' where ins: "insertSegs (splitPath p) (setRoute hs p asy) nx (rootFor r m) = (root', t, nx')"
    by (cases "insertSegs (splitPath p) (setRoute hs p asy) nx (rootFor r m)")
  define r1 where "r1 = (setTree r m root')\<lparr>nextNode := nx'\<rparr>"
  have eq: "snd (insertRoute r m p hs asy) = (if isStaticPath p
      then setStaticEntry r1 m p \<lparr>se_handlers = hs, se_fullPath = p, se_async = asy\<rparr> else r1)"
    unfolding insertRoute_def using ins by (simp add: Let_def nx_def r1_def)
  have "root' = fst (insertSegs (splitPath p) (setRoute hs p asy) nx (rootFor r m))" using ins by simp
  moreover have "arraysOk r1" using assms by (simp add: r1_def setTree_ok)
  ultimately show ?thesis unfolding inserted_def eq
    by (intro conjI exI [of _ nx] exI [of _ asy] allI)
      (auto simp: r1_def getTree_setTree [OF assms] setStaticEntry_ok getStaticMap_set)
qed

lemma addRoute_tables:
  assumes "arraysOk r" "validRoute p"
  shows "fst (addRouteWithAsync r m p hs as) = Inr (length (routesHeap r))"
    and "\<exists>r'. inserted r m p hs r' \<and> getTree (snd (addRouteWithAsync r m p hs as)) = getTree r'
          \<and> getStaticMap (snd (addRouteWithAsync r m p hs as)) = getStaticMap r'
          \<and> arraysOk (snd (addRouteWithAsync r m p hs as))"
proof -
  define adaptv where "adaptv = (as = asyncDefault \<and> defaultAsync r)"
  define asy where "asy = (if adaptv then False else resolveAsync r as)"
  define r1 where "r1 = (if adaptv then r\<lparr>adaptiveRoutes := (adaptiveRoutes r)(p := True)\<rparr> else r)"
  obtain t r2 where ins: "insertRoute r1 m p hs asy = (t, r2)" by (cases "insertRoute r1 m p hs asy")
  define r3 where "r3 = (if asy \<or> adaptv then r2\<lparr>asyncRouteCount := asyncRouteCount r2 + 1\<rparr> else r2)"
  have eq: "addRouteWithAsync r m p hs as
    = (Inr (length (routesHeap r3)),
       r3\<lparr>routesHeap := routesHeap r3 @ [\<lparr>rt_method = m, rt_path = p, rt_name = [], rt_node = t\<rparr>]\<rparr>)"
    using assms(2) ins unfolding addRouteWithAsync_def validRoute_def rooted_def
    by (simp add: Let_def r3_def r1_def asy_def adaptv_def)
  have r1: "arraysOk r1" "inserted r1 m p hs r' \<longleftrightarrow> inserted r m p hs r'" for r'
    using assms(1) by (simp_all add: r1_def inserted_def)
  have ins2: "inserted r m p hs r2" using insertRoute_tables [OF r1(1), of m p hs asy] r1(2) ins by simp
  have r3: "getTree r3 = getTree r2" "getStaticMap r3 = getStaticMap r2" "routesHeap r3 = routesHeap r2"
    "arraysOk r3 = arraysOk r2" by (simp_all add: r3_def)
  have r2: "routesHeap r2 = routesHeap r" "arraysOk r2" using ins2 by (simp_all add: inserted_def)
  show "fst (addRouteWithAsync r m p hs as) = Inr (length (routesHeap r))" by (simp add: eq r3 r2)
  show "\<exists>r'. inserted r m p hs r' \<and> getTree (snd (addRouteWithAsync r m p hs as)) = getTree r'
          \<and> getStaticMap (snd (addRouteWithAsync r m p hs as)) = getStaticMap r'
          \<and> arraysOk (snd (addRouteWithAsync r m p hs as))"
    by (rule exI [of _ r2]) (simp add: eq r3 r2 ins2)
qed

lemma addRoute_routes:
  assumes "routerOk r" "validRoute p"
  shows "routes (snd (addRouteWithAsync r m p hs as)) = upd (m, pathKey p) (hs, p) (routes r)"
    and "routerOk (snd (addRouteWithAsync r m p hs as))"
proof -
  let ?r' = "snd (addRouteWithAsync r m p hs as)"
  have ok: "arraysOk r" "treesOk r" "staticsOk r" using assms(1) by (simp_all add: routerOk_def)
  obtain r' where r': "inserted r m p hs r'" "getTree ?r' = getTree r'" "getStaticMap ?r' = getStaticMap r'" "arraysOk ?r'"
    using addRoute_tables(2) [OF ok(1) assms(2), of m hs as] by blast
  obtain nx asy where tree: "\<And>m'. getTree ?r' m'
      = (if m' = m then Some (fst (insertSegs (splitPath p) (setRoute hs p asy) nx (rootFor r m))) else getTree r m')"
    using r'(1,2) unfolding inserted_def by auto
  obtain asy' where static: "\<And>m' p'. getStaticMap ?r' m' p'
      = (if isStaticPath p \<and> m' = m \<and> p' = p then Some \<lparr>se_handlers = hs, se_fullPath = p, se_async = asy'\<rparr>
         else getStaticMap r m' p')"
    using r'(1,3) unfolding inserted_def by auto
  have root: "rootOk (rootFor r m)" "absNode (rootFor r m) = treeRoutes (getTree r m)" using rootFor_ok [OF ok(2)] by auto
  have new: "treeRoutes (getTree ?r' m') = (if m' = m then upd (pathKey p) (hs, p) (treeRoutes (getTree r m)) else treeRoutes (getTree r m'))" for m'
    using register_ok(2) [OF root(1), of p hs asy nx] root(2) by (simp add: tree treeRoutes_def)
  show "routes ?r' = upd (m, pathKey p) (hs, p) (routes r)"
    unfolding routes_def new by (auto simp: upd_def split: if_splits)
  have p: "rooted p" using assms(2) by (simp add: validRoute_def)
  have entries: "rooted fp \<and> k = pathKey fp" if "(k, h, fp) \<in> treeRoutes (getTree r m')" for m' k h fp
    using that ok(2) by (auto simp: treesOk_def treeRoutes_def split: option.splits)
  have "treesOk ?r'"
    unfolding treesOk_def
  proof (intro allI impI conjI)
    fix m' n assume n: "getTree ?r' m' = Some n"
    show "rootOk n" using n register_ok(1) [OF root(1)] ok(2) by (auto simp: tree treesOk_def split: if_splits)
    fix k h fp assume "(k, h, fp) \<in> absNode n"
    then have "(k, h, fp) \<in> treeRoutes (getTree ?r' m')" using n by (simp add: treeRoutes_def)
    then show "rooted fp" "k = pathKey fp" using entries p unfolding new by (auto simp: upd_def split: if_splits)
  qed
  moreover have "staticsOk ?r'"
    unfolding staticsOk_def
  proof (intro allI impI)
    fix m' p' e assume e: "getStaticMap ?r' m' p' = Some e"
    show "rooted p' \<and> isStaticPath p' \<and> se_fullPath e = p' \<and> (pathKey p', se_handlers e, p') \<in> treeRoutes (getTree ?r' m')"
    proof (cases "isStaticPath p \<and> m' = m \<and> p' = p")
      case True
      then show ?thesis using e p by (auto simp: static new upd_def)
    next
      case False
      then have old: "rooted p'" "isStaticPath p'" "se_fullPath e = p'" "(pathKey p', se_handlers e, p') \<in> treeRoutes (getTree r m')"
        using e ok(3) by (auto simp: static staticsOk_def)
      moreover have "m' = m \<Longrightarrow> pathKey p' \<noteq> pathKey p" using static_key_inj [OF old(1,2) p] False old(2) by auto
      ultimately show ?thesis by (auto simp: new upd_def)
    qed
  qed
  ultimately show "routerOk ?r'" using r'(4) by (simp add: routerOk_def)
qed

lemma addRoute_refused:
  assumes "\<not> validRoute p"
  shows "\<exists>e. addRouteWithAsync r m p hs as = (Inl e, r)"
  using assms by (auto simp: addRouteWithAsync_def validRoute_def rooted_def split: option.splits)

text \<open>
  C17. Registration refines a table from method and pattern to handler chain. Registering a valid path
  sets exactly the entry of its method and pattern, whatever was registered before, keeps the invariant
  of all trees and of the static map and returns a new handle; registering any other path fails and
  changes nothing.
\<close>

theorem registration_refines_table:
  assumes "routerOk r"
  shows "if validRoute p
    then routes (snd (addRouteWithAsync r m p hs as)) = upd (m, pathKey p) (hs, p) (routes r)
      \<and> routerOk (snd (addRouteWithAsync r m p hs as))
      \<and> fst (addRouteWithAsync r m p hs as) = Inr (length (routesHeap r))
    else \<exists>e. addRouteWithAsync r m p hs as = (Inl e, r)"
  using addRoute_routes [OF assms] addRoute_refused [of p] addRoute_tables(1) [of r p] assms
  by (auto simp: routerOk_def)

lemma newRouter_ok: "routerOk ((newRouter :: 'f router)\<lparr>defaultAsync := d, noAutoHEAD := nh, noAutoOPTIONS := no\<rparr>)"
proof -
  let ?r = "(newRouter :: 'f router)\<lparr>defaultAsync := d, noAutoHEAD := nh, noAutoOPTIONS := no\<rparr>"
  have "getTree ?r m = None" "getStaticMap ?r m p = None" for m p
    using methodIndex_lt [of m] by (auto simp: getTree_def getStaticMap_def newRouter_def split: option.splits)
  moreover have "arraysOk ?r" by (simp add: arraysOk_def newRouter_def)
  ultimately show ?thesis unfolding routerOk_def treesOk_def staticsOk_def by (metis option.distinct(1))
qed

theorem registration_refines_table_witness:
  "routerOk (newRouter :: nat router)
   \<and> routes (snd (addRouteWithAsync newRouter (str ''GET'') (str ''/users/:id'') [7 :: nat] asyncOn))
     = upd (str ''GET'', pathKey (str ''/users/:id'')) ([7], str ''/users/:id'') (routes newRouter)"
proof -
  have ok: "routerOk (newRouter :: nat router)"
    using newRouter_ok [of False False False] by (simp add: newRouter_def)
  have "validRoute (str ''/users/:id'')" by (simp add: validRoute_def rooted_def bytes_simps)
  then show ?thesis using registration_refines_table [OF ok, of "str ''/users/:id''" "str ''GET''" "[7]" asyncOn] ok by simp
qed

subsection \<open>Changing the dispatch flag\<close>

lemma async_fields [simp]:
  "nid (updNode t (setNodeAsync b) n) = nid n" "path (updNode t (setNodeAsync b) n) = path n"
  "nType (updNode t (setNodeAsync b) n) = nType n" "handlers (updNode t (setNodeAsync b) n) = handlers n"
  "paramKey (updNode t (setNodeAsync b) n) = paramKey n" "fullPath (updNode t (setNodeAsync b) n) = fullPath n"
  "children (updNode t (setNodeAsync b) n) = map (updNode t (setNodeAsync b)) (children n)"
  by (cases n; simp add: Let_def setNodeAsync_def)+

lemma async_shape [simp]:
  "nodeKey (updNode t (setNodeAsync b) n) = nodeKey n" "nodePat (updNode t (setNodeAsync b) n) = nodePat n"
  "shapeOk (updNode t (setNodeAsync b) n) = shapeOk n" "absOwn (updNode t (setNodeAsync b) n) = absOwn n"
  by (simp_all add: nodeKey_def nodePat_def shapeOk_def absOwn_def list_all_iff split: nodeType.splits option.splits)

lemma async_forest: "forestOk chs \<Longrightarrow> forestOk (map (updNode t (setNodeAsync b)) chs)"
proof (induction chs rule: forestOk.induct)
  case (1 chs)
  have "siblings chs" "\<forall>ch \<in> set chs. shapeOk ch \<and> forestOk (children ch)" using 1(2) forestOk.simps [of chs] by blast+
  moreover from this have "siblings (map (updNode t (setNodeAsync b)) chs)" by (simp add: siblings_def comp_def)
  ultimately show ?case using 1(1) by (subst forestOk.simps) simp
qed

lemma async_abs: "absNode (updNode t (setNodeAsync b) n) = absNode n"
proof (induction n)
  case (Node i p chs ty h k fp a)
  then have "absChild (updNode t (setNodeAsync b) ch) = absChild ch" if "ch \<in> set chs" for ch
    using that by (simp add: absChild_def)
  then show ?case unfolding absNode_children [of "updNode t (setNodeAsync b) (Node i p chs ty h k fp a)"]
      absNode_children [of "Node i p chs ty h k fp a"] by (simp del: updNode.simps)
qed

definition sameRoutes :: "'f router \<Rightarrow> 'f router \<Rightarrow> bool" where
  "sameRoutes r r' \<longleftrightarrow> (arraysOk r \<longrightarrow> arraysOk r')
     \<and> (\<forall>m. treeRoutes (getTree r' m) = treeRoutes (getTree r m))
     \<and> (\<forall>m n'. getTree r' m = Some n' \<longrightarrow> (\<exists>n. getTree r m = Some n \<and> (rootOk n \<longrightarrow> rootOk n')))
     \<and> (\<forall>m p e'. getStaticMap r' m p = Some e' \<longrightarrow>
          (\<exists>e. getStaticMap r m p = Some e \<and> se_handlers e' = se_handlers e \<and> se_fullPath e' = se_fullPath e))"

lemma sameRoutes_trans:
  assumes a: "sameRoutes r r'" and b: "sameRoutes r' r''"
  shows "sameRoutes r r''"
  unfolding sameRoutes_def
proof (intro conjI allI impI)
  show "arraysOk r''" if "arraysOk r" using that a b by (simp add: sameRoutes_def)
  show "treeRoutes (getTree r'' m) = treeRoutes (getTree r m)" for m using a b by (simp add: sameRoutes_def)
  show "\<exists>n. getTree r m = Some n \<and> (rootOk n \<longrightarrow> rootOk n')" if n: "getTree r'' m = Some n'" for m n'
  proof -
    obtain n1 where "getTree r' m = Some n1" "rootOk n1 \<longrightarrow> rootOk n'" using b n unfolding sameRoutes_def by blast
    moreover from this obtain n where "getTree r m = Some n" "rootOk n \<longrightarrow> rootOk n1" using a unfolding sameRoutes_def by blast
    ultimately show ?thesis by blast
  qed
  show "\<exists>e. getStaticMap r m p = Some e \<and> se_handlers e' = se_handlers e \<and> se_fullPath e' = se_fullPath e"
    if e: "getStaticMap r'' m p = Some e'" for m p e'
  proof -
    obtain e1 where e1: "getStaticMap r' m p = Some e1" "se_handlers e' = se_handlers e1" "se_fullPath e' = se_fullPath e1"
      using b e unfolding sameRoutes_def by blast
    obtain e where "getStaticMap r m p = Some e" "se_handlers e1 = se_handlers e" "se_fullPath e1 = se_fullPath e"
      using a e1(1) unfolding sameRoutes_def by blast
    then show ?thesis using e1 by auto
  qed
qed

lemma sameRoutes_fields: "getTree r' = getTree r \<Longrightarrow> getStaticMap r' = getStaticMap r \<Longrightarrow> arraysOk r' = arraysOk r \<Longrightarrow> sameRoutes r r'"
  by (simp add: sameRoutes_def)

lemma sameRoutes_ok:
  assumes "sameRoutes r r'" "routerOk r"
  shows "routes r' = routes r" "routerOk r'"
proof -
  have s: "arraysOk r'" "\<And>m. treeRoutes (getTree r' m) = treeRoutes (getTree r m)"
    "\<And>m n'. getTree r' m = Some n' \<Longrightarrow> \<exists>n. getTree r m = Some n \<and> (rootOk n \<longrightarrow> rootOk n')"
    "\<And>m p e'. getStaticMap r' m p = Some e' \<Longrightarrow>
       \<exists>e. getStaticMap r m p = Some e \<and> se_handlers e' = se_handlers e \<and> se_fullPath e' = se_fullPath e"
    using assms unfolding sameRoutes_def routerOk_def by blast+
  show "routes r' = routes r" by (simp add: routes_def s(2))
  have "treesOk r'" unfolding treesOk_def
  proof (intro allI impI)
    fix m n' assume n': "getTree r' m = Some n'"
    obtain n where n: "getTree r m = Some n" "rootOk n \<longrightarrow> rootOk n'" using s(3) [OF n'] by blast
    have "absNode n' = absNode n" using s(2) [of m] n n' by (simp add: treeRoutes_def)
    then show "rootOk n' \<and> (\<forall>k h fp. (k, h, fp) \<in> absNode n' \<longrightarrow> rooted fp \<and> k = pathKey fp)"
      using n assms(2) unfolding routerOk_def treesOk_def by metis
  qed
  moreover have "staticsOk r'" unfolding staticsOk_def
  proof (intro allI impI)
    fix m p e' assume "getStaticMap r' m p = Some e'"
    from s(4) [OF this] obtain e where "getStaticMap r m p = Some e" "se_handlers e' = se_handlers e" "se_fullPath e' = se_fullPath e" by blast
    then show "rooted p \<and> isStaticPath p \<and> se_fullPath e' = p \<and> (pathKey p, se_handlers e', p) \<in> treeRoutes (getTree r' m)"
      using assms(2) s(2) [of m] unfolding routerOk_def staticsOk_def by metis
  qed
  ultimately show "routerOk r'" using s(1) by (simp add: routerOk_def)
qed

lemma updRoute_same: "arraysOk r \<Longrightarrow> sameRoutes r (updRoute r i (setNodeAsync want))"
  by (auto simp: updRoute_def sameRoutes_def Let_def setTree_ok getTree_setTree treeRoutes_def async_abs
      rootOk_def async_forest split: option.splits)

lemma static_same:
  "arraysOk r \<Longrightarrow> getStaticMap r m p = Some e \<Longrightarrow> sameRoutes r (setStaticEntry r m p (e\<lparr>se_async := want\<rparr>))"
  by (auto simp: sameRoutes_def setStaticEntry_ok getStaticMap_set split: if_splits)

lemma setAsync_same:
  assumes "arraysOk r"
  shows "sameRoutes r (setAsync r i want)"
proof (cases "routeNode r i")
  case None
  then show ?thesis by (simp add: setAsync_def sameRoutes_def)
next
  case (Some n)
  define p where "p = rt_path (routesHeap r ! i)"
  define m where "m = rt_method (routesHeap r ! i)"
  define r1 where "r1 = (if adaptiveRoutes r p then
      let r' = r\<lparr>adaptiveRoutes := (adaptiveRoutes r)(p := False), adapt := clearAdaptive p (adapt r)\<rparr>
      in if \<not> want \<and> asyncRouteCount r' > 0 then r'\<lparr>asyncRouteCount := asyncRouteCount r' - 1\<rparr> else r'
    else if async n \<noteq> want then
      (if want then r\<lparr>asyncRouteCount := asyncRouteCount r + 1\<rparr>
       else if asyncRouteCount r > 0 then r\<lparr>asyncRouteCount := asyncRouteCount r - 1\<rparr> else r)
    else r)"
  define r2 where "r2 = updRoute r1 i (setNodeAsync want)"
  have eq: "setAsync r i want = (case getStaticMap r2 m p of
      Some e \<Rightarrow> setStaticEntry r2 m p (e\<lparr>se_async := want\<rparr>) | None \<Rightarrow> r2)"
    unfolding setAsync_def r2_def r1_def p_def m_def using Some by (simp only: option.case Let_def)
  have r1: "getTree r1 = getTree r" "getStaticMap r1 = getStaticMap r" "arraysOk r1 = arraysOk r"
    by (simp_all add: r1_def Let_def)
  then have s1: "sameRoutes r r1" by (rule sameRoutes_fields)
  have s2: "sameRoutes r1 r2" unfolding r2_def using r1 assms by (simp add: updRoute_same)
  have "arraysOk r2" using s1 s2 assms by (simp add: sameRoutes_def)
  then have "sameRoutes r2 (setAsync r i want)"
    unfolding eq using static_same [of r2 m p] by (auto simp: sameRoutes_def split: option.splits)
  then show ?thesis using s1 s2 sameRoutes_trans by blast
qed

text \<open>The routers that registration, naming and the dispatch flags lead to.\<close>

inductive routerReach :: "'f router \<Rightarrow> bool" where
  new: "routerReach (newRouter\<lparr>defaultAsync := d, noAutoHEAD := nh, noAutoOPTIONS := no\<rparr>)"
| add: "routerReach r \<Longrightarrow> routerReach (snd (addRouteWithAsync r m p hs as))"
| asyn: "routerReach r \<Longrightarrow> routerReach (setAsync r i want)"
| name: "routerReach r \<Longrightarrow> routerReach (snd (routeName r i nm))"
| tryName: "routerReach r \<Longrightarrow> routerReach (snd (routeTryName r i nm))"

lemma routerReach_ok: "routerReach r \<Longrightarrow> routerOk r"
proof (induction rule: routerReach.induct)
  case (new d nh no)
  then show ?case by (rule newRouter_ok)
next
  case (add r m p hs as)
  then show ?case using addRoute_routes(2) addRoute_refused [of p r m hs as] by (cases "validRoute p") auto
next
  case (asyn r i want)
  then have "arraysOk r" by (simp add: routerOk_def)
  from sameRoutes_ok(2) [OF setAsync_same [OF this] asyn.IH] show ?case .
next
  case (name r i nm)
  have "sameRoutes r (snd (routeName r i nm))" by (rule sameRoutes_fields) (simp_all add: routeName_def Let_def)
  then show ?case using name.IH sameRoutes_ok(2) by blast
next
  case (tryName r i nm)
  have "sameRoutes r (snd (routeTryName r i nm))" by (rule sameRoutes_fields) (simp_all add: routeTryName_def)
  then show ?case using tryName.IH sameRoutes_ok(2) by blast
qed

end
