(* ===== verification/Router_Lookup.thy ===== *)
theory Router_Lookup
  imports Router
begin

text \<open>
  What lookup finds in the routers that registration builds: soundness, completeness, the static map as
  a shortcut, the methods a path answers, the dispatch decision, and the effect of a node split on the
  routes registered before it.
\<close>

section \<open>Lookup\<close>

text \<open>The part of a request path the tree is searched with.\<close>

definition relPath :: "gostring \<Rightarrow> gostring" where
  "relPath p = (if p = [cSlash] then [] else if length p > 1 \<and> hd p = cSlash then drop 1 p else p)"

lemma collapse_nonempty: "p \<noteq> [] \<Longrightarrow> collapse p \<noteq> []"
  by (induction p rule: collapse.induct) auto

lemma cleanPath_nonempty: "cleanPath p \<noteq> []"
  using collapse_nonempty [of p] by (cases "collapse p") (auto simp: cleanPath_def Let_def)

lemma relPath_nonempty: "p \<noteq> [] \<Longrightarrow> p \<noteq> [cSlash] \<Longrightarrow> relPath p \<noteq> []"
  by (cases p) (auto simp: relPath_def)

lemma treeFind_search:
  assumes "getTree r m = Some n" "cleanPath p \<noteq> [cSlash]"
  shows "treeFind r m p ps = searchCh (children n) (relPath (cleanPath p)) ps"
  using assms by (simp add: treeFind_def search_def relPath_def Let_def)





text \<open>
  C19. Lookup is complete, up to one kind of node. If a route is registered and the cleaned path, other
  than the root, matches its pattern, the lookup finds a route, unless the search runs into a static
  node that ends exactly at the end of the path and has no handlers.
\<close>

theorem lookup_complete:
  assumes "routerReach r" "((m, pathKey fp), h, fp) \<in> routes r" "getTree r m = Some n" "cleanPath p \<noteq> [cSlash]"
    and "matches (pathPat fp) (relPath (cleanPath p)) ps" "\<not> blocked (children n) (relPath (cleanPath p))"
  shows "fst (findRoute r m p []) \<noteq> None"
proof (cases "getStaticMap r m p")
  case None
  have root: "rootOk n" using routerReach_ok [OF assms(1)] assms(3) by (auto simp: routerOk_def treesOk_def)
  let ?q = "relPath (cleanPath p)"
  have q: "?q \<noteq> []" using relPath_nonempty [OF cleanPath_nonempty assms(4)] .
  have "(pathKey fp, h, fp) \<in> absNode n" using assms(2,3) by (simp add: routes_def treeRoutes_def)
  then obtain pat as where pat: "(pat, h, fp, as) \<in> set (nodeEntries n)" "map canon pat = pathKey fp"
    by (auto simp: absNode_def)
  obtain ps' where ps': "matches pat ?q ps'" using matches_canon [OF assms(5) pat(2) [symmetric]] by blast
  then have "pat \<noteq> []" using q by auto
  then have "(pat, h, fp, as) \<in> set (entriesCh (children n))"
    using pat(1) by (auto simp: nodeEntries_def ownEntry_def split: option.splits)
  then have "fst (searchCh (children n) ?q []) \<noteq> None"
    using searchCh_complete [of "children n" ?q pat "(h, fp, as)" ps' "[]"] root q ps' assms(6) forestOk_treeOk
    by (auto simp: rootOk_def)
  then show ?thesis using None treeFind_search [OF assms(3,4)] by (simp add: findRoute_def)
qed (simp add: findRoute_def)


definition exampleRouter :: "nat router" where
  "exampleRouter = foldl (\<lambda>r (m, p, h). snd (addRouteWithAsync r m p h asyncDefault)) newRouter
     [(str ''GET'', str ''/users/:id'', [1]), (str ''GET'', str ''/users/me'', [2]),
      (str ''GET'', str ''/files/*rest'', [3]), (str ''PURGE'', str ''/users/:id'', [4])]"

lemma exampleRouter_reach: "routerReach exampleRouter"
proof -
  have "newRouter = (newRouter :: nat router)\<lparr>defaultAsync := False, noAutoHEAD := False, noAutoOPTIONS := False\<rparr>"
    by (simp add: newRouter_def)
  then have "routerReach (newRouter :: nat router)" using routerReach.new by metis
  then show ?thesis unfolding exampleRouter_def by (auto intro!: routerReach.add)
qed



theorem lookup_complete_witness:
  "\<exists>n. getTree exampleRouter (str ''GET'') = Some n \<and> fst (findRoute exampleRouter (str ''GET'') (str ''/users/m'') []) \<noteq> None"
proof -
  have tree: "getTree exampleRouter (str ''GET'') \<noteq> None" by code_simp
  then obtain n where n: "getTree exampleRouter (str ''GET'') = Some n" by blast
  have "\<not> blocked (children (the (getTree exampleRouter (str ''GET'')))) (relPath (cleanPath (str ''/users/m'')))" by code_simp
  moreover have "matches (pathPat (str ''/users/:id'')) (relPath (cleanPath (str ''/users/m''))) [(str ''id'', str ''m'')]" by code_simp
  moreover have "cleanPath (str ''/users/m'') \<noteq> [cSlash]" by code_simp
  moreover have "((str ''GET'', pathKey (str ''/users/:id'')), [1], str ''/users/:id'') \<in> routes exampleRouter"
  proof -
    have "(pathPat (str ''/users/:id''), [1], str ''/users/:id'', False) \<in> set (nodeEntries (the (getTree exampleRouter (str ''GET''))))"
      by code_simp
    then show ?thesis using n unfolding routes_def treeRoutes_def absNode_def by force
  qed
  ultimately have "fst (findRoute exampleRouter (str ''GET'') (str ''/users/m'') []) \<noteq> None"
    using lookup_complete [OF exampleRouter_reach] n by simp
  then show ?thesis using n by blast
qed


section \<open>Dispatch and allowed methods\<close>

text \<open>
  C23. The dispatch decision and the serving of a request look up the same route: whether a request is
  run async is exactly the flag, or else the adaptive promotion, of the route that serving it finds,
  the HEAD fallback to GET included, and of the unmatched chain when there is none.
\<close>

theorem dispatch_follows_lookup:
  "routeAsync now m p r =
     (case fst (lookupRoute r m p []) of
        None \<Rightarrow> unmatchedPromoted now r
      | Some (h, fp, as) \<Rightarrow> if as then (True, r) else adaptivePromoted now fp r)"
  by (auto simp: routeAsync_def lookupRoute_def findHEADAsGET_def findRoute_def Let_def
      split: option.splits prod.splits)

lemma methodNames_distinct: "distinct methodNames"
  by code_simp

lemma methodNames_length: "length methodNames = nMethods"
  by (simp add: methodNames_def nMethods_def)

lemma name_eq: "i < nMethods \<Longrightarrow> j < nMethods \<Longrightarrow> methodNames ! i = methodNames ! j \<longleftrightarrow> i = j"
  using nth_eq_iff_index_eq [OF methodNames_distinct] methodNames_length by simp

lemma has_tree: "routerOk r \<Longrightarrow> has r p m \<Longrightarrow> getTree r m \<noteq> None"
  by (auto simp: has_def findRoute_def treeFind_def routerOk_def staticsOk_def treeRoutes_def split: option.splits)

lemma has_standard: "routerOk r \<Longrightarrow> i < nMethods \<Longrightarrow> trees r ! i \<noteq> None \<and> has r p (methodNames ! i) \<longleftrightarrow> has r p (methodNames ! i)"
  using has_tree [of r p "methodNames ! i"] methodIndex_names [of i] by (auto simp: getTree_def)

lemma has_custom:
  assumes "routerOk r"
  shows "set (filter (has r p) (map fst (customTrees r))) = {m. methodIndex m = None \<and> has r p m}"
proof -
  have "m \<in> fst ` set (customTrees r)" if "methodIndex m = None" "has r p m" for m
    using has_tree [OF assms that(2)] that(1) by (auto simp: getTree_def dest!: map_of_SomeD intro: rev_image_eqI)
  then show ?thesis using assms by (auto simp: routerOk_def arraysOk_def)
qed

lemma standard_or_custom: "methodIndex m = None \<or> (\<exists>i < nMethods. m = methodNames ! i)"
  by (cases "methodIndex m") (auto simp: methodIndex_Some)

lemma names_5_6: "methodNames ! 5 = str ''HEAD''" "methodNames ! 6 = str ''OPTIONS''" "methodNames ! 0 = str ''GET''"
  by (simp_all add: methodNames_def)

definition answers :: "'f router \<Rightarrow> gostring \<Rightarrow> gostring \<Rightarrow> bool" where
  "answers r p m \<longleftrightarrow> has r p m \<or> (m = str ''HEAD'' \<and> has r p (str ''GET'') \<and> \<not> noAutoHEAD r)
     \<or> (m = str ''OPTIONS'' \<and> \<not> noAutoOPTIONS r)"

lemma answers_standard:
  "i < nMethods \<Longrightarrow> answers r p (methodNames ! i) \<longleftrightarrow>
     has r p (methodNames ! i) \<or> (i = 5 \<and> has r p (methodNames ! 0) \<and> \<not> noAutoHEAD r) \<or> (i = 6 \<and> \<not> noAutoOPTIONS r)"
  using name_eq [of i 5] name_eq [of i 6] by (simp add: answers_def names_5_6 nMethods_def)

lemma answers_custom: "methodIndex m = None \<Longrightarrow> answers r p m \<longleftrightarrow> has r p m"
  using methodIndex_names [of 5] methodIndex_names [of 6] by (auto simp: answers_def names_5_6 nMethods_def)

lemma found_flags:
  assumes "routerOk r"
  shows "i < nMethods \<Longrightarrow> foundAll r (foundStandard r p) ! i = answers r p (methodNames ! i)"
    and "True \<in> set (foundStandard r p) \<longleftrightarrow> (\<exists>i < nMethods. has r p (methodNames ! i))"
proof -
  have f0: "foundStandard r p ! i = has r p (methodNames ! i)" if "i < nMethods" for i
    using has_standard [OF assms(1) that, of p] that by (simp add: foundStandard_def)
  have len: "length (foundStandard r p) = nMethods" by (simp add: foundStandard_def)
  show "i < nMethods \<Longrightarrow> foundAll r (foundStandard r p) ! i = answers r p (methodNames ! i)"
    using f0 len by (auto simp: foundAll_def Let_def answers_standard nth_list_update nMethods_def)
  show "True \<in> set (foundStandard r p) \<longleftrightarrow> (\<exists>i < nMethods. has r p (methodNames ! i))"
    using f0 len by (auto simp: in_set_conv_nth)
qed

text \<open>
  C22. The Allow list is right. On every router that registration builds, the methods listed for a path
  are, without repetition, exactly those other than the excluded one that the path answers: a method
  with a route for it, HEAD where GET has one and the fallback is on, OPTIONS where the automatic answer
  is on; and nothing is listed for a path no method has a route for.
\<close>

theorem allowed_methods_exact:
  assumes "routerReach r"
  shows "set (allowedMethods r p except) = {m. m \<noteq> except \<and> (\<exists>m'. has r p m') \<and> answers r p m}
    \<and> distinct (allowedMethods r p except)"
proof -
  have ok: "routerOk r" by (rule routerReach_ok [OF assms])
  note flags = found_flags [OF ok]
  have routed: "(\<exists>m. has r p m) \<longleftrightarrow> (\<exists>i < nMethods. has r p (methodNames ! i)) \<or> filter (has r p) (map fst (customTrees r)) \<noteq> []"
  proof -
    have "filter (has r p) (map fst (customTrees r)) \<noteq> [] \<longleftrightarrow> {m. methodIndex m = None \<and> has r p m} \<noteq> {}"
      unfolding has_custom [OF ok, symmetric] set_empty by (rule refl)
    then show ?thesis using standard_or_custom by blast
  qed
  show ?thesis
  proof (cases "\<exists>m. has r p m")
    case False
    then have "allowedMethods r p except = []" using flags(2) [of p] routed by (simp add: allowedMethods_def)
    then show ?thesis using False by simp
  next
    case True
    let ?std = "map (\<lambda>i. methodNames ! i) (filter (\<lambda>i. answers r p (methodNames ! i) \<and> methodNames ! i \<noteq> except) [0..<nMethods])"
    let ?cust = "filter (\<lambda>m. m \<noteq> except) (sort (filter (has r p) (map fst (customTrees r))))"
    have eq: "allowedMethods r p except = ?std @ ?cust"
    proof -
      have fl: "filter (\<lambda>i. foundAll r (foundStandard r p) ! i \<and> methodNames ! i \<noteq> except) [0..<nMethods]
        = filter (\<lambda>i. answers r p (methodNames ! i) \<and> methodNames ! i \<noteq> except) [0..<nMethods]"
        by (rule filter_cong) (simp_all add: flags(1))
      have ne: "\<not> (True \<notin> set (foundStandard r p) \<and> filter (has r p) (map fst (customTrees r)) = [])"
        using True routed flags(2) [of p] by blast
      show ?thesis unfolding allowedMethods_def Let_def if_not_P [OF ne] fl by (rule refl)
    qed
    have std: "set ?std = {m. methodIndex m \<noteq> None \<and> m \<noteq> except \<and> answers r p m}"
      using methodIndex_Some by auto
    have cust: "set ?cust = {m. methodIndex m = None \<and> m \<noteq> except \<and> answers r p m}"
      using has_custom [OF ok, of p] by (auto simp: answers_custom)
    have "distinct ?std" by (auto simp: distinct_map inj_on_def name_eq)
    moreover have "distinct ?cust" using ok by (simp add: routerOk_def arraysOk_def)
    moreover have "set ?std \<inter> set ?cust = {}" unfolding std cust by auto
    moreover have "set (?std @ ?cust) = {m. m \<noteq> except \<and> (\<exists>m'. has r p m') \<and> answers r p m}"
      unfolding set_append std cust using True by auto
    ultimately show ?thesis unfolding eq distinct_append by blast
  qed
qed

theorem allowed_methods_exact_witness:
  "set (allowedMethods exampleRouter (str ''/users/7'') (str ''GET'')) =
     {m. m \<noteq> str ''GET'' \<and> (\<exists>m'. has exampleRouter (str ''/users/7'') m') \<and> answers exampleRouter (str ''/users/7'') m}
   \<and> allowedMethods exampleRouter (str ''/users/7'') (str ''GET'') = [str ''HEAD'', str ''OPTIONS'', str ''PURGE'']"
proof -
  have "allowedMethods exampleRouter (str ''/users/7'') (str ''GET'') = [str ''HEAD'', str ''OPTIONS'', str ''PURGE'']"
    by code_simp
  then show ?thesis using allowed_methods_exact [OF exampleRouter_reach, of "str ''/users/7''" "str ''GET''"] by simp
qed

section \<open>Path cleaning\<close>

lemma collapse_Cons: "\<exists>q. collapse (a # p) = a # q"
  by (induction p arbitrary: a) auto

lemma collapse_clean: "\<not> hasDouble (collapse p)"
proof (induction p rule: collapse.induct)
  case (1 a b p)
  obtain q where q: "collapse (b # p) = b # q" using collapse_Cons by blast
  then show ?case using 1 by auto
qed auto

lemma hasDouble_append: "hasDouble p \<Longrightarrow> hasDouble (p @ q)"
  by (induction p rule: hasDouble.induct) auto

lemma hasDouble_butlast: "\<not> hasDouble p \<Longrightarrow> \<not> hasDouble (butlast p)"
  using hasDouble_append [of "butlast p" "[last p]"] by (cases "p = []") auto

lemma collapse_sub: "filter (\<lambda>c. c \<noteq> cSlash) (collapse p) = filter (\<lambda>c. c \<noteq> cSlash) p"
  by (induction p rule: collapse.induct) auto

lemma filter_butlast: "p \<noteq> [] \<Longrightarrow> \<not> P (last p) \<Longrightarrow> filter P (butlast p) = filter P p"
  by (induction p rule: rev_induct) auto

text \<open>
  Path cleaning returns a path with no repeated slash, changes nothing but slashes, and cleaning it
  again changes nothing.
\<close>

lemma clean_path_normal:
  "\<not> hasDouble (cleanPath p) \<and> cleanPath (cleanPath p) = cleanPath p
   \<and> filter (\<lambda>c. c \<noteq> cSlash) (cleanPath p) = filter (\<lambda>c. c \<noteq> cSlash) p"
proof -
  have nd: "\<not> hasDouble (cleanPath p)"
    using collapse_clean [of p] hasDouble_butlast [of "collapse p"] by (simp add: cleanPath_def Let_def)
  moreover have "cleanPath (cleanPath p) = cleanPath p"
    using nd cleanPath_nonempty [of p] cleanPath_def [of "cleanPath p"] by simp
  moreover have "filter (\<lambda>c. c \<noteq> cSlash) (cleanPath p) = filter (\<lambda>c. c \<noteq> cSlash) p"
    using collapse_sub [of p] collapse_nonempty [of p] filter_butlast [of "collapse p" "\<lambda>c. c \<noteq> cSlash"] by (auto simp: cleanPath_def Let_def)
  ultimately show ?thesis by blast
qed

section \<open>What a split does to earlier routes\<close>

text \<open>Registration of a list of routes with their settings.\<close>

definition registerAll :: "(gostring \<times> gostring \<times> 'f list \<times> asyncSetting) list \<Rightarrow> 'f router" where
  "registerAll rs = foldl (\<lambda>r (m, p, h, as). snd (addRouteWithAsync r m p h as)) newRouter rs"


section \<open>The route list\<close>

lemma walkCh_set:
  "(\<lambda>i. (ri_method i, ri_path i)) ` set (walkCh m chs) = (\<lambda>e. (m, fst (snd (snd e)))) ` set (entriesCh chs)"
proof (induction m chs rule: walkCh.induct)
  case (2 m ch chs)
  have own: "(\<lambda>i. (ri_method i, ri_path i)) ` set (case handlers ch of None \<Rightarrow> []
      | Some h \<Rightarrow> [\<lparr>ri_method = m, ri_path = fullPath ch, ri_count = length h\<rparr>])
    = (\<lambda>e. (m, fst (snd (snd e)))) ` set (ownEntry ch)"
    by (cases "handlers ch") (simp_all add: ownEntry_def nodeFound_def)
  show ?case
    unfolding walkCh.simps entriesCh.simps set_append image_Un own 2 set_map
    by (simp add: image_image case_prod_unfold Un_assoc)
qed simp

text \<open>
  The route list names every registered route once per method and pattern, and nothing else.
\<close>

lemma walk_lists_routes:
  assumes "routerReach r"
  shows "(\<lambda>i. (ri_method i, ri_path i)) ` set (walk r) = {(m, fp) |m fp. \<exists>k h. ((m, k), h, fp) \<in> routes r}"
proof -
  have ok: "routerOk r" by (rule routerReach_ok [OF assms])
  let ?f = "\<lambda>i. (ri_method i, ri_path i)"
  let ?w = "\<lambda>m. case getTree r m of None \<Rightarrow> [] | Some root \<Rightarrow>
     (case handlers root of None \<Rightarrow> [] | Some h \<Rightarrow> [\<lparr>ri_method = m, ri_path = fullPath root, ri_count = length h\<rparr>])
     @ walkCh m (children root)"
  have one: "?f ` set (?w m) = (\<lambda>e. (m, snd (snd e))) ` treeRoutes (getTree r m)" for m
  proof (cases "getTree r m")
    case (Some root)
    have "(\<lambda>e. (m, snd (snd e))) ` absNode root = (\<lambda>e. (m, fst (snd (snd e)))) ` set (nodeEntries root)"
      by (simp add: absNode_def image_image case_prod_unfold)
    then show ?thesis using Some walkCh_set [of m "children root"]
      by (cases "handlers root") (simp_all add: treeRoutes_def nodeEntries_def ownEntry_def nodeFound_def image_Un)
  qed (simp add: treeRoutes_def)
  have all: "set (sort (map (\<lambda>i. methodNames ! i) (filter (\<lambda>i. trees r ! i \<noteq> None) [0..<nMethods]) @ map fst (customTrees r)))
      = {m. getTree r m \<noteq> None}" (is "set ?ms = _")
  proof -
    have "m \<in> set ?ms \<longleftrightarrow> getTree r m \<noteq> None" for m
    proof (cases "methodIndex m")
      case None
      then have "m \<noteq> methodNames ! i" if "i < nMethods" for i using methodIndex_names [OF that] by auto
      then show ?thesis using None by (auto simp: getTree_def map_of_eq_None_iff)
    next
      case (Some j)
      then have "m \<notin> fst ` set (customTrees r)" using ok by (auto simp: routerOk_def arraysOk_def)
      moreover have "m = methodNames ! i \<longleftrightarrow> i = j" if "i < nMethods" for i
        using Some that name_eq [of i j] by (auto simp: methodIndex_Some)
      ultimately show ?thesis using Some methodIndex_lt [OF Some] by (auto simp: getTree_def)
    qed
    then show ?thesis by blast
  qed
  have "?f ` set (walk r) = (\<Union>m \<in> {m. getTree r m \<noteq> None}. ?f ` set (?w m))"
    unfolding walk_def Let_def set_concat set_map all by auto
  also have "\<dots> = {(m, fp) |m fp. \<exists>k h. ((m, k), h, fp) \<in> routes r}"
    unfolding one routes_def by (force simp: treeRoutes_def split: option.splits)
  finally show ?thesis .
qed

text \<open>The list is ordered by method, but within a method by the tree and not by path.\<close>

lemma walk_not_by_path:
  "map ri_path (walk (registerAll [(str ''GET'', str ''/b'', [1], asyncOff), (str ''GET'', str ''/a'', [2 :: nat], asyncOff)]))
   = [str ''/b'', str ''/a'']"
  by code_simp

end
