(* ===== verification/Router_Url.thy ===== *)
theory Router_Url
  imports Router_Lookup
begin

text \<open>
  Reverse routing (\<^verbatim>\<open>URL\<close>, \<^verbatim>\<open>URLMap\<close> and \<^verbatim>\<open>buildURL\<close> of \<^verbatim>\<open>server.go\<close>): a URL built for a route is
  matched by the pattern of that route with the values it was built from.
\<close>

section \<open>Definitions\<close>

datatype url_error = ErrRouteNotFound | ErrMissingParam gostring | ErrTooManyParams

text \<open>The lookup of a parameter value is a function with a state: the position in the argument list.\<close>

definition catchAllParts :: "gostring \<Rightarrow> gostring \<Rightarrow> gostring" where
  "catchAllParts buf v =
     (if v = [] then (if buf \<noteq> [] \<and> last buf = cSlash then butlast buf else buf)
      else if buf \<noteq> [] \<and> last buf = cSlash \<and> hd v = cSlash then buf @ drop 1 v
      else buf @ v)"

function buildURL ::
  "(gostring \<Rightarrow> 's \<Rightarrow> gostring option \<times> 's) \<Rightarrow> 's \<Rightarrow> gostring \<Rightarrow> gostring \<Rightarrow> (url_error + gostring) \<times> 's" where
  "buildURL lookup st [] buf = (Inr buf, st)"
| "buildURL lookup st (c # cs) buf =
     (if c = cColon then
        (let key = takeWhile (\<lambda>d. d \<noteq> cSlash) cs in
         case lookup key st of
           (None, st') \<Rightarrow> (Inl (ErrMissingParam key), st')
         | (Some v, st') \<Rightarrow> buildURL lookup st' (dropWhile (\<lambda>d. d \<noteq> cSlash) cs) (buf @ v))
      else if c = cStar then
        (case lookup cs st of
           (None, st') \<Rightarrow> (Inl (ErrMissingParam cs), st')
         | (Some v, st') \<Rightarrow> (Inr (catchAllParts buf v), st'))
      else buildURL lookup st cs (buf @ [c]))"
  by pat_completeness auto
termination
  by (relation "measure (\<lambda>(lookup, st, p, buf). length p)")
    (auto simp: less_Suc_eq_le length_dropWhile_le)

fun positional :: "gostring \<Rightarrow> gostring list \<Rightarrow> gostring option \<times> gostring list" where
  "positional key [] = (None, [])"
| "positional key (v # vs) = (Some v, vs)"

definition named :: "gostring \<Rightarrow> (gostring \<Rightarrow> gostring option) \<Rightarrow> gostring option \<times> (gostring \<Rightarrow> gostring option)" where
  "named key m = (m key, m)"

definition serverURL :: "'f router \<Rightarrow> gostring \<Rightarrow> gostring list \<Rightarrow> url_error + gostring" where
  "serverURL r name vs =
     (case namedRoutes r name of
        None \<Rightarrow> Inl ErrRouteNotFound
      | Some i \<Rightarrow>
          (case buildURL positional vs (rt_path (routesHeap r ! i)) [] of
             (Inl e, _) \<Rightarrow> Inl e
           | (Inr u, rest) \<Rightarrow> if rest = [] then Inr u else Inl ErrTooManyParams))"

definition serverURLMap :: "'f router \<Rightarrow> gostring \<Rightarrow> (gostring \<Rightarrow> gostring option) \<Rightarrow> url_error + gostring" where
  "serverURLMap r name m =
     (case namedRoutes r name of
        None \<Rightarrow> Inl ErrRouteNotFound
      | Some i \<Rightarrow> fst (buildURL named m (rt_path (routesHeap r ! i)) []))"

section \<open>Patterns read off the path\<close>

function bytePat :: "gostring \<Rightarrow> tok list" where
  "bytePat [] = []"
| "bytePat (c # cs) =
     (if c = cColon then Par (takeWhile (\<lambda>d. d \<noteq> cSlash) cs) # bytePat (dropWhile (\<lambda>d. d \<noteq> cSlash) cs)
      else if c = cStar then [Cat cs]
      else Lit c # bytePat cs)"
  by pat_completeness auto
termination
  by (relation "measure length") (auto simp: less_Suc_eq_le length_dropWhile_le)

lemma bytePat_lits:
  "bytePat p = map Lit (takeWhile (\<lambda>d. d \<noteq> cColon \<and> d \<noteq> cStar) p) @ bytePat (dropWhile (\<lambda>d. d \<noteq> cColon \<and> d \<noteq> cStar) p)"
  by (induction p) auto

lemma segPat_simps:
  "segPat (Segment Static tx) = map Lit tx" "segPat (Segment Param tx) = [Par (drop 1 tx)]"
  "segPat (Segment CatchAll tx) = [Cat (drop 1 tx)]"
  by (simp_all add: segPat_def)

lemma splitLoop_bytePat: "concat (map segPat (splitLoop p)) = bytePat p"
proof (induction p rule: splitLoop.induct)
  case 1
  then show ?case by (simp add: splitLoop.simps)
next
  case (2 c cs)
  let ?p = "c # cs"
  consider (colon) "c = cColon" | (star) "c \<noteq> cColon" "c = cStar" | (lit) "c \<noteq> cColon" "c \<noteq> cStar" by blast
  then show ?case
  proof cases
    case colon
    let ?e = "findSegmentEnd ?p"
    have take: "take ?e ?p = c # takeWhile (\<lambda>d. d \<noteq> cSlash) cs" and drop: "drop ?e ?p = dropWhile (\<lambda>d. d \<noteq> cSlash) cs"
      using colon by (simp_all add: findSegmentEnd_def takeWhile_eq_take [symmetric] dropWhile_eq_drop [symmetric])
    show ?thesis
    proof (cases "drop ?e ?p")
      case Nil
      then have "splitLoop ?p = [Segment Param (take ?e ?p)]" using colon by (subst splitLoop.simps) (simp add: Let_def)
      then show ?thesis using colon take drop Nil by (simp add: segPat_simps del: dropWhile_eq_Nil_conv)
    next
      case (Cons d rest')
      have d: "d = cSlash" using Cons drop hd_dropWhile [of "\<lambda>d. d \<noteq> cSlash" cs] by auto
      have "splitLoop ?p = Segment Param (take ?e ?p) # Segment Static [cSlash] # splitLoop rest'"
        using colon Cons d by (subst splitLoop.simps) (simp add: Let_def)
      moreover have "concat (map segPat (splitLoop rest')) = bytePat rest'" using 2(1) [OF refl colon refl refl Cons d] .
      ultimately show ?thesis using colon take drop Cons d by (simp add: segPat_simps)
    qed
  next
    case star
    then have "splitLoop ?p = [Segment CatchAll ?p]" by (subst splitLoop.simps) simp
    then show ?thesis using star by (simp add: segPat_simps)
  next
    case lit
    let ?f = "length (takeWhile (\<lambda>d. d \<noteq> cColon \<and> d \<noteq> cStar) ?p)"
    have eq: "splitLoop ?p = Segment Static (take ?f ?p) # splitLoop (drop ?f ?p)"
      using lit by (subst splitLoop.simps) (simp add: Let_def)
    have "concat (map segPat (splitLoop (drop ?f ?p))) = bytePat (drop ?f ?p)" using 2(3) [OF refl lit refl] .
    moreover have "take ?f ?p = takeWhile (\<lambda>d. d \<noteq> cColon \<and> d \<noteq> cStar) ?p" by (metis takeWhile_eq_take)
    moreover have "drop ?f ?p = dropWhile (\<lambda>d. d \<noteq> cColon \<and> d \<noteq> cStar) ?p" by (metis dropWhile_eq_drop)
    ultimately show ?thesis using bytePat_lits [of ?p] by (simp only: eq list.map concat.simps segPat_simps)
  qed
qed

lemma pathPat_bytes: "rooted p \<Longrightarrow> pathPat p = bytePat (drop 1 p)"
  by (auto simp: pathPat_def splitPath_def splitLoop_bytePat)

section \<open>A built URL is matched\<close>

text \<open>
  The values of named parameters are non-empty and without slash, and a catch-all follows a slash and gets
  a value that begins with one and goes on.
\<close>

fun fits :: "tok \<Rightarrow> gostring \<Rightarrow> bool" where
  "fits (Cat k) v \<longleftrightarrow> (\<exists>w. w \<noteq> [] \<and> v = cSlash # w)"
| "fits t v \<longleftrightarrow> v \<noteq> [] \<and> cSlash \<notin> set v"

definition wild :: "tok list \<Rightarrow> tok list" where
  "wild ts = filter (\<lambda>t. case t of Lit _ \<Rightarrow> False | _ \<Rightarrow> True) ts"

function starOk :: "byte \<Rightarrow> gostring \<Rightarrow> bool" where
  "starOk prev [] \<longleftrightarrow> True"
| "starOk prev (c # cs) \<longleftrightarrow>
     (if c = cColon then starOk c (dropWhile (\<lambda>d. d \<noteq> cSlash) cs)
      else if c = cStar then prev = cSlash else starOk c cs)"
  by pat_completeness auto
termination
  by (relation "measure (\<lambda>(c, p). length p)") (auto simp: less_Suc_eq_le length_dropWhile_le)

lemma starOk_prev:
  assumes "starOk c (dropWhile (\<lambda>d. d \<noteq> cSlash) cs)"
  shows "starOk d (dropWhile (\<lambda>d. d \<noteq> cSlash) cs)"
proof (cases "dropWhile (\<lambda>d. d \<noteq> cSlash) cs")
  case (Cons x xs)
  then have "x = cSlash" using hd_dropWhile [of "\<lambda>d. d \<noteq> cSlash" cs] by auto
  then show ?thesis using assms Cons by simp
qed (simp del: dropWhile_eq_Nil_conv)

lemma buildURL_matches:
  assumes "buildURL positional vs s buf = (Inr u, rest)" "list_all2 fits (wild (bytePat s)) vs"
    and "starOk (last (cSlash # buf)) s" "buf \<noteq> []"
  shows "rest = [] \<and> (\<exists>w ps. u = buf @ w \<and> matches (bytePat s) w ps \<and> map snd ps = vs
    \<and> (s = [] \<longrightarrow> w = []) \<and> (\<forall>t. s = cSlash # t \<longrightarrow> (\<exists>w'. w = cSlash # w')))"
  using assms
proof (induction "positional" vs s buf rule: buildURL.induct)
  case (1 st buf)
  then show ?case by (auto simp: wild_def intro: exI [of _ "[]"])
next
  case (2 vs c cs buf)
  consider (colon) "c = cColon" | (star) "c \<noteq> cColon" "c = cStar" | (lit) "c \<noteq> cColon" "c \<noteq> cStar" by blast
  then show ?case
  proof cases
    case colon
    let ?rest = "dropWhile (\<lambda>d. d \<noteq> cSlash) cs" and ?key = "takeWhile (\<lambda>d. d \<noteq> cSlash) cs"
    have pat: "bytePat (c # cs) = Par ?key # bytePat ?rest" using colon by simp
    obtain v vs' where vs: "vs = v # vs'" "v \<noteq> []" "cSlash \<notin> set v" "list_all2 fits (wild (bytePat ?rest)) vs'"
      using "2.prems"(2) pat by (cases vs) (auto simp: wild_def)
    have "buildURL positional vs' ?rest (buf @ v) = (Inr u, rest)" using "2.prems"(1) colon vs(1) by (simp add: Let_def)
    moreover have "starOk (last (cSlash # buf @ v)) ?rest" using "2.prems"(3) colon starOk_prev by simp
    ultimately have ih: "rest = [] \<and> (\<exists>w ps. u = (buf @ v) @ w \<and> matches (bytePat ?rest) w ps \<and> map snd ps = vs'
        \<and> (?rest = [] \<longrightarrow> w = []) \<and> (\<forall>t. ?rest = cSlash # t \<longrightarrow> (\<exists>w'. w = cSlash # w')))"
      using 2(1) [OF colon refl, of "Some v" vs' v] vs by simp
    then obtain w ps where w: "u = buf @ v @ w" "matches (bytePat ?rest) w ps" "map snd ps = vs'"
        "w = [] \<or> hd w = cSlash \<and> w \<noteq> []"
      using hd_dropWhile [of "\<lambda>d. d \<noteq> cSlash" cs] by (cases ?rest) auto
    have fe: "takeWhile (\<lambda>c. c \<noteq> cSlash) (v @ w) = v"
      using w(4) vs(3) by (cases w) (auto simp: takeWhile_append2 takeWhile_tail)
    then have "findSegmentEnd (v @ w) = length v" by (simp add: findSegmentEnd_def)
    then have "matches (bytePat (c # cs)) (v @ w) ((?key, v) # ps)" unfolding pat using w(2) vs(2) by simp
    then show ?thesis using ih w vs(1) colon by (intro conjI exI [of _ "v @ w"] exI [of _ "(?key, v) # ps"]) auto
  next
    case star
    have pat: "bytePat (c # cs) = [Cat cs]" using star by simp
    obtain v w where v: "vs = [v]" "w \<noteq> []" "v = cSlash # w"
      using "2.prems"(2) pat by (cases vs) (auto simp: wild_def)
    have "last buf = cSlash" using "2.prems"(3,4) star by simp
    then have "u = buf @ w" "rest = []" using "2.prems"(1) star v "2.prems"(4) by (simp_all add: catchAllParts_def)
    then show ?thesis using pat v star by (intro conjI exI [of _ w] exI [of _ "[(cs, v)]"]) auto
  next
    case lit
    have pat: "bytePat (c # cs) = Lit c # bytePat cs" using lit by simp
    have "buildURL positional vs cs (buf @ [c]) = (Inr u, rest)" using "2.prems"(1) lit by simp
    moreover have "list_all2 fits (wild (bytePat cs)) vs" using "2.prems"(2) pat by (simp add: wild_def)
    moreover have "starOk (last (cSlash # buf @ [c])) cs" using "2.prems"(3) lit by simp
    ultimately obtain w ps where "rest = []" "u = (buf @ [c]) @ w" "matches (bytePat cs) w ps" "map snd ps = vs"
      using 2(2) [OF lit] by auto
    then show ?thesis using pat by (intro conjI exI [of _ "c # w"] exI [of _ ps]) auto
  qed
qed

text \<open>
  C21. Reverse routing and routing agree. If the URL of a named route is built from values that fit its
  parameters, then the pattern of the route matches that URL, and the values it extracts are exactly
  those the URL was built from, in order; in particular too few or too many values are refused.
\<close>

theorem url_matches_route:
  assumes "serverURL r name vs = Inr u" "namedRoutes r name = Some i"
    and "rooted (rt_path (routesHeap r ! i))" "starOk cSlash (drop 1 (rt_path (routesHeap r ! i)))"
    and "list_all2 fits (wild (pathPat (rt_path (routesHeap r ! i)))) vs"
  shows "rooted u \<and> (\<exists>ps. matches (pathPat (rt_path (routesHeap r ! i))) (drop 1 u) ps \<and> map snd ps = vs)"
proof -
  let ?p = "rt_path (routesHeap r ! i)"
  obtain s where p: "?p = cSlash # s" using assms(3) by (cases ?p) (auto simp: rooted_def)
  obtain rest where "buildURL positional vs ?p [] = (Inr u, rest)"
    using assms(1,2) by (auto simp: serverURL_def split: prod.splits sum.splits if_splits)
  then have "buildURL positional vs s [cSlash] = (Inr u, rest)" by (simp add: p)
  moreover have "pathPat ?p = bytePat s" using pathPat_bytes [OF assms(3)] by (simp add: p)
  ultimately obtain w ps where "u = [cSlash] @ w" "matches (pathPat ?p) w ps" "map snd ps = vs"
    using buildURL_matches [of vs s "[cSlash]" u rest] assms(4,5) by (auto simp: p)
  then show ?thesis by (auto simp: rooted_def)
qed

definition namedRouter :: "nat router" where
  "namedRouter = snd (routeName (registerAll [(str ''GET'', str ''/u/:id/f/*rest'', [1], asyncOff)]) 0 (str ''file''))"

theorem url_matches_route_witness:
  "serverURL namedRouter (str ''file'') [str ''42'', str ''/a/b''] = Inr (str ''/u/42/f/a/b'')
   \<and> (\<exists>ps. matches (pathPat (str ''/u/:id/f/*rest'')) (drop 1 (str ''/u/42/f/a/b'')) ps \<and> map snd ps = [str ''42'', str ''/a/b''])"
proof -
  have u: "serverURL namedRouter (str ''file'') [str ''42'', str ''/a/b''] = Inr (str ''/u/42/f/a/b'')" by code_simp
  have i: "namedRoutes namedRouter (str ''file'') = Some 0" by code_simp
  have p: "rt_path (routesHeap namedRouter ! 0) = str ''/u/:id/f/*rest''" by code_simp
  have "rooted (str ''/u/:id/f/*rest'')" "starOk cSlash (drop 1 (str ''/u/:id/f/*rest''))" by code_simp+
  moreover have "wild (pathPat (str ''/u/:id/f/*rest'')) = [Par (str ''id''), Cat (str ''rest'')]" by code_simp
  ultimately show ?thesis using url_matches_route [OF u i] u unfolding p by (simp add: bytes_simps)
qed

text \<open>
  The URL of a catch-all route with an empty value drops the slash before the catch-all, and the router
  does not find the route under that URL, although it finds it with the slash.
\<close>

lemma url_empty_catch_all:
  "serverURL (snd (routeName (registerAll [(str ''GET'', str ''/f/*rest'', [1 :: nat], asyncOff)]) 0 (str ''n''))) (str ''n'') [[]]
     = Inr (str ''/f'')
   \<and> fst (findRoute (registerAll [(str ''GET'', str ''/f/*rest'', [1 :: nat], asyncOff)]) (str ''GET'') (str ''/f'') []) = None
   \<and> fst (findRoute (registerAll [(str ''GET'', str ''/f/*rest'', [1 :: nat], asyncOff)]) (str ''GET'') (str ''/f/'') []) \<noteq> None"
  by (intro conjI; code_simp)

end
