(* ===== verification/WS_Utf8.thy ===== *)
theory WS_Utf8
  imports Prelude
begin

text \<open>
  The incremental UTF-8 validator of the WebSocket reader (\<^verbatim>\<open>middleware/websocket/utf8stream.go\<close>) over
  the functions of \<^verbatim>\<open>unicode/utf8\<close> it calls. \<open>runeLead\<close> is that package's table of first bytes with the
  range of the second byte; \<open>decodeRune\<close> gives the size of the rune at the front, or None where the
  package returns the error rune of size one.
\<close>

section \<open>Definitions\<close>

definition runeLead :: "byte \<Rightarrow> (nat \<times> byte \<times> byte) option" where
  "runeLead b =
     (if b < 0x80 then Some (1, 0, 0)
      else if b < 0xC2 then None
      else if b < 0xE0 then Some (2, 0x80, 0xBF)
      else if b = 0xE0 then Some (3, 0xA0, 0xBF)
      else if b < 0xED then Some (3, 0x80, 0xBF)
      else if b = 0xED then Some (3, 0x80, 0x9F)
      else if b < 0xF0 then Some (3, 0x80, 0xBF)
      else if b = 0xF0 then Some (4, 0x90, 0xBF)
      else if b < 0xF4 then Some (4, 0x80, 0xBF)
      else if b = 0xF4 then Some (4, 0x80, 0x8F)
      else None)"

definition isCont :: "byte \<Rightarrow> bool" where "isCont b \<longleftrightarrow> 0x80 \<le> b \<and> b \<le> 0xBF"

fun fullRune :: "byte list \<Rightarrow> bool" where
  "fullRune [] \<longleftrightarrow> False"
| "fullRune (b # bs) \<longleftrightarrow>
     (case runeLead b of
        None \<Rightarrow> True
      | Some (n, lo, hi) \<Rightarrow>
          n \<le> Suc (length bs)
          \<or> (bs \<noteq> [] \<and> \<not> (lo \<le> bs ! 0 \<and> bs ! 0 \<le> hi))
          \<or> (length bs > 1 \<and> \<not> isCont (bs ! 1)))"

fun decodeRune :: "byte list \<Rightarrow> nat option" where
  "decodeRune [] = None"
| "decodeRune (b # bs) =
     (case runeLead b of
        None \<Rightarrow> None
      | Some (n, lo, hi) \<Rightarrow>
          if n = 1 then Some 1
          else if Suc (length bs) < n then None
          else if \<not> (lo \<le> bs ! 0 \<and> bs ! 0 \<le> hi) then None
          else if n \<le> 2 then Some 2
          else if \<not> isCont (bs ! 1) then None
          else if n \<le> 3 then Some 3
          else if \<not> isCont (bs ! 2) then None
          else Some 4)"

lemma runeLead_size:
  "runeLead b = Some (n, lo, hi) \<Longrightarrow> n \<in> {1, 2, 3, 4} \<and> (n = 1 \<longleftrightarrow> b < 0x80) \<and> lo \<le> hi"
  by (auto simp: runeLead_def split: if_splits)

lemma decodeRune_bounds:
  assumes "decodeRune p = Some k"
  shows "1 \<le> k \<and> k \<le> length p"
proof (cases p)
  case (Cons b bs)
  then obtain n lo hi where r: "runeLead b = Some (n, lo, hi)" using assms by (auto split: option.splits)
  show ?thesis using assms Cons r runeLead_size [OF r] by (auto simp: Suc_le_eq split: if_splits)
qed (use assms in simp)

declare fullRune.simps(2) [simp del] decodeRune.simps(2) [simp del]

function utf8Valid :: "byte list \<Rightarrow> bool" where
  "utf8Valid p \<longleftrightarrow> p = [] \<or> (case decodeRune p of None \<Rightarrow> False | Some k \<Rightarrow> utf8Valid (drop k p))"
  by pat_completeness auto
termination
  by (relation "measure length") (auto dest: decodeRune_bounds)

text \<open>The loop of \<^verbatim>\<open>feed\<close>: the verdict and the bytes left pending.\<close>

function feedLoop :: "bool \<Rightarrow> byte list \<Rightarrow> bool \<times> byte list" where
  "feedLoop final [] = (True, [])"
| "feedLoop final (b # bs) =
     (if b < 0x80 then feedLoop final bs
      else if \<not> fullRune (b # bs) then
        (if final then (False, [])
         else if length (b # bs) > 4 then (False, [])
         else (True, b # bs))
      else case decodeRune (b # bs) of
             None \<Rightarrow> (False, [])
           | Some k \<Rightarrow> feedLoop final (drop k (b # bs)))"
  by pat_completeness auto
termination
  by (relation "measure (\<lambda>(final, p). length p)") (auto dest!: decodeRune_bounds)

declare utf8Valid.simps [simp del] feedLoop.simps(2) [simp del]

record utf8Stream =
  pending :: "byte list"

definition utf8Feed :: "utf8Stream \<Rightarrow> byte list \<Rightarrow> bool \<Rightarrow> bool \<times> utf8Stream" where
  "utf8Feed s data final = (case feedLoop final (pending s @ data) of (ok, q) \<Rightarrow> (ok, s\<lparr>pending := q\<rparr>))"

definition utf8Reset :: "utf8Stream \<Rightarrow> utf8Stream" where
  "utf8Reset s = s\<lparr>pending := []\<rparr>"

text \<open>A message that arrives in fragments, the last one fed as final.\<close>

fun feedFragments :: "utf8Stream \<Rightarrow> byte list list \<Rightarrow> bool" where
  "feedFragments s [] \<longleftrightarrow> True"
| "feedFragments s [d] \<longleftrightarrow> fst (utf8Feed s d True)"
| "feedFragments s (d # ds) \<longleftrightarrow> (case utf8Feed s d False of (ok, s') \<Rightarrow> ok \<and> feedFragments s' ds)"

section \<open>Runes and their prefixes\<close>

definition runeFits :: "nat \<Rightarrow> byte \<Rightarrow> byte \<Rightarrow> byte list \<Rightarrow> bool" where
  "runeFits n lo hi bs \<longleftrightarrow> n \<le> Suc (length bs) \<and> (n \<ge> 2 \<longrightarrow> lo \<le> bs ! 0 \<and> bs ! 0 \<le> hi)
     \<and> (n \<ge> 3 \<longrightarrow> isCont (bs ! 1)) \<and> (n \<ge> 4 \<longrightarrow> isCont (bs ! 2))"

lemma decode_lead:
  assumes "runeLead b = Some (n, lo, hi)"
  shows "decodeRune (b # bs) = (if runeFits n lo hi bs then Some n else None)"
proof -
  have "n = 1 \<or> n = 2 \<or> n = 3 \<or> n = 4" using runeLead_size [OF assms] by auto
  then show ?thesis unfolding decodeRune.simps assms runeFits_def by (elim disjE) (simp_all add: Suc_le_eq)
qed

lemma decode_None: "runeLead b = None \<Longrightarrow> decodeRune (b # bs) = None"
  by (simp add: decodeRune.simps)

lemma fits_append: "n \<in> {1, 2, 3, 4} \<Longrightarrow> n \<le> Suc (length bs) \<Longrightarrow> runeFits n lo hi (bs @ y) \<longleftrightarrow> runeFits n lo hi bs"
  by (auto simp: runeFits_def nth_append)

lemma decode_append:
  assumes "decodeRune p = Some k"
  shows "decodeRune (p @ y) = Some k"
proof (cases p)
  case (Cons b bs)
  then obtain n lo hi where r: "runeLead b = Some (n, lo, hi)"
    using assms decode_None [of b bs] by (cases "runeLead b") auto
  have fit: "runeFits n lo hi bs" "k = n" using assms decode_lead [OF r, of bs] Cons by (simp_all split: if_splits)
  then have "n \<le> Suc (length bs)" by (simp add: runeFits_def)
  moreover have "n \<in> {1, 2, 3, 4}" using runeLead_size [OF r] by blast
  ultimately have "runeFits n lo hi (bs @ y)" using fits_append fit(1) by blast
  then show ?thesis using fit(2) decode_lead [OF r, of "bs @ y"] Cons by simp
qed (use assms in simp)

lemma decode_take:
  assumes "decodeRune p = Some k"
  shows "decodeRune (take k p) = Some k"
proof (cases p)
  case (Cons b bs)
  then obtain n lo hi where r: "runeLead b = Some (n, lo, hi)"
    using assms decode_None [of b bs] by (cases "runeLead b") auto
  have fit: "runeFits n lo hi bs" "k = n" using assms decode_lead [OF r, of bs] Cons by (simp_all split: if_splits)
  have n: "n \<in> {1, 2, 3, 4}" using runeLead_size [OF r] by blast
  have "runeFits n lo hi (take (n - 1) bs)" using fit(1) n by (auto simp: runeFits_def)
  moreover have "take k p = b # take (n - 1) bs" using fit(2) n Cons by auto
  ultimately show ?thesis using decode_lead [OF r, of "take (n - 1) bs"] fit(2) by simp
qed (use assms in simp)

lemma full_bad:
  assumes "fullRune p" "decodeRune p = None"
  shows "decodeRune (p @ y) = None"
proof (cases p)
  case (Cons b bs)
  show ?thesis
  proof (cases "runeLead b")
    case None
    then show ?thesis by (simp add: Cons decode_None)
  next
    case (Some x)
    obtain n lo hi where r: "runeLead b = Some (n, lo, hi)" using Some by (cases x) auto
    have n: "n \<in> {1, 2, 3, 4}" using runeLead_size [OF r] by blast
    have nofit: "\<not> runeFits n lo hi bs" using assms(2) decode_lead [OF r, of bs] Cons by (simp split: if_splits)
    have "\<not> runeFits n lo hi (bs @ y)"
    proof (cases "n \<le> Suc (length bs)")
      case True
      then show ?thesis using fits_append [OF n] nofit by simp
    next
      case False
      then show ?thesis using assms(1) n unfolding Cons fullRune.simps r runeFits_def by (auto simp: nth_append)
    qed
    then show ?thesis using decode_lead [OF r, of "bs @ y"] Cons by simp
  qed
qed (use assms in simp)

lemma short_completes:
  assumes "\<not> fullRune p" "p \<noteq> []"
  shows "length p < 4" "\<exists>y. y \<noteq> [] \<and> decodeRune (p @ y) = Some (length (p @ y))"
proof -
  obtain b bs where p: "p = b # bs" using assms(2) by (cases p) auto
  obtain n lo hi where r: "runeLead b = Some (n, lo, hi)" using assms(1) by (auto simp: p fullRune.simps split: option.splits)
  have f: "Suc (length bs) < n" "bs \<noteq> [] \<longrightarrow> lo \<le> bs ! 0 \<and> bs ! 0 \<le> hi" "length bs > 1 \<longrightarrow> isCont (bs ! 1)"
    using assms(1) r by (auto simp: p fullRune.simps)
  have n: "n \<in> {2, 3, 4}" "lo \<le> hi" using runeLead_size [OF r] f(1) by auto
  then show "length p < 4" using f(1) by (auto simp: p)
  have c: "isCont 0x80" by (simp add: isCont_def)
  have len: "length bs < 3" using f(1) n by auto
  have "\<exists>y. y \<noteq> [] \<and> length bs + length y = n - 1 \<and> lo \<le> (bs @ y) ! 0 \<and> (bs @ y) ! 0 \<le> hi
     \<and> (n > 2 \<longrightarrow> isCont ((bs @ y) ! 1)) \<and> (n > 3 \<longrightarrow> isCont ((bs @ y) ! 2))"
  proof (cases "bs = []")
    case True
    then show ?thesis using n c by (intro exI [of _ "lo # replicate (n - 2) 0x80"]) (auto simp: numeral_2_eq_2 numeral_3_eq_3)
  next
    case False
    then have "length bs = 1 \<or> length bs = 2" using len by (cases bs; cases "tl bs") auto
    then show ?thesis using f n c False
      by (intro exI [of _ "replicate (n - 1 - length bs) 0x80"]) (auto simp: nth_append numeral_2_eq_2 numeral_3_eq_3)
  qed
  then obtain y where y: "y \<noteq> []" "length bs + length y = n - 1" "lo \<le> (bs @ y) ! 0" "(bs @ y) ! 0 \<le> hi"
     "n > 2 \<longrightarrow> isCont ((bs @ y) ! 1)" "n > 3 \<longrightarrow> isCont ((bs @ y) ! 2)" by blast
  have "decodeRune (p @ y) = Some (length (p @ y))"
    using y n decode_lead [OF r, of "bs @ y"] by (auto simp: p runeFits_def)
  then show "\<exists>y. y \<noteq> [] \<and> decodeRune (p @ y) = Some (length (p @ y))" using y(1) by blast
qed

lemma ascii_decode: "b < 0x80 \<Longrightarrow> decodeRune (b # bs) = Some 1"
  by (simp add: decodeRune.simps runeLead_def)

lemma valid_rune: "decodeRune p = Some k \<Longrightarrow> utf8Valid p \<longleftrightarrow> utf8Valid (drop k p)"
  by (subst utf8Valid.simps) (cases p; simp)

lemma valid_bad: "p \<noteq> [] \<Longrightarrow> decodeRune p = None \<Longrightarrow> \<not> utf8Valid p"
  by (subst utf8Valid.simps) simp

lemma valid_Nil [simp]: "utf8Valid []"
  by (subst utf8Valid.simps) simp

lemma decode_full: "decodeRune p = Some k \<Longrightarrow> fullRune p"
  by (cases p) (auto simp: decodeRune.simps fullRune.simps split: option.splits if_splits)

section \<open>The validator is exact\<close>

lemma feedLoop_final: "fst (feedLoop True p) \<longleftrightarrow> utf8Valid p"
proof (induction "True" p rule: feedLoop.induct)
  case (2 b bs)
  show ?case
  proof (cases "b < 0x80")
    case True
    then show ?thesis using 2(1) valid_rune [OF ascii_decode, of b bs] by (simp add: feedLoop.simps)
  next
    case False
    show ?thesis
    proof (cases "decodeRune (b # bs)")
      case None
      then show ?thesis using False valid_bad [of "b # bs"] by (simp add: feedLoop.simps)
    next
      case (Some k)
      then show ?thesis using 2(2) [OF False _ Some] False valid_rune [OF Some] decode_full [OF Some] by (simp add: feedLoop.simps)
    qed
  qed
qed simp

text \<open>What is left pending is short and can be completed; what came before it is valid.\<close>

definition moreOk :: "byte list \<Rightarrow> bool \<times> byte list \<Rightarrow> bool" where
  "moreOk p r \<longleftrightarrow>
     (if fst r then (\<exists>t. p = t @ snd r \<and> (\<forall>y. utf8Valid (t @ y) \<longleftrightarrow> utf8Valid y)) \<and> (snd r \<noteq> [] \<longrightarrow> \<not> fullRune (snd r))
      else \<forall>y. \<not> utf8Valid (p @ y))"

lemma moreOk_step:
  assumes d: "decodeRune p = Some k" and ih: "moreOk (drop k p) r"
  shows "moreOk p r"
proof -
  have k: "k \<le> length p" using decodeRune_bounds [OF d] by simp
  have pre: "utf8Valid (take k p @ y) \<longleftrightarrow> utf8Valid y" for y
    using valid_rune [OF decode_append [OF decode_take [OF d]], of y] k by simp
  show ?thesis
  proof (cases "fst r")
    case True
    then obtain t where t: "drop k p = t @ snd r" "\<And>y. utf8Valid (t @ y) \<longleftrightarrow> utf8Valid y" "snd r \<noteq> [] \<longrightarrow> \<not> fullRune (snd r)"
      using ih by (auto simp: moreOk_def)
    have "p = (take k p @ t) @ snd r" using t(1) by (metis append.assoc append_take_drop_id)
    moreover have "utf8Valid ((take k p @ t) @ y) \<longleftrightarrow> utf8Valid y" for y using pre [of "t @ y"] t(2) by simp
    ultimately have "\<exists>t. p = t @ snd r \<and> (\<forall>y. utf8Valid (t @ y) \<longleftrightarrow> utf8Valid y)" by blast
    then show ?thesis using True t(3) by (simp add: moreOk_def)
  next
    case False
    have "utf8Valid (p @ y) \<longleftrightarrow> utf8Valid (drop k p @ y)" for y
      using pre [of "drop k p @ y"] by (metis append.assoc append_take_drop_id)
    then show ?thesis using False ih by (simp add: moreOk_def)
  qed
qed

lemma feedLoop_more: "moreOk p (feedLoop False p)"
proof (induction "False" p rule: feedLoop.induct)
  case 1
  then show ?case by (simp add: moreOk_def)
next
  case (2 b bs)
  let ?p = "b # bs"
  show ?case
  proof (cases "b < 0x80")
    case True
    then show ?thesis using moreOk_step [OF ascii_decode [OF True]] 2(1) [OF True] by (simp add: feedLoop.simps)
  next
    case False
    show ?thesis
    proof (cases "fullRune ?p")
      case short: False
      then have "feedLoop False ?p = (True, ?p)" using False short_completes(1) [OF short] by (simp add: feedLoop.simps)
      then show ?thesis using short by (simp add: moreOk_def)
    next
      case full: True
      show ?thesis
      proof (cases "decodeRune ?p")
        case None
        then have "feedLoop False ?p = (False, [])" using False full by (simp add: feedLoop.simps)
        moreover have "\<not> utf8Valid (?p @ y)" for y by (rule valid_bad) (use full_bad [OF full None] in simp_all)
        ultimately show ?thesis by (simp add: moreOk_def)
      next
        case (Some k)
        have "feedLoop False ?p = feedLoop False (drop k ?p)" using False full Some by (simp add: feedLoop.simps)
        then show ?thesis using moreOk_step [OF Some] 2(2) [OF False _ Some] full by simp
      qed
    qed
  qed
qed

lemma feedLoop_fail: "feedLoop final p = (False, q) \<Longrightarrow> q = []"
  by (induction final p rule: feedLoop.induct) (auto simp: feedLoop.simps split: if_splits option.splits)

lemma pending_completes:
  assumes "q = [] \<or> \<not> fullRune q"
  shows "\<exists>y. utf8Valid (q @ y)"
proof (cases "q = []")
  case False
  then obtain y where "decodeRune (q @ y) = Some (length (q @ y))" using short_completes(2) [of q] assms by blast
  from valid_rune [OF this] show ?thesis by auto
qed (auto intro: exI [of _ "[]"])

lemma pending_short: "\<not> fullRune q \<Longrightarrow> q \<noteq> [] \<Longrightarrow> \<not> utf8Valid q"
  using valid_bad decode_full by (cases "decodeRune q") auto

lemma feedFragments_valid: "ds \<noteq> [] \<Longrightarrow> feedFragments s ds \<longleftrightarrow> utf8Valid (pending s @ concat ds)"
proof (induction s ds rule: feedFragments.induct)
  case (3 s d d' ds)
  show ?case
  proof (cases "feedLoop False (pending s @ d)")
    case (Pair ok q)
    show ?thesis
    proof (cases ok)
      case True
      then obtain r where r: "pending s @ d = r @ q" "\<And>y. utf8Valid (r @ y) \<longleftrightarrow> utf8Valid y"
        using feedLoop_more [of "pending s @ d"] Pair by (auto simp: moreOk_def)
      have "pending s @ d @ concat (d' # ds) = r @ q @ concat (d' # ds)" using r(1) by (metis append.assoc)
      moreover have "feedFragments s (d # d' # ds) \<longleftrightarrow> utf8Valid (q @ concat (d' # ds))"
        using 3(1) [of True "s\<lparr>pending := q\<rparr>"] Pair True by (simp add: utf8Feed_def)
      ultimately show ?thesis using r(2) [of "q @ concat (d' # ds)"] unfolding concat.simps by metis
    next
      case False
      then show ?thesis using feedLoop_more [of "pending s @ d"] Pair by (simp add: utf8Feed_def moreOk_def)
    qed
  qed
qed (simp_all add: utf8Feed_def feedLoop_final [symmetric] case_prod_unfold)

subsection \<open>Feeding in pieces\<close>

lemma full_append:
  assumes "fullRune p" "p \<noteq> []"
  shows "fullRune (p @ y)"
proof (rule ccontr)
  assume short: "\<not> fullRune (p @ y)"
  then obtain z where "decodeRune ((p @ y) @ z) = Some (length ((p @ y) @ z))" "z \<noteq> []" using short_completes(2) [of "p @ y"] assms(2) by blast
  then have "decodeRune p \<noteq> None" using full_bad [OF assms(1), of "y @ z"] by auto
  then show False using decode_append [of p _ y] decode_full [of "p @ y"] short by blast
qed

lemma feedLoop_append:
  "feedLoop f (p @ d) = (case feedLoop False p of (ok, q) \<Rightarrow> if ok then feedLoop f (q @ d) else (False, []))"
proof (induction "False" p rule: feedLoop.induct)
  case 1
  then show ?case by simp
next
  case (2 b bs)
  let ?p = "b # bs"
  show ?case
  proof (cases "b < 0x80")
    case True
    then show ?thesis using 2(1) [OF True] by (simp add: feedLoop.simps)
  next
    case False
    show ?thesis
    proof (cases "fullRune ?p")
      case short: False
      then have "feedLoop False ?p = (True, ?p)" using False short_completes(1) [OF short] by (simp add: feedLoop.simps)
      then show ?thesis by simp
    next
      case full: True
      have full': "fullRune (b # bs @ d)" using full_append [OF full, of d] by simp
      show ?thesis
      proof (cases "decodeRune ?p")
        case None
        then show ?thesis using False full full' full_bad [OF full None, of d] by (simp add: feedLoop.simps)
      next
        case (Some k)
        have k: "k \<le> length ?p" using decodeRune_bounds [OF Some] by simp
        then have "drop k (b # bs @ d) = drop k ?p @ d" using drop_append [of k ?p d] by simp
        then show ?thesis using False full full' Some decode_append [OF Some, of d] 2(2) [OF False _ Some]
          by (simp add: feedLoop.simps(2))
      qed
    qed
  qed
qed

definition utf8Ok :: "utf8Stream \<Rightarrow> bool" where
  "utf8Ok u \<longleftrightarrow> feedLoop False (pending u) = (True, pending u)"

lemma utf8Ok_fresh [simp]: "utf8Ok \<lparr>pending = []\<rparr>" "utf8Ok (utf8Reset u)"
  by (simp_all add: utf8Ok_def utf8Reset_def)

lemma feedLoop_True_pending: "feedLoop True p = (ok, q) \<Longrightarrow> q = []"
  by (induction True p rule: feedLoop.induct) (auto simp: feedLoop.simps split: if_splits option.splits)

lemma feedLoop_pending: "feedLoop f p = (True, q) \<Longrightarrow> feedLoop False q = (True, q)"
  using feedLoop_append [of False p "[]"] feedLoop_True_pending [of p True q] by (cases f) auto

lemma feedLoop_pending_ok: "feedLoop f p = (ok, q) \<Longrightarrow> feedLoop False q = (True, q)"
  using feedLoop_pending [of f p q] feedLoop_fail [of f p q] by (cases ok) auto

lemma utf8Feed_ok: "utf8Ok (snd (utf8Feed u d f))"
  using feedLoop_pending_ok by (auto simp: utf8Feed_def utf8Ok_def split: prod.splits)

lemma utf8Feed_nil: "utf8Ok u \<Longrightarrow> utf8Feed u [] False = (True, u)"
  by (simp add: utf8Feed_def utf8Ok_def)

text \<open>Feeding two pieces is feeding them together.\<close>

lemma utf8Feed_append:
  "utf8Feed u (a @ b) f = (case utf8Feed u a False of (ok, u') \<Rightarrow> if ok then utf8Feed u' b f else (False, u'))"
  using feedLoop_append [of f "pending u @ a" b] feedLoop_fail [of False "pending u @ a"]
  by (auto simp: utf8Feed_def split: prod.splits if_splits)

lemma utf8Feed_final: "fst (utf8Feed u d True) \<longleftrightarrow> utf8Valid (pending u @ d)"
  by (simp add: utf8Feed_def feedLoop_final [symmetric] case_prod_unfold)

lemma utf8Feed_more: "utf8Feed \<lparr>pending = []\<rparr> p False = (True, u) \<Longrightarrow> \<exists>y. utf8Valid (p @ y)"
proof -
  assume "utf8Feed \<lparr>pending = []\<rparr> p False = (True, u)"
  then have "fst (feedLoop False p)" by (simp add: utf8Feed_def split: prod.splits)
  then obtain t where t: "p = t @ snd (feedLoop False p)" "\<forall>y. utf8Valid (t @ y) \<longleftrightarrow> utf8Valid y"
      "snd (feedLoop False p) = [] \<or> \<not> fullRune (snd (feedLoop False p))"
    using feedLoop_more [of p] by (auto simp: moreOk_def)
  obtain y where "utf8Valid (snd (feedLoop False p) @ y)" using pending_completes [OF t(3)] by blast
  then have "utf8Valid ((t @ snd (feedLoop False p)) @ y)" using t(2) by simp
  then show ?thesis using t(1) by metis
qed

lemma utf8Feed_valid: "utf8Feed \<lparr>pending = []\<rparr> p False = (True, u) \<Longrightarrow> utf8Valid (pending u @ d) \<longleftrightarrow> utf8Valid (p @ d)"
  using feedLoop_append [of True p d]
  by (auto simp: utf8Feed_def simp flip: feedLoop_final split: prod.splits)

text \<open>
  C27. The incremental validator decides UTF-8. A message cut into any non-empty list of fragments,
  also inside runes, is accepted exactly when the whole message is valid UTF-8.
\<close>

theorem utf8_fragments_exact:
  assumes "ds \<noteq> []"
  shows "feedFragments \<lparr>pending = []\<rparr> ds \<longleftrightarrow> utf8Valid (concat ds)"
  using feedFragments_valid [OF assms] by simp

theorem utf8_fragments_exact_witness:
  "feedFragments \<lparr>pending = []\<rparr> [[0xE2, 0x82], [0xAC, 0x41]] \<longleftrightarrow> utf8Valid [0xE2, 0x82, 0xAC, 0x41]"
  using utf8_fragments_exact [of "[[0xE2, 0x82], [0xAC, 0x41]]"] by simp

text \<open>
  The validator fails as early as possible and never too early: after a fragment that is not the
  last, it answers true exactly when what has been received can still be completed to valid UTF-8, and
  it then holds back at most three bytes.
\<close>

lemma utf8_fails_fast:
  "fst (utf8Feed \<lparr>pending = []\<rparr> p False) = (\<exists>y. utf8Valid (p @ y)) \<and> length (pending (snd (utf8Feed \<lparr>pending = []\<rparr> p False))) \<le> 3"
proof (cases "feedLoop False p")
  case (Pair ok q)
  show ?thesis
  proof (cases ok)
    case True
    then obtain r where r: "p = r @ q" "\<And>y. utf8Valid (r @ y) \<longleftrightarrow> utf8Valid y" "q = [] \<or> \<not> fullRune q"
      using feedLoop_more [of p] Pair by (auto simp: moreOk_def)
    obtain y where "utf8Valid (q @ y)" using pending_completes [OF r(3)] by blast
    then have "utf8Valid (p @ y)" using r(1,2) by simp
    moreover have "length q \<le> 3" using r(3) short_completes(1) [of q] by (cases "q = []") auto
    ultimately show ?thesis using Pair True by (auto simp: utf8Feed_def)
  next
    case False
    then have "feedLoop False p = (False, [])" using Pair feedLoop_fail [of False p q] by simp
    then show ?thesis using feedLoop_more [of p] by (simp add: utf8Feed_def moreOk_def)
  qed
qed

end
