(* ===== verification/WS_Frame.thy ===== *)
theory WS_Frame
  imports Incremental WS_Utf8
begin

unbundle bit_operations_syntax

text \<open>
  WebSocket frames (\<^verbatim>\<open>middleware/websocket/frame.go\<close>, \<^verbatim>\<open>mask.go\<close>, \<^verbatim>\<open>opcode.go\<close>): the header
  reader and its checks, the writers, the masking of payloads by machine words, and close payloads. A
  reader is the list of the bytes that are still to come; reading past it gives the error of
  \<^verbatim>\<open>io.ReadFull\<close>.
\<close>

section \<open>Definitions\<close>

datatype ws_error =
    ErrProtocol
  | ErrFrameTooLarge
  | ErrReservedBits
  | ErrFragmentedControl
  | ErrControlTooLarge
  | ErrInvalidCloseData
  | ErrInvalidUTF8
  | ErrReadLimit
  | ErrWriteClosed
  | ErrWriteTimeout
  | ErrWriterActive
  | ErrNotControl
  | ErrInvalidPreparedOpcode
  | ErrInvalidLevel
  | ErrDecompress
  | ErrEOF
  | ErrUnexpectedEOF
  | CloseError nat gostring

definition OpContinuation :: byte where "OpContinuation = 0x0"
definition OpText :: byte where "OpText = 0x1"
definition OpBinary :: byte where "OpBinary = 0x2"
definition OpClose :: byte where "OpClose = 0x8"
definition OpPing :: byte where "OpPing = 0x9"
definition OpPong :: byte where "OpPong = 0xA"

lemmas opcode_defs = OpContinuation_def OpText_def OpBinary_def OpClose_def OpPing_def OpPong_def

definition IsControl :: "byte \<Rightarrow> bool" where "IsControl b \<longleftrightarrow> 0x8 \<le> b"
definition IsData :: "byte \<Rightarrow> bool" where "IsData b \<longleftrightarrow> b < 0x8"

definition maxControlPayload :: nat where "maxControlPayload = 125"

definition CloseNoStatusReceived :: nat where "CloseNoStatusReceived = 1005"
definition CloseProtocolError :: nat where "CloseProtocolError = 1002"
definition CloseInvalidPayload :: nat where "CloseInvalidPayload = 1007"
definition CloseMessageTooBig :: nat where "CloseMessageTooBig = 1009"

record frameHeader =
  h_Fin :: bool
  h_RSV1 :: bool
  h_RSV2 :: bool
  h_RSV3 :: bool
  h_Opcode :: byte
  h_Masked :: bool
  h_Length :: int
  h_Mask :: "byte list"

text \<open>
  A reading step takes the state of an \<^verbatim>\<open>io.Reader\<close> and gives a value or an error, with the state
  after it; an error ends a sequence of steps. \<^verbatim>\<open>readFull\<close> is \<^verbatim>\<open>io.ReadFull\<close> on a list of bytes; the
  functions below take the \<^verbatim>\<open>io.ReadFull\<close> of their reader as an argument.
\<close>

type_synonym ('r, 'a) reading = "'r \<Rightarrow> (ws_error + 'a) \<times> 'r"
type_synonym 'r full = "nat \<Rightarrow> 'r \<Rightarrow> (ws_error + byte list) \<times> 'r"

definition returnRead :: "'a \<Rightarrow> ('r, 'a) reading" where
  "returnRead a r = (Inr a, r)"

definition failRead :: "ws_error \<Rightarrow> ('r, 'a) reading" where
  "failRead e r = (Inl e, r)"

definition bindRead :: "('r, 'a) reading \<Rightarrow> ('a \<Rightarrow> ('r, 'b) reading) \<Rightarrow> ('r, 'b) reading" where
  "bindRead f g r = (case f r of (Inl e, r') \<Rightarrow> (Inl e, r') | (Inr a, r') \<Rightarrow> g a r')"

lemmas reading_defs = returnRead_def failRead_def bindRead_def

definition readFull :: "nat \<Rightarrow> byte list \<Rightarrow> (ws_error + byte list) \<times> byte list" where
  "readFull n r =
     (if n \<le> length r then (Inr (take n r), drop n r)
      else (Inl (if r = [] then ErrEOF else ErrUnexpectedEOF), []))"

definition bigEndian :: "byte list \<Rightarrow> int" where
  "bigEndian bs = foldl (\<lambda>n b. n * 256 + uint b) 0 bs"

fun putBig :: "nat \<Rightarrow> nat \<Rightarrow> byte list" where
  "putBig 0 n = []"
| "putBig (Suc k) n = putBig k (n div 256) @ [of_nat n]"

definition firstTwo :: "byte \<Rightarrow> byte \<Rightarrow> frameHeader \<Rightarrow> frameHeader" where
  "firstTwo b0 b1 h =
     h\<lparr>h_Fin := b0 AND 0x80 \<noteq> 0, h_RSV1 := b0 AND 0x40 \<noteq> 0, h_RSV2 := b0 AND 0x20 \<noteq> 0,
       h_RSV3 := b0 AND 0x10 \<noteq> 0, h_Opcode := b0 AND 0x0F, h_Masked := b1 AND 0x80 \<noteq> 0\<rparr>"

definition readMask :: "'r full \<Rightarrow> frameHeader \<Rightarrow> ('r, frameHeader) reading" where
  "readMask rf h =
     (if h_Masked h then bindRead (rf 4) (\<lambda>k. returnRead (h\<lparr>h_Mask := k\<rparr>)) else returnRead h)"

definition readLength :: "'r full \<Rightarrow> byte \<Rightarrow> frameHeader \<Rightarrow> ('r, frameHeader) reading" where
  "readLength rf b1 h =
     (let len = uint (b1 AND 0x7F) in
      if len < 126 then returnRead (h\<lparr>h_Length := len\<rparr>)
      else if len = 126 then bindRead (rf 2) (\<lambda>k. returnRead (h\<lparr>h_Length := bigEndian k\<rparr>))
      else bindRead (rf 8) (\<lambda>k.
        if wrap64 (bigEndian k) < 0 then failRead ErrFrameTooLarge
        else returnRead (h\<lparr>h_Length := wrap64 (bigEndian k)\<rparr>)))"

definition readFrameHeader :: "'r full \<Rightarrow> frameHeader \<Rightarrow> ('r, frameHeader) reading" where
  "readFrameHeader rf h =
     bindRead (rf 2) (\<lambda>k.
     bindRead (readLength rf (k ! 1) (firstTwo (k ! 0) (k ! 1) h)) (\<lambda>h'.
     readMask rf h'))"

definition validateFrameHeader :: "frameHeader \<Rightarrow> bool \<Rightarrow> ws_error option" where
  "validateFrameHeader h compressionEnabled =
     (if h_RSV2 h \<or> h_RSV3 h then Some ErrReservedBits
      else if h_RSV1 h \<and> \<not> compressionEnabled then Some ErrReservedBits
      else if h_RSV1 h \<and> IsControl (h_Opcode h) then Some ErrReservedBits
      else if h_Opcode h \<notin> {OpContinuation, OpText, OpBinary, OpClose, OpPing, OpPong} then Some ErrProtocol
      else if IsControl (h_Opcode h) \<and> \<not> h_Fin h then Some ErrFragmentedControl
      else if IsControl (h_Opcode h) \<and> h_Length h > int maxControlPayload then Some ErrControlTooLarge
      else None)"

text \<open>The writers: a header with the length in its shortest form, then the payload.\<close>

definition lengthBytes :: "nat \<Rightarrow> byte list" where
  "lengthBytes len =
     (if len \<le> 125 then [of_nat len]
      else if len \<le> 65535 then 126 # putBig 2 len
      else 127 # putBig 8 len)"

definition writeFrameRaw :: "byte \<Rightarrow> byte list \<Rightarrow> byte list" where
  "writeFrameRaw b0 payload = b0 # lengthBytes (length payload) @ payload"

definition writeFrame :: "bool \<Rightarrow> byte \<Rightarrow> byte list \<Rightarrow> byte list" where
  "writeFrame fin opcode payload =
     writeFrameRaw (if fin then (opcode AND 0x0F) OR 0x80 else opcode AND 0x0F) payload"

definition closePayload :: "nat \<Rightarrow> gostring \<Rightarrow> byte list" where
  "closePayload code reason =
     (if code = 0 then [] else putBig 2 code @ take (maxControlPayload - 2) reason)"

definition writeCloseFrame :: "nat \<Rightarrow> gostring \<Rightarrow> byte list" where
  "writeCloseFrame code reason = writeFrame True OpClose (closePayload code reason)"

definition badCloseCode :: "int \<Rightarrow> bool" where
  "badCloseCode code \<longleftrightarrow> code < 1000 \<or> code = 1004 \<or> code = 1005 \<or> code = 1006 \<or> code = 1015
     \<or> (1016 \<le> code \<and> code < 3000) \<or> 5000 \<le> code"

definition parseClosePayload :: "byte list \<Rightarrow> ws_error + nat \<times> gostring" where
  "parseClosePayload data =
     (if length data = 0 then Inr (CloseNoStatusReceived, [])
      else if length data = 1 then Inl ErrInvalidCloseData
      else
        let code = bigEndian (take 2 data); reason = drop 2 data in
        if badCloseCode code then Inl ErrInvalidCloseData
        else if length reason > 0 \<and> \<not> utf8Valid reason then Inl ErrInvalidCloseData
        else Inr (nat code, reason))"

subsection \<open>Masking\<close>

definition le32 :: "byte list \<Rightarrow> 32 word" where
  "le32 b = ucast (b ! 0) OR push_bit 8 (ucast (b ! 1)) OR push_bit 16 (ucast (b ! 2)) OR push_bit 24 (ucast (b ! 3))"

definition put32 :: "32 word \<Rightarrow> byte list" where
  "put32 w = map (\<lambda>i. ucast (drop_bit (8 * i) w)) [0..<4]"

definition le64 :: "byte list \<Rightarrow> 64 word" where
  "le64 b = ucast (le32 b) OR push_bit 32 (ucast (le32 (drop 4 b)))"

definition put64 :: "64 word \<Rightarrow> byte list" where
  "put64 w = map (\<lambda>i. ucast (drop_bit (8 * i) w)) [0..<8]"

definition mask64 :: "byte list \<Rightarrow> 64 word" where
  "mask64 mk = ucast (le32 mk) OR push_bit 32 (ucast (le32 mk))"

function maskWords :: "64 word \<Rightarrow> byte list \<Rightarrow> byte list \<times> byte list" where
  "maskWords m b =
     (if length b < 8 then ([], b)
      else case maskWords m (drop 8 b) of (fin, rest) \<Rightarrow> (put64 (le64 b XOR m) @ fin, rest))"
  by pat_completeness auto
termination
  by (relation "measure (\<lambda>(m, b). length b)") auto

declare maskWords.simps [simp del]

definition maskTail :: "byte list \<Rightarrow> byte list \<Rightarrow> byte list" where
  "maskTail mk b = map (\<lambda>i. b ! i XOR mk ! (i mod 4)) [0..<length b]"

definition maskBytes :: "byte list \<Rightarrow> byte list \<Rightarrow> byte list" where
  "maskBytes mk b =
     (if length b = 0 then b
      else case maskWords (mask64 mk) b of
        (fin, rest) \<Rightarrow>
          if length rest \<ge> 4
          then fin @ put32 (le32 rest XOR le32 mk) @ maskTail mk (drop 4 rest)
          else fin @ maskTail mk rest)"

definition maskBytesOffset :: "byte list \<Rightarrow> byte list \<Rightarrow> nat \<Rightarrow> byte list" where
  "maskBytesOffset mk b offset =
     (if length b = 0 then b else maskBytes (map (\<lambda>i. mk ! ((offset + i) mod 4)) [0..<4]) b)"

section \<open>Masking by words is masking by bytes\<close>

text \<open>The byte-wise definition of RFC 6455, from a position in the mask cycle.\<close>

definition xorMask :: "nat \<Rightarrow> byte list \<Rightarrow> byte list \<Rightarrow> byte list" where
  "xorMask off mk b = map (\<lambda>i. b ! i XOR mk ! ((off + i) mod 4)) [0..<length b]"

lemma byte_high_bits: "bit (x :: byte) (8 + n) = False" "bit (x :: byte) (16 + n) = False" "bit (x :: byte) (24 + n) = False"
  using bit_imp_le_length [of x "8 + n"] bit_imp_le_length [of x "16 + n"] bit_imp_le_length [of x "24 + n"] by auto

lemma le32_byte:
  assumes "i < 4"
  shows "ucast (drop_bit (8 * i) (le32 b)) = b ! i"
proof -
  have "i = 0 \<or> i = 1 \<or> i = 2 \<or> i = 3" using assms by auto
  then show ?thesis unfolding le32_def
    by (elim disjE) (auto intro!: bit_word_eqI simp: bit_simps byte_high_bits)
qed

lemma xor_byte:
  "(ucast (drop_bit k (x XOR y :: 32 word)) :: byte) = ucast (drop_bit k x) XOR ucast (drop_bit k y)"
  "(ucast (drop_bit k (u XOR v :: 64 word)) :: byte) = ucast (drop_bit k u) XOR ucast (drop_bit k v)"
  by (auto intro!: bit_word_eqI simp: bit_simps)

lemma put32_xor: "put32 (le32 b XOR le32 m) = map (\<lambda>i. b ! i XOR m ! i) [0..<4]"
proof -
  have "(ucast (drop_bit (8 * i) (le32 b XOR le32 m)) :: byte) = b ! i XOR m ! i" if "i < 4" for i
    by (simp only: xor_byte le32_byte [OF that])
  then show ?thesis unfolding put32_def by (intro map_cong) simp_all
qed

lemma low_high_byte:
  assumes "i < 8"
  shows "(ucast (drop_bit (8 * i) (ucast (x :: 32 word) OR push_bit 32 (ucast (y :: 32 word)) :: 64 word)) :: byte)
    = (if i < 4 then ucast (drop_bit (8 * i) x) else ucast (drop_bit (8 * (i - 4)) y))"
proof -
  have hx: "bit x n = False" if "32 \<le> n" for n using that bit_imp_le_length [of x n] by auto
  have "8 * i = 32 + 8 * (i - 4)" if "4 \<le> i" using that by simp
  then show ?thesis using assms
    by (cases "i < 4") (auto intro!: bit_word_eqI simp: bit_simps hx)
qed

lemma put64_xor:
  assumes "8 \<le> length b"
  shows "put64 (le64 b XOR mask64 m) = map (\<lambda>i. b ! i XOR m ! (i mod 4)) [0..<8]"
proof -
  have "(ucast (drop_bit (8 * i) (le64 b XOR mask64 m)) :: byte) = b ! i XOR m ! (i mod 4)" if "i < 8" for i
  proof (cases "i < 4")
    case True
    then show ?thesis by (simp only: xor_byte le64_def mask64_def low_high_byte [OF that] le32_byte if_True mod_less)
  next
    case False
    then have i: "i - 4 < 4" "i mod 4 = i - 4" "drop 4 b ! (i - 4) = b ! i" using that assms by (auto simp: mod_if)
    then show ?thesis
      using False by (simp only: xor_byte le64_def mask64_def low_high_byte [OF that] le32_byte [OF i(1)] if_False i(2,3))
  qed
  then show ?thesis unfolding put64_def by (intro map_cong) simp_all
qed

lemma xorMask_append: "xorMask off mk (a @ b) = xorMask off mk a @ xorMask (off + length a) mk b"
proof -
  have "xorMask off mk (a @ b) ! i = (xorMask off mk a @ xorMask (off + length a) mk b) ! i" if "i < length a + length b" for i
    using that by (auto simp: xorMask_def nth_append add.assoc)
  then show ?thesis by (intro nth_equalityI) (simp_all add: xorMask_def)
qed

lemma xorMask_mod: "xorMask (off mod 4) mk b = xorMask off mk b"
  by (simp add: xorMask_def mod_add_left_eq)

lemma maskTail_xor: "maskTail mk b = xorMask 0 mk b"
  by (simp add: maskTail_def xorMask_def)

lemma maskWords_xor: "maskWords (mask64 mk) b = (d, r) \<Longrightarrow> \<exists>a. b = a @ r \<and> 4 dvd length a \<and> d = xorMask 0 mk a"
proof (induction "mask64 mk" b arbitrary: d r rule: maskWords.induct)
  case (1 b)
  show ?case
  proof (cases "length b < 8")
    case True
    then have "d = []" "r = b" using 1(2) maskWords.simps [of "mask64 mk" b] by simp_all
    then show ?thesis by (simp add: xorMask_def)
  next
    case False
    obtain d1 r1 where d1: "maskWords (mask64 mk) (drop 8 b) = (d1, r1)" by (cases "maskWords (mask64 mk) (drop 8 b)")
    have "maskWords (mask64 mk) b = (put64 (le64 b XOR mask64 mk) @ d1, r1)"
      using False d1 by (subst maskWords.simps) simp
    then have d: "d = put64 (le64 b XOR mask64 mk) @ d1" "r = r1" using 1(2) by simp_all
    obtain a where a: "drop 8 b = a @ r1" "4 dvd length a" "d1 = xorMask 0 mk a" using 1(1) [OF False d1] by blast
    have b: "b = (take 8 b @ a) @ r" using a(1) d(2) by (metis append.assoc append_take_drop_id)
    have p: "put64 (le64 b XOR mask64 mk) = xorMask 0 mk (take 8 b)"
      using put64_xor [of b mk] False by (simp add: xorMask_def)
    have "xorMask 8 mk a = xorMask 0 mk a" using xorMask_mod [of 8 mk a] by simp
    then have "d = xorMask 0 mk (take 8 b @ a)" using d(1) p a(3) False by (simp add: xorMask_append)
    moreover have "4 dvd length (take 8 b @ a)" using a(2) False by simp
    ultimately show ?thesis using b by blast
  qed
qed

lemma maskBytes_xor: "maskBytes mk b = xorMask 0 mk b"
proof (cases "maskWords (mask64 mk) b")
  case (Pair d r)
  obtain a where a: "b = a @ r" "4 dvd length a" "d = xorMask 0 mk a" using maskWords_xor [OF Pair] by blast
  have split: "xorMask 0 mk b = d @ xorMask (length a) mk r" unfolding a(1,3) by (simp add: xorMask_append)
  have r0: "xorMask (length a) mk r = xorMask 0 mk r"
    using a(2) xorMask_mod [of "length a" mk r] by simp
  show ?thesis
  proof (cases "length r \<ge> 4")
    case True
    have p: "put32 (le32 r XOR le32 mk) = xorMask 0 mk (take 4 r)"
      unfolding put32_xor using True by (simp add: xorMask_def)
    have "xorMask 0 mk r = xorMask 0 mk (take 4 r) @ xorMask 4 mk (drop 4 r)"
      using xorMask_append [of 0 mk "take 4 r" "drop 4 r"] True by simp
    moreover have "xorMask 4 mk (drop 4 r) = xorMask 0 mk (drop 4 r)" using xorMask_mod [of 4 mk] by simp
    ultimately show ?thesis using True Pair split r0 p by (auto simp: maskBytes_def maskTail_xor xorMask_def)
  next
    case False
    then show ?thesis using Pair split r0 by (auto simp: maskBytes_def maskTail_xor xorMask_def)
  qed
qed

lemma maskBytesOffset_xor: "maskBytesOffset mk b off = xorMask off mk b"
proof -
  have "map (\<lambda>i. mk ! ((off + i) mod 4)) [0..<4] ! (i mod 4) = mk ! ((off + i) mod 4)" for i
    by (simp add: mod_add_right_eq)
  then show ?thesis by (simp add: maskBytesOffset_def maskBytes_xor xorMask_def del: upt_Suc)
qed

lemma xorMask_twice: "xorMask off mk (xorMask off mk b) = b"
  by (rule nth_equalityI) (simp_all add: xorMask_def xor.assoc)

text \<open>Unmasking the pieces of a payload as they arrive, each from its position.\<close>

fun maskPieces :: "byte list \<Rightarrow> nat \<Rightarrow> byte list list \<Rightarrow> byte list" where
  "maskPieces mk pos [] = []"
| "maskPieces mk pos (p # ps) = maskBytesOffset mk p pos @ maskPieces mk (pos + length p) ps"

lemma maskPieces_xor: "maskPieces mk pos ps = xorMask pos mk (concat ps)"
  by (induction ps arbitrary: pos) (simp_all add: maskBytesOffset_xor xorMask_append, simp add: xorMask_def)

text \<open>
  C28. Masking eight and four bytes at a time computes the byte-wise mask of RFC 6455, applying it twice
  gives the payload back, and unmasking a payload in pieces, in whatever sizes they arrive, gives the
  same as unmasking it at once.
\<close>

theorem masking_exact:
  "maskBytes mk b = map (\<lambda>i. b ! i XOR mk ! (i mod 4)) [0..<length b]
   \<and> maskBytes mk (maskBytes mk b) = b
   \<and> maskPieces mk 0 ps = maskBytes mk (concat ps)"
  by (simp add: maskBytes_xor maskPieces_xor xorMask_twice) (simp add: xorMask_def)

section \<open>Headers\<close>

lemma byte_take: "uint x < 2 ^ n \<Longrightarrow> take_bit n (x :: byte) = x"
  by (rule word_uint_eqI) (simp add: unsigned_take_bit_eq take_bit_int_eq_self)

lemma byte_nobit: "uint (x :: byte) < 2 ^ n \<Longrightarrow> n \<le> k \<Longrightarrow> \<not> bit x k"
  using byte_take [of x n] bit_take_bit_iff [of n x k] by auto

lemma byte_masks: "(0x7F :: byte) = mask 7" "(0x0F :: byte) = mask 4"
  by (simp_all add: mask_eq_exp_minus_1)

lemma byte_low7: "uint x < 128 \<Longrightarrow> x AND (0x7F :: byte) = x"
  unfolding byte_masks using byte_take [of x 7] by (simp add: take_bit_eq_mask [symmetric])

lemma byte_low4: "uint x < 16 \<Longrightarrow> x AND (0x0F :: byte) = x"
  unfolding byte_masks using byte_take [of x 4] by (simp add: take_bit_eq_mask [symmetric])

lemma byte_flag: "(x AND (0x80 :: byte) \<noteq> 0) = bit x 7" "(x AND (0x40 :: byte) \<noteq> 0) = bit x 6"
   "(x AND (0x20 :: byte) \<noteq> 0) = bit x 5" "(x AND (0x10 :: byte) \<noteq> 0) = bit x 4"
  using and_exp_eq_0_iff_not_bit [of x 7] and_exp_eq_0_iff_not_bit [of x 6]
    and_exp_eq_0_iff_not_bit [of x 5] and_exp_eq_0_iff_not_bit [of x 4] by simp_all

lemma or_fin: "(x OR (0x80 :: byte)) AND 0x0F = x AND 0x0F"
proof -
  have "\<not> bit (0x80 :: byte) n" if "n < 4" for n
  proof -
    have "n = 0 \<or> n = 1 \<or> n = 2 \<or> n = 3" using that by auto
    then show ?thesis by (elim disjE) simp_all
  qed
  then show ?thesis unfolding byte_masks by (auto intro!: bit_word_eqI simp: bit_simps bit_mask_iff)
qed

definition writtenHeader :: "bool \<Rightarrow> byte \<Rightarrow> nat \<Rightarrow> frameHeader \<Rightarrow> frameHeader" where
  "writtenHeader fin opcode len h =
     h\<lparr>h_Fin := fin, h_RSV1 := False, h_RSV2 := False, h_RSV3 := False, h_Opcode := opcode, h_Masked := False, h_Length := int len\<rparr>"

lemma firstTwo_written:
  assumes "uint opcode < 16" "uint b1 < 128"
  shows "firstTwo (if fin then (opcode AND 0x0F) OR 0x80 else opcode AND 0x0F) b1 h
    = h\<lparr>h_Fin := fin, h_RSV1 := False, h_RSV2 := False, h_RSV3 := False, h_Opcode := opcode, h_Masked := False\<rparr>"
proof -
  have "\<not> bit opcode 7" "\<not> bit opcode 6" "\<not> bit opcode 5" "\<not> bit opcode 4" "\<not> bit b1 7"
    using byte_nobit [of opcode 4] byte_nobit [of b1 7 7] assms by simp_all
  then show ?thesis
    by (cases fin) (simp_all add: firstTwo_def byte_flag byte_low4 [OF assms(1)] or_fin bit_or_iff)
qed

lemma bigEndian_snoc: "bigEndian (bs @ [b]) = bigEndian bs * 256 + uint b"
  by (simp add: bigEndian_def)

lemma length_putBig [simp]: "length (putBig k n) = k"
  by (induction k n rule: putBig.induct) simp_all

lemma uint_of_nat_byte: "uint (of_nat n :: byte) = int (n mod 256)"
  by (simp add: uint_nat unat_of_nat)

lemma bigEndian_putBig: "bigEndian (putBig k n) = int (n mod 256 ^ k)"
proof (induction k n rule: putBig.induct)
  case (2 k n)
  have "n mod 256 ^ Suc k = n mod 256 + 256 * (n div 256 mod 256 ^ k)" by (simp add: mod_mult2_eq)
  then show ?case using 2 by (simp add: bigEndian_snoc uint_of_nat_byte)
qed (simp add: bigEndian_def)

lemma readFull_exact: "length k = n \<Longrightarrow> readFull n (k @ c) = (Inr k, c)"
  by (simp add: readFull_def)

lemma readLength_written:
  assumes "len < 2 ^ 63"
  shows "\<exists>b1 bs. lengthBytes len = b1 # bs \<and> uint b1 < 128 \<and> (\<forall>h c. readLength readFull b1 h (bs @ c) = (Inr (h\<lparr>h_Length := int len\<rparr>), c))"
proof -
  consider (short) "len \<le> 125" | (mid) "125 < len" "len \<le> 65535" | (long) "65535 < len" by linarith
  then show ?thesis
  proof cases
    case short
    then have "uint (of_nat len :: byte) = int len" by (simp add: uint_of_nat_byte)
    then show ?thesis using short by (simp add: lengthBytes_def readLength_def reading_defs byte_low7 Let_def)
  next
    case mid
    have "bigEndian (putBig 2 len) = int len" using mid by (simp add: bigEndian_putBig)
    then show ?thesis using mid by (simp add: lengthBytes_def readLength_def reading_defs byte_low7 Let_def readFull_exact)
  next
    case long
    have "bigEndian (putBig 8 len) = int len" using assms by (simp add: bigEndian_putBig)
    moreover have "wrap64 (int len) = int len" using assms by (intro wrap64_id) (simp_all add: MinInt64_def MaxInt64_def)
    ultimately show ?thesis using long by (simp add: lengthBytes_def readLength_def reading_defs byte_low7 Let_def readFull_exact)
  qed
qed

lemma readFrameHeader_written:
  assumes "uint opcode < 16" "length payload < 2 ^ 63"
  shows "readFrameHeader readFull h (writeFrame fin opcode payload @ c)
    = (Inr (writtenHeader fin opcode (length payload) h), payload @ c)"
proof -
  obtain b1 bs where b: "lengthBytes (length payload) = b1 # bs" "uint b1 < 128"
      "\<And>h. readLength readFull b1 h (bs @ payload @ c) = (Inr (h\<lparr>h_Length := int (length payload)\<rparr>), payload @ c)"
    using readLength_written [OF assms(2)] by blast
  let ?b0 = "if fin then (opcode AND 0x0F) OR 0x80 else opcode AND 0x0F"
  have "writeFrame fin opcode payload @ c = [?b0, b1] @ bs @ payload @ c" by (simp add: writeFrame_def writeFrameRaw_def b(1))
  then have "readFull 2 (writeFrame fin opcode payload @ c) = (Inr [?b0, b1], bs @ payload @ c)"
    using readFull_exact [of "[?b0, b1]" 2 "bs @ payload @ c"] by simp
  then show ?thesis using b(3) firstTwo_written [OF assms(1) b(2), of fin h]
    by (simp add: readFrameHeader_def reading_defs readMask_def writtenHeader_def)
qed

section \<open>Any reader of the same bytes\<close>

text \<open>
  A reader that holds the bytes \<open>rest r\<close> and whose \<^verbatim>\<open>io.ReadFull\<close> takes them in order reads the same
  header as the list of these bytes.
\<close>

definition sameReading :: "('r \<Rightarrow> byte list) \<Rightarrow> ('r \<Rightarrow> bool) \<Rightarrow> ('r, 'a) reading \<Rightarrow> (byte list, 'a) reading \<Rightarrow> bool" where
  "sameReading rest rok f g \<longleftrightarrow> (\<forall>r. rok r \<longrightarrow> fst (f r) = fst (g (rest r)) \<and> rest (snd (f r)) = snd (g (rest r)) \<and> rok (snd (f r)))"

lemma same_return: "sameReading rest rok (returnRead a) (returnRead a)"
  by (simp add: sameReading_def returnRead_def)

lemma same_fail: "sameReading rest rok (failRead e) (failRead e)"
  by (simp add: sameReading_def failRead_def)

lemma same_bind:
  assumes "sameReading rest rok f f'" "\<And>a. sameReading rest rok (g a) (g' a)"
  shows "sameReading rest rok (bindRead f g) (bindRead f' g')"
  unfolding sameReading_def
proof (intro allI impI)
  fix r assume "rok r"
  then have f: "fst (f r) = fst (f' (rest r))" "rest (snd (f r)) = snd (f' (rest r))" "rok (snd (f r))"
    using assms(1) by (auto simp: sameReading_def)
  show "fst (bindRead f g r) = fst (bindRead f' g' (rest r)) \<and> rest (snd (bindRead f g r)) = snd (bindRead f' g' (rest r)) \<and> rok (snd (bindRead f g r))"
  proof (cases "fst (f r)")
    case (Inl e)
    then show ?thesis using f by (simp add: bindRead_def case_prod_unfold)
  next
    case (Inr a)
    then show ?thesis using f assms(2) [of a] by (simp add: bindRead_def case_prod_unfold sameReading_def)
  qed
qed

locale byte_reader =
  fixes rf :: "'r full" and rest :: "'r \<Rightarrow> byte list" and rok :: "'r \<Rightarrow> bool"
  assumes full: "sameReading rest rok (rf n) (readFull n)"
begin

lemma same_mask: "sameReading rest rok (readMask rf h) (readMask readFull h)"
  by (auto simp: readMask_def intro: same_bind same_return full)

lemma same_length: "sameReading rest rok (readLength rf b1 h) (readLength readFull b1 h)"
  by (auto simp: readLength_def Let_def intro!: same_bind same_return same_fail full)

lemma same_header: "sameReading rest rok (readFrameHeader rf h) (readFrameHeader readFull h)"
  unfolding readFrameHeader_def by (intro same_bind same_length same_mask full)

end

section \<open>Frames on a stream\<close>

definition zeroHeader :: frameHeader where
  "zeroHeader = \<lparr>h_Fin = False, h_RSV1 = False, h_RSV2 = False, h_RSV3 = False, h_Opcode = 0, h_Masked = False,
     h_Length = 0, h_Mask = [0, 0, 0, 0]\<rparr>"

text \<open>A frame read from a buffer: header and raw payload, or more bytes needed.\<close>

definition frame_outcome :: "byte list \<Rightarrow> (ws_error, frameHeader \<times> byte list) outcome" where
  "frame_outcome b =
     (case readFrameHeader readFull zeroHeader b of
        (Inl e, r) \<Rightarrow> if e = ErrEOF \<or> e = ErrUnexpectedEOF then More else Fail e
      | (Inr h, r) \<Rightarrow>
          if int (length r) < h_Length h then More
          else Done (h, take (nat (h_Length h)) r) (length b - length r + nat (h_Length h)))"

definition eofErr :: "ws_error \<Rightarrow> bool" where "eofErr e \<longleftrightarrow> e = ErrEOF \<or> e = ErrUnexpectedEOF"

text \<open>What a reading step does when more bytes follow.\<close>

definition stableRead :: "(byte list, 'a) reading \<Rightarrow> bool" where
  "stableRead f \<longleftrightarrow> (\<forall>b a r c. f b = (Inr a, r) \<longrightarrow> suffix r b \<and> f (b @ c) = (Inr a, r @ c))
     \<and> (\<forall>b e r c. f b = (Inl e, r) \<longrightarrow> \<not> eofErr e \<longrightarrow> (\<exists>r'. f (b @ c) = (Inl e, r')))"

lemma stableReadD:
  assumes "stableRead f"
  shows "f b = (Inr a, r) \<Longrightarrow> suffix r b" "f b = (Inr a, r) \<Longrightarrow> f (b @ c) = (Inr a, r @ c)"
    "f b = (Inl e, q) \<Longrightarrow> \<not> eofErr e \<Longrightarrow> \<exists>q'. f (b @ c) = (Inl e, q')"
  using assms unfolding stableRead_def by blast+

lemma stable_readFull: "stableRead (readFull n)"
  by (auto simp: stableRead_def readFull_def eofErr_def suffix_drop split: if_splits)

lemma bindRead_Inr: "bindRead f g b = (Inr a, r) \<Longrightarrow> \<exists>a1 r1. f b = (Inr a1, r1) \<and> g a1 r1 = (Inr a, r)"
  by (auto simp: bindRead_def split: prod.splits sum.splits)

lemma stable_bind:
  assumes f: "stableRead f" and g: "\<And>a. stableRead (g a)"
  shows "stableRead (bindRead f g)"
  unfolding stableRead_def
proof (intro conjI allI impI)
  fix b a r c assume "bindRead f g b = (Inr a, r)"
  then obtain a1 r1 where s: "f b = (Inr a1, r1)" "g a1 r1 = (Inr a, r)" using bindRead_Inr [of f g b a r] by blast
  show "suffix r b" using stableReadD(1) [OF f s(1)] stableReadD(1) [OF g s(2)] suffix_order.trans by blast
  show "bindRead f g (b @ c) = (Inr a, r @ c)"
    using stableReadD(2) [OF f s(1)] stableReadD(2) [OF g s(2)] by (simp add: bindRead_def)
next
  fix b e r c assume e: "bindRead f g b = (Inl e, r)" "\<not> eofErr e"
  obtain x r1 where f1: "f b = (x, r1)" by fastforce
  show "\<exists>r'. bindRead f g (b @ c) = (Inl e, r')"
  proof (cases x)
    case (Inl e')
    then have "e' = e" using e(1) f1 by (simp add: bindRead_def)
    then obtain q where "f (b @ c) = (Inl e, q)" using stableReadD(3) [OF f] f1 Inl e(2) by blast
    then show ?thesis by (simp add: bindRead_def)
  next
    case (Inr a)
    then have "g a r1 = (Inl e, r)" using e(1) f1 by (simp add: bindRead_def)
    then obtain q where "g a (r1 @ c) = (Inl e, q)" using stableReadD(3) [OF g] e(2) by blast
    then show ?thesis using stableReadD(2) [OF f] f1 Inr by (simp add: bindRead_def)
  qed
qed

lemma stable_return: "stableRead (returnRead h)"
  by (simp add: stableRead_def returnRead_def)

lemma stable_fail: "stableRead (failRead e)"
  by (simp add: stableRead_def failRead_def)

lemma stable_readMask: "stableRead (readMask readFull h)"
  by (auto simp: readMask_def intro: stable_bind stable_readFull stable_return)

lemma stable_readLength: "stableRead (readLength readFull b1 h)"
  by (auto simp: readLength_def Let_def intro!: stable_bind stable_readFull stable_return stable_fail)

lemma stable_header: "stableRead (readFrameHeader readFull h)"
  unfolding readFrameHeader_def by (intro stable_bind stable_readFull stable_readLength stable_readMask)

lemma frame_outcome_stable:
  assumes "frame_outcome b \<noteq> More"
  shows "frame_outcome (b @ c) = frame_outcome b"
proof -
  obtain x r where x: "readFrameHeader readFull zeroHeader b = (x, r)" by fastforce
  show ?thesis
  proof (cases x)
    case (Inl e)
    then have "\<not> eofErr e" using assms x by (simp add: frame_outcome_def eofErr_def split: if_splits)
    then obtain q where "readFrameHeader readFull zeroHeader (b @ c) = (Inl e, q)"
      using stableReadD(3) [OF stable_header] x Inl by blast
    then show ?thesis using x Inl by (simp add: frame_outcome_def)
  next
    case (Inr h)
    have r: "suffix r b" "readFrameHeader readFull zeroHeader (b @ c) = (Inr h, r @ c)"
      using stableReadD(1,2) [OF stable_header] x Inr by blast+
    have "\<not> int (length r) < h_Length h" using assms Inr x by (simp add: frame_outcome_def split: if_splits)
    then show ?thesis using Inr x r suffix_length_le [OF r(1)] by (simp add: frame_outcome_def)
  qed
qed

lemma frame_outcome_bound: "frame_outcome b = Done a n \<Longrightarrow> n \<le> length b"
  using stableReadD(1) [OF stable_header, of zeroHeader b]
  by (force simp: frame_outcome_def dest: suffix_length_le split: sum.splits prod.splits if_splits)

interpretation wsframe: strict_parser frame_outcome
  by unfold_locales (use frame_outcome_bound frame_outcome_stable in \<open>auto\<close>)

definition serverFrame :: "bool \<times> byte \<times> byte list \<Rightarrow> byte list" where
  "serverFrame x = (case x of (fin, opcode, payload) \<Rightarrow> writeFrame fin opcode payload)"

definition serverFrameOk :: "bool \<times> byte \<times> byte list \<Rightarrow> bool" where
  "serverFrameOk x = (case x of (fin, opcode, payload) \<Rightarrow> uint opcode < 16 \<and> length payload < 2 ^ 63)"

definition serverFrameVal :: "bool \<times> byte \<times> byte list \<Rightarrow> frameHeader \<times> byte list" where
  "serverFrameVal x = (case x of (fin, opcode, payload) \<Rightarrow> (writtenHeader fin opcode (length payload) zeroHeader, payload))"

interpretation wsframes: framing frame_outcome serverFrame serverFrameOk serverFrameVal
proof
  fix x c assume "serverFrameOk x"
  then obtain fin opcode payload where x: "x = (fin, opcode, payload)" "uint opcode < 16" "length payload < 2 ^ 63"
    by (cases x) (auto simp: serverFrameOk_def)
  have len: "h_Length (writtenHeader fin opcode (length payload) zeroHeader) = int (length payload)" by (simp add: writtenHeader_def)
  show "frame_outcome (serverFrame x @ c) = Done (serverFrameVal x) (length (serverFrame x))"
    using readFrameHeader_written [OF x(2,3), of zeroHeader fin c] len
    by (simp add: x(1) frame_outcome_def serverFrame_def serverFrameVal_def) (simp add: writeFrame_def writeFrameRaw_def)
  show "serverFrame x \<noteq> []" by (simp add: x(1) serverFrame_def writeFrame_def writeFrameRaw_def)
qed

text \<open>
  What the server writes is what a reader of frames gets. A sequence of frames with four-bit opcodes,
  written one after the other, reads back as exactly those frames, flags, lengths and payloads, with
  nothing left over, and in every case the shortest of the three length forms was used.
\<close>

lemma server_frames_read_back:
  assumes "\<forall>x \<in> set xs. serverFrameOk x"
  shows "drain frame_outcome (concat (map serverFrame xs)) = (map serverFrameVal xs, None, [])
    \<and> (\<forall>(fin, opcode, payload) \<in> set xs. length (serverFrame (fin, opcode, payload)) = length payload
         + (if length payload < 126 then 2 else if length payload < 65536 then 4 else 10))"
proof -
  have nil: "drain frame_outcome [] = ([], None, [])"
    by (subst drain.simps) (simp add: frame_outcome_def readFrameHeader_def readFull_def reading_defs)
  have "drain frame_outcome (concat (map serverFrame xs) @ []) = (map serverFrameVal xs, None, [])"
    using wsframes.drain_written [of xs "[]"] assms nil by simp
  moreover have "length (writeFrame fin opcode payload) = length payload
      + (if length payload < 126 then 2 else if length payload < 65536 then 4 else 10)" for fin opcode payload
    by (simp add: writeFrame_def writeFrameRaw_def lengthBytes_def)
  ultimately show ?thesis by (auto simp: serverFrame_def)
qed

text \<open>
  Close frames carry their status through. A close payload written for a code that may appear on the
  wire and a valid reason of at most 123 bytes is accepted by the parser and gives back that code and
  that reason.
\<close>

lemma close_payload_roundtrip:
  assumes "\<not> badCloseCode (int code)" "utf8Valid reason" "length reason \<le> 123"
  shows "parseClosePayload (closePayload code reason) = Inr (code, reason)"
proof -
  have code: "code < 65536" "code \<noteq> 0" using assms(1) by (auto simp: badCloseCode_def)
  have "bigEndian (putBig 2 code) = int code" using code by (simp add: bigEndian_putBig)
  then show ?thesis using assms code
    by (simp add: parseClosePayload_def closePayload_def maxControlPayload_def Let_def)
qed

text \<open>
  A longer reason is cut at 123 bytes, also inside a rune, and the parser refuses the result.
\<close>

lemma close_reason_cut:
  "utf8Valid (replicate 122 0x61 @ [0xC3, 0xA9])
   \<and> parseClosePayload (closePayload 1000 (replicate 122 0x61 @ [0xC3, 0xA9])) = Inl ErrInvalidCloseData"
  by (intro conjI; code_simp)

end
