(* ===== verification/WS_Reader.thy ===== *)
theory WS_Reader
  imports WS_Frame
begin

text \<open>
  The buffered reader of a connection (\<^verbatim>\<open>bufio.Reader\<close>, as \<^verbatim>\<open>middleware/websocket/conn.go\<close> uses it). Its
  state is what is buffered, the size of the buffer and the segments that the following reads of the
  connection will return. An empty list of segments is the end of the stream. The lemmas show that every
  operation takes the bytes of the stream in order, whatever the buffer size and the segments are.
\<close>

section \<open>Definitions\<close>

record bufReader =
  rbuf :: "byte list"
  rsize :: nat
  net :: "byte list list"

text \<open>One read of the connection into room for \<open>k\<close> bytes; \<open>None\<close> at the end of the stream.\<close>

definition netRead :: "nat \<Rightarrow> bufReader \<Rightarrow> byte list option \<times> bufReader" where
  "netRead k b =
     (case net b of
        [] \<Rightarrow> (None, b)
      | s # ss \<Rightarrow> (Some (take k s), b\<lparr>net := if length s \<le> k then ss else drop k s # ss\<rparr>))"

definition bufWeight :: "bufReader \<Rightarrow> nat" where
  "bufWeight b = length (rbuf b) + length (concat (net b)) + length (net b)"

definition fillBuf :: "bufReader \<Rightarrow> bufReader" where
  "fillBuf b = (case netRead (rsize b - length (rbuf b)) b of
     (None, b') \<Rightarrow> b' | (Some d, b') \<Rightarrow> b'\<lparr>rbuf := rbuf b @ d\<rparr>)"

lemma fillBuf_weight:
  assumes "net b \<noteq> []" "length (rbuf b) < rsize b"
  shows "length (concat (net (fillBuf b))) + length (net (fillBuf b)) < length (concat (net b)) + length (net b)"
  using assms by (cases "net b") (auto simp: fillBuf_def netRead_def)

function peekLoop :: "nat \<Rightarrow> bufReader \<Rightarrow> bufReader" where
  "peekLoop n b =
     (if length (rbuf b) < n \<and> length (rbuf b) < rsize b \<and> net b \<noteq> [] then peekLoop n (fillBuf b) else b)"
  by pat_completeness auto
termination
  by (relation "measure (\<lambda>(n, b). length (concat (net b)) + length (net b))") (use fillBuf_weight in \<open>auto\<close>)

declare peekLoop.simps [simp del]

definition bufPeek :: "nat \<Rightarrow> bufReader \<Rightarrow> byte list option \<times> bufReader" where
  "bufPeek n b =
     (let b' = peekLoop n b in
      (if n \<le> rsize b \<and> n \<le> length (rbuf b') then Some (take n (rbuf b')) else None, b'))"

definition bufDiscard :: "nat \<Rightarrow> bufReader \<Rightarrow> bufReader" where
  "bufDiscard n b = b\<lparr>rbuf := drop n (rbuf b)\<rparr>"

text \<open>
  \<^verbatim>\<open>Read\<close> into room for \<open>k\<close> bytes, \<open>0 < k\<close>: buffered bytes first; a large request with an empty buffer
  bypasses it.
\<close>

definition bufRead :: "nat \<Rightarrow> bufReader \<Rightarrow> byte list option \<times> bufReader" where
  "bufRead k b =
     (if rbuf b \<noteq> [] then (Some (take k (rbuf b)), b\<lparr>rbuf := drop k (rbuf b)\<rparr>)
      else if rsize b \<le> k then netRead k b
      else (case netRead (rsize b) b of
              (None, b') \<Rightarrow> (None, b')
            | (Some d, b') \<Rightarrow> (Some (take k d), b'\<lparr>rbuf := drop k d\<rparr>)))"

lemma bufRead_weight:
  assumes "bufRead k b = (Some d, b')" "0 < k" "0 < rsize b"
  shows "bufWeight b' < bufWeight b \<and> rsize b' = rsize b"
  using assms by (auto simp: bufRead_def netRead_def bufWeight_def split: if_splits list.splits)

text \<open>\<^verbatim>\<open>io.ReadFull\<close>: read until \<open>n\<close> bytes are there.\<close>

function readFullLoop :: "nat \<Rightarrow> byte list \<Rightarrow> bufReader \<Rightarrow> (ws_error + byte list) \<times> bufReader" where
  "readFullLoop n acc b =
     (if n \<le> length acc \<or> rsize b = 0 then (Inr acc, b)
      else (case bufRead (n - length acc) b of
              (None, b') \<Rightarrow> (Inl (if acc = [] then ErrEOF else ErrUnexpectedEOF), b')
            | (Some d, b') \<Rightarrow> readFullLoop n (acc @ d) b'))"
  by pat_completeness auto
termination
proof (relation "measure (\<lambda>(n, acc, b). bufWeight b)", goal_cases)
  case (2 n acc b x y d)
  then show ?case using bufRead_weight [of "n - length acc" b d y] by simp
qed simp

declare readFullLoop.simps [simp del]

definition bufReadFull :: "bufReader full" where
  "bufReadFull n b = readFullLoop n [] b"

section \<open>The bytes of the stream in order\<close>

definition stream :: "bufReader \<Rightarrow> byte list" where
  "stream b = rbuf b @ concat (net b)"

definition bufOk :: "bufReader \<Rightarrow> bool" where
  "bufOk b \<longleftrightarrow> 0 < rsize b \<and> length (rbuf b) \<le> rsize b"

lemma fillBuf_stream: "stream (fillBuf b) = stream b \<and> rsize (fillBuf b) = rsize b \<and> (bufOk b \<longrightarrow> bufOk (fillBuf b))"
  by (auto simp: fillBuf_def netRead_def stream_def bufOk_def split: list.splits)

lemma peekLoop_stream: "stream (peekLoop n b) = stream b \<and> rsize (peekLoop n b) = rsize b \<and> (bufOk b \<longrightarrow> bufOk (peekLoop n b))"
proof (induction n b rule: peekLoop.induct)
  case (1 n b)
  then show ?case using fillBuf_stream [of b] by (subst (1 2 3) peekLoop.simps) auto
qed

lemma peekLoop_enough: "n \<le> rsize b \<Longrightarrow> n \<le> length (stream b) \<Longrightarrow> n \<le> length (rbuf (peekLoop n b))"
proof (induction n b rule: peekLoop.induct)
  case (1 n b)
  show ?case
  proof (cases "length (rbuf b) < n \<and> length (rbuf b) < rsize b \<and> net b \<noteq> []")
    case True
    then show ?thesis using 1 fillBuf_stream [of b] by (subst peekLoop.simps) simp
  next
    case False
    then show ?thesis using 1(2,3) by (subst peekLoop.simps) (auto simp: stream_def)
  qed
qed

text \<open>Peeking changes nothing, and succeeds when the bytes fit in the buffer and will come.\<close>

lemma bufPeek_stream:
  assumes "bufPeek n b = (x, b')"
  shows "x = (if n \<le> rsize b \<and> n \<le> length (stream b) then Some (take n (stream b)) else None)"
    "stream b' = stream b" "rsize b' = rsize b" "bufOk b \<Longrightarrow> bufOk b'" "x \<noteq> None \<Longrightarrow> n \<le> length (rbuf b')"
proof -
  have b': "b' = peekLoop n b" using assms by (simp add: bufPeek_def Let_def)
  show "stream b' = stream b" "rsize b' = rsize b" "bufOk b \<Longrightarrow> bufOk b'" using peekLoop_stream [of n b] b' by auto
  then have s: "stream b = rbuf b' @ concat (net b')" by (simp add: stream_def)
  show "x = (if n \<le> rsize b \<and> n \<le> length (stream b) then Some (take n (stream b)) else None)"
    using assms b' s peekLoop_enough [of n b] by (auto simp: bufPeek_def Let_def)
  show "x \<noteq> None \<Longrightarrow> n \<le> length (rbuf b')" using assms b' by (auto simp: bufPeek_def Let_def split: if_splits)
qed

lemma bufDiscard_stream:
  assumes "n \<le> length (rbuf b)"
  shows "stream (bufDiscard n b) = drop n (stream b)" "rsize (bufDiscard n b) = rsize b" "bufOk b \<Longrightarrow> bufOk (bufDiscard n b)"
  using assms by (auto simp: bufDiscard_def stream_def bufOk_def)

lemma take_cut: "k < m \<Longrightarrow> take k xs @ drop k (take m xs) @ drop m xs = xs"
  using append_take_drop_id [of k "take m xs"] append_take_drop_id [of m xs] by (simp add: min_def flip: append.assoc)

lemma bufRead_stream:
  assumes "bufRead k b = (x, b')"
  shows "x = None \<Longrightarrow> stream b = [] \<and> stream b' = []" "x = Some d \<Longrightarrow> stream b = d @ stream b' \<and> length d \<le> k"
    "rsize b' = rsize b" "bufOk b \<Longrightarrow> bufOk b'"
  using assms by (auto simp: bufRead_def netRead_def stream_def bufOk_def take_cut split: if_splits list.splits)

lemma readFullLoop_stream:
  "bufOk b \<Longrightarrow> length acc \<le> n \<Longrightarrow> fst (readFullLoop n acc b) = fst (readFull n (acc @ stream b))
     \<and> stream (snd (readFullLoop n acc b)) = snd (readFull n (acc @ stream b))
     \<and> bufOk (snd (readFullLoop n acc b)) \<and> rsize (snd (readFullLoop n acc b)) = rsize b"
proof (induction n acc b rule: readFullLoop.induct)
  case (1 n acc b)
  have ok: "rsize b \<noteq> 0" using 1(2) by (simp add: bufOk_def)
  obtain x b' where r: "bufRead (n - length acc) b = (x, b')" by fastforce
  show ?case
  proof (cases "n \<le> length acc")
    case True
    then show ?thesis using 1(2,3) by (subst (1 2 3 4) readFullLoop.simps) (simp add: readFull_def)
  next
    case more: False
    show ?thesis
    proof (cases x)
      case None
      then show ?thesis using more ok r bufRead_stream [OF r] 1(2) by (subst (1 2 3 4) readFullLoop.simps) (simp add: readFull_def)
    next
      case (Some d)
      have s: "stream b = d @ stream b'" "length d \<le> n - length acc" "bufOk b'" "rsize b' = rsize b"
        using bufRead_stream [OF r] Some 1(2) by auto
      have "readFullLoop n acc b = readFullLoop n (acc @ d) b'"
        using more ok r Some by (subst readFullLoop.simps) simp
      then show ?thesis using 1(1) [of "Some d" b' d] more ok r Some s by simp
    qed
  qed
qed

interpretation bufio: byte_reader bufReadFull stream bufOk
proof
  fix n
  show "sameReading stream bufOk (bufReadFull n) (readFull n)"
    unfolding sameReading_def bufReadFull_def using readFullLoop_stream [of _ "[]" n] by simp
qed

end
