(* ===== verification/WS_Conn.thy ===== *)
theory WS_Conn
  imports WS_Reader
begin

unbundle bit_operations_syntax

text \<open>
  A WebSocket connection (\<^verbatim>\<open>middleware/websocket/conn.go\<close>, \<^verbatim>\<open>writer.go\<close>, \<^verbatim>\<open>compress.go\<close>): reading frames on
  the fast and on the slow path, assembling messages, control frames, and the writers. The record holds
  the fields of \<^verbatim>\<open>Conn\<close> that these operations read or change. \<^verbatim>\<open>out\<close> is what has been handed to the
  engine, in order. The frame header that the code keeps in \<^verbatim>\<open>readHdr\<close> is returned with the payload.
  Deadlines, pooled buffers and the reuse of the payload buffer are left out. \<^verbatim>\<open>inflate\<close> stands for
  \<^verbatim>\<open>compress/flate\<close>: the bytes it produces and whether it ended without an error.
\<close>

section \<open>State\<close>

record wsConn =
  br :: bufReader
  readLimit :: int
  readFrag :: byte
  readFragBuf :: "byte list"
  readCompressed :: bool
  readUTF8 :: utf8Stream
  compressEnabled :: bool
  compressDisabled :: bool
  compressLevel :: int
  compressThreshold :: int
  fragWriting :: bool
  closeSent :: bool
  closeRecv :: bool
  closed :: bool
  writeErr :: "ws_error option"
  bwErr :: "ws_error option"
  out :: "byte list"

definition defaultReadLimit :: int where "defaultReadLimit = 64 * 1024 * 1024"

definition newEngineConn :: "bufReader \<Rightarrow> wsConn" where
  "newEngineConn r =
     \<lparr>br = r, readLimit = defaultReadLimit, readFrag = 0, readFragBuf = [], readCompressed = False,
      readUTF8 = \<lparr>pending = []\<rparr>, compressEnabled = False, compressDisabled = False, compressLevel = 0, compressThreshold = 0,
      fragWriting = False, closeSent = False, closeRecv = False, closed = False, writeErr = None,
      bwErr = None, out = []\<rparr>"

text \<open>The texts of the errors that can travel in a close frame.\<close>

fun errText :: "ws_error \<Rightarrow> gostring" where
  "errText ErrProtocol = str ''websocket: protocol error''"
| "errText ErrReservedBits = str ''websocket: reserved bits set''"
| "errText ErrFragmentedControl = str ''websocket: fragmented control frame''"
| "errText ErrControlTooLarge = str ''websocket: control frame payload > 125''"
| "errText ErrInvalidCloseData = str ''websocket: invalid close frame data''"
| "errText _ = []"

section \<open>Writing\<close>

text \<open>
  The engine writer and the \<^verbatim>\<open>bufio.Writer\<close> before it: a write followed by a flush. An error of the
  engine writer stays in the \<^verbatim>\<open>bufio.Writer\<close>.
\<close>

definition engineWrite :: "wsConn \<Rightarrow> byte list \<Rightarrow> ws_error option \<times> wsConn" where
  "engineWrite c p =
     (case writeErr c of
        Some e \<Rightarrow> (Some e, c)
      | None \<Rightarrow> if closed c then (Some ErrWriteClosed, c) else (None, c\<lparr>out := out c @ p\<rparr>))"

definition flushWrite :: "wsConn \<Rightarrow> byte list \<Rightarrow> ws_error option \<times> wsConn" where
  "flushWrite c p =
     (case bwErr c of
        Some e \<Rightarrow> (Some e, c)
      | None \<Rightarrow> (case engineWrite c p of
                   (Some e, c') \<Rightarrow> (Some e, c'\<lparr>bwErr := Some e\<rparr>)
                 | (None, c') \<Rightarrow> (None, c')))"

definition connWriteCloseFrame :: "nat \<Rightarrow> gostring \<Rightarrow> wsConn \<Rightarrow> ws_error option \<times> wsConn" where
  "connWriteCloseFrame code reason c = flushWrite (c\<lparr>closeSent := True\<rparr>) (writeCloseFrame code reason)"

definition writeCloseProtocol :: "nat \<Rightarrow> gostring \<Rightarrow> wsConn \<Rightarrow> wsConn" where
  "writeCloseProtocol code reason c = snd (connWriteCloseFrame code reason c)"

definition writePong :: "byte list \<Rightarrow> wsConn \<Rightarrow> ws_error option \<times> wsConn" where
  "writePong data c =
     (if closed c then (Some ErrWriteClosed, c) else flushWrite c (writeFrame True OpPong data))"

section \<open>Reading a frame\<close>

text \<open>The checks on a header, common to both paths: close code, text and error.\<close>

definition refuseHeader :: "wsConn \<Rightarrow> frameHeader \<Rightarrow> (nat \<times> gostring \<times> ws_error) option" where
  "refuseHeader c h =
     (case validateFrameHeader h (compressEnabled c) of
        Some e \<Rightarrow> Some (CloseProtocolError, errText e, e)
      | None \<Rightarrow>
          if \<not> h_Masked h then Some (CloseProtocolError, str ''unmasked client frame'', ErrProtocol)
          else if h_Length h > readLimit c then Some (CloseMessageTooBig, str ''message too large'', ErrReadLimit)
          else None)"

text \<open>The loop of the slow path that validates text while it arrives.\<close>

function textLoop :: "frameHeader \<Rightarrow> nat \<Rightarrow> byte list \<Rightarrow> wsConn \<Rightarrow> (ws_error + byte list) \<times> wsConn" where
  "textLoop h n payload c =
     (if length payload < n \<and> 0 < rsize (br c) then
        (case bufRead (n - length payload) (br c) of
           (None, b) \<Rightarrow> (Inl ErrEOF, c\<lparr>br := b\<rparr>)
         | (Some got, b) \<Rightarrow>
             if got = [] then textLoop h n payload (c\<lparr>br := b\<rparr>)
             else
               let p = maskBytesOffset (h_Mask h) got (length payload);
                   final = (length payload + length got = n \<and> h_Fin h) in
               (case utf8Feed (readUTF8 c) p final of
                  (ok, u) \<Rightarrow>
                    if \<not> ok then (Inl ErrInvalidUTF8, writeCloseProtocol CloseInvalidPayload (str ''invalid UTF-8'') (c\<lparr>br := b, readUTF8 := u\<rparr>))
                    else textLoop h n (payload @ p) (c\<lparr>br := b, readUTF8 := u\<rparr>)))
      else (Inr payload, c))"
  by pat_completeness auto
termination
proof (relation "measure (\<lambda>(h, n, payload, c). bufWeight (br c))", goal_cases)
  case (2 h n payload c x b got)
  then show ?case using bufRead_weight [of "n - length payload" "br c" got b] by simp
next
  case (3 h n payload c x b got)
  then show ?case using bufRead_weight [of "n - length payload" "br c" got b] by simp
qed simp

declare textLoop.simps [simp del]

definition opcodeText :: "wsConn \<Rightarrow> frameHeader \<Rightarrow> bool" where
  "opcodeText c h \<longleftrightarrow> h_Opcode h = OpText \<or> h_Opcode h = OpContinuation \<and> readFrag c = OpText"

definition streamValidate :: "wsConn \<Rightarrow> frameHeader \<Rightarrow> bool" where
  "streamValidate c h \<longleftrightarrow> \<not> h_RSV1 h \<and> \<not> readCompressed c \<and> opcodeText c h"

definition beginText :: "frameHeader \<Rightarrow> wsConn \<Rightarrow> wsConn" where
  "beginText h c = (if h_Opcode h = OpText then c\<lparr>readUTF8 := utf8Reset (readUTF8 c)\<rparr> else c)"

definition readPayload :: "frameHeader \<Rightarrow> wsConn \<Rightarrow> (ws_error + byte list) \<times> wsConn" where
  "readPayload h c =
     (let n = nat (h_Length h) in
      if streamValidate c h then
        textLoop h n [] (beginText h c)
      else
        (case bufReadFull n (br c) of
           (Inl e, b) \<Rightarrow> (Inl e, c\<lparr>br := b\<rparr>)
         | (Inr p, b) \<Rightarrow> (Inr (maskBytes (h_Mask h) p), c\<lparr>br := b\<rparr>)))"

definition readFrameSlow :: "wsConn \<Rightarrow> (ws_error + frameHeader \<times> byte list) \<times> wsConn" where
  "readFrameSlow c =
     (case readFrameHeader bufReadFull zeroHeader (br c) of
        (Inl e, b) \<Rightarrow> (Inl e, c\<lparr>br := b\<rparr>)
      | (Inr h, b) \<Rightarrow>
          (case refuseHeader (c\<lparr>br := b\<rparr>) h of
             Some (code, reason, e) \<Rightarrow> (Inl e, writeCloseProtocol code reason (c\<lparr>br := b\<rparr>))
           | None \<Rightarrow>
               (case readPayload h (c\<lparr>br := b\<rparr>) of
                  (Inl e, c') \<Rightarrow> (Inl e, c')
                | (Inr payload, c') \<Rightarrow> (Inr (h, payload), c'))))"

text \<open>The small frame that one peek returned whole.\<close>

definition peekedFrame :: "frameHeader \<Rightarrow> nat \<Rightarrow> nat \<Rightarrow> byte list \<Rightarrow> wsConn \<Rightarrow> (ws_error + frameHeader \<times> byte list) \<times> wsConn" where
  "peekedFrame h payLen totalSize buf c =
     (let h' = h\<lparr>h_Mask := (if h_Masked h then take 4 (drop 2 buf) else h_Mask h), h_Length := int payLen\<rparr>;
          pos = (if h_Masked h then 6 else 2);
          c' = c\<lparr>br := bufDiscard totalSize (br c)\<rparr> in
      (case refuseHeader c h' of
         Some (code, reason, e) \<Rightarrow> (Inl e, writeCloseProtocol code reason c')
       | None \<Rightarrow> (Inr (h', maskBytes (h_Mask h') (take payLen (drop pos buf))), c')))"

text \<open>Header and payload of a frame, by the seven length bits.\<close>

definition frameSize :: "frameHeader \<Rightarrow> nat \<Rightarrow> nat" where
  "frameSize h payLen =
     2 + (if payLen = 126 then 2 else if payLen = 127 then 8 else 0) + (if h_Masked h then 4 else 0) + payLen"

definition readFrameFast :: "wsConn \<Rightarrow> (ws_error + frameHeader \<times> byte list) \<times> wsConn" where
  "readFrameFast c =
     (case bufPeek 2 (br c) of
        (None, b) \<Rightarrow> readFrameSlow (c\<lparr>br := b\<rparr>)
      | (Some hdr, b) \<Rightarrow>
          let c1 = c\<lparr>br := b\<rparr>;
              h = firstTwo (hdr ! 0) (hdr ! 1) zeroHeader;
              payLen = unat (hdr ! 1 AND 0x7F);
              totalSize = frameSize h payLen in
          if opcodeText c1 h \<and> \<not> h_RSV1 h \<and> \<not> readCompressed c1 then readFrameSlow c1
          else if payLen < 126 \<and> totalSize \<le> 4096 then
            (case bufPeek totalSize b of
               (Some buf, b2) \<Rightarrow> peekedFrame h payLen totalSize buf (c\<lparr>br := b2\<rparr>)
             | (None, b2) \<Rightarrow> readFrameSlow (c\<lparr>br := b2\<rparr>))
          else readFrameSlow c1)"

section \<open>Control frames\<close>

text \<open>
  The handlers an application can install. They may use the connection, so each takes and returns it.
\<close>

record handlers =
  pingHandler :: "(byte list \<Rightarrow> wsConn \<Rightarrow> ws_error option \<times> wsConn) option"
  pongHandler :: "(byte list \<Rightarrow> wsConn \<Rightarrow> ws_error option \<times> wsConn) option"
  closeHandler :: "(nat \<Rightarrow> gostring \<Rightarrow> wsConn \<Rightarrow> ws_error option \<times> wsConn) option"

definition defaultPingHandler :: "byte list \<Rightarrow> wsConn \<Rightarrow> ws_error option \<times> wsConn" where
  "defaultPingHandler data c = writePong data c"

definition defaultHandlers :: handlers where
  "defaultHandlers = \<lparr>pingHandler = Some defaultPingHandler, pongHandler = None, closeHandler = None\<rparr>"

definition handleCloseFrame :: "handlers \<Rightarrow> byte list \<Rightarrow> wsConn \<Rightarrow> ws_error option \<times> wsConn" where
  "handleCloseFrame hs payload c =
     (let c1 = c\<lparr>closeRecv := True\<rparr>;
          (code, reason) = (case parseClosePayload payload of
                              Inl e \<Rightarrow> (CloseProtocolError, errText e)
                            | Inr (code, reason) \<Rightarrow> (code, reason)) in
      case closeHandler hs of
        Some f \<Rightarrow> f code reason c1
      | None \<Rightarrow>
          (let c2 = (if \<not> closeSent c1 then
                       (if payload = [] then snd (connWriteCloseFrame 0 [] c1)
                        else snd (connWriteCloseFrame code reason c1))
                     else c1) in
           (Some (CloseError code reason), c2)))"

definition handleControl :: "handlers \<Rightarrow> byte \<Rightarrow> byte list \<Rightarrow> wsConn \<Rightarrow> ws_error option \<times> wsConn" where
  "handleControl hs opcode payload c =
     (if opcode = OpPing then
        (case pingHandler hs of Some f \<Rightarrow> f payload c | None \<Rightarrow> writePong payload c)
      else if opcode = OpPong then
        (case pongHandler hs of Some f \<Rightarrow> f payload c | None \<Rightarrow> (None, c))
      else if opcode = OpClose then handleCloseFrame hs payload c
      else (None, c))"

section \<open>Messages\<close>

definition deflateTrailer :: "byte list" where "deflateTrailer = [0x00, 0x00, 0xFF, 0xFF]"

definition finalBlock :: "byte list" where "finalBlock = [0x01, 0x00, 0x00, 0xFF, 0xFF]"

type_synonym inflater = "byte list \<Rightarrow> byte list \<times> bool"

definition decompressMessage :: "inflater \<Rightarrow> byte list \<Rightarrow> int \<Rightarrow> ws_error + byte list" where
  "decompressMessage inflate data maxOutput =
     (case inflate (data @ deflateTrailer @ finalBlock) of
        (result, clean) \<Rightarrow>
          if int (length result) > maxOutput then Inl ErrReadLimit
          else if \<not> clean then Inl ErrDecompress
          else Inr result)"

text \<open>A complete message: decompression, then the check of compressed text.\<close>

definition finishMessage :: "inflater \<Rightarrow> byte \<Rightarrow> byte list \<Rightarrow> wsConn \<Rightarrow> (ws_error + byte \<times> byte list) \<times> wsConn" where
  "finishMessage inflate opcode msg c =
     (if readCompressed c then
        (case decompressMessage inflate msg (readLimit c) of
           Inl e \<Rightarrow>
             (Inl e, if e = ErrReadLimit then writeCloseProtocol CloseMessageTooBig (str ''decompressed message too large'') c
                     else writeCloseProtocol CloseProtocolError (str ''decompression error'') c)
         | Inr d \<Rightarrow>
             if opcode = OpText \<and> \<not> utf8Valid d
             then (Inl ErrInvalidUTF8, writeCloseProtocol CloseInvalidPayload (str ''invalid UTF-8'') c)
             else (Inr (opcode, d), c))
      else (Inr (opcode, msg), c))"

text \<open>A data frame: the first value is \<open>None\<close> when more frames of the message are to come.\<close>

definition dataFrame :: "inflater \<Rightarrow> frameHeader \<Rightarrow> byte list \<Rightarrow> wsConn \<Rightarrow> (ws_error + byte \<times> byte list) option \<times> wsConn" where
  "dataFrame inflate h payload c =
     (if h_Opcode h \<noteq> OpContinuation then
        if readFrag c \<noteq> 0 then (Some (Inl ErrProtocol), writeCloseProtocol CloseProtocolError (str ''interleaved data frame'') c)
        else
          let c1 = c\<lparr>readCompressed := h_RSV1 h\<rparr> in
          if h_Fin h then (case finishMessage inflate (h_Opcode h) payload c1 of (r, c2) \<Rightarrow> (Some r, c2))
          else (None, c1\<lparr>readFrag := h_Opcode h, readFragBuf := payload\<rparr>)
      else if readFrag c = 0 then (Some (Inl ErrProtocol), writeCloseProtocol CloseProtocolError (str ''unexpected continuation'') c)
      else if int (length (readFragBuf c)) + int (length payload) > readLimit c
      then (Some (Inl ErrReadLimit), writeCloseProtocol CloseMessageTooBig (str ''message too large'') c)
      else
        let c1 = c\<lparr>readFragBuf := readFragBuf c @ payload\<rparr> in
        if \<not> h_Fin h then (None, c1)
        else (case finishMessage inflate (readFrag c1) (readFragBuf c1) (c1\<lparr>readFrag := 0, readFragBuf := []\<rparr>) of
                (r, c2) \<Rightarrow> (Some r, c2)))"

partial_function (option) ReadMessageReuse ::
  "handlers \<Rightarrow> inflater \<Rightarrow> wsConn \<Rightarrow> ((ws_error + byte \<times> byte list) \<times> wsConn) option" where
  "ReadMessageReuse hs inflate c =
     (case readFrameFast c of
        (Inl e, c1) \<Rightarrow> Some (Inl e, c1)
      | (Inr (h, payload), c1) \<Rightarrow>
          if IsControl (h_Opcode h) then
            (case handleControl hs (h_Opcode h) payload c1 of
               (Some e, c2) \<Rightarrow> Some (Inl e, c2)
             | (None, c2) \<Rightarrow> ReadMessageReuse hs inflate c2)
          else
            (case dataFrame inflate h payload c1 of
               (Some r, c2) \<Rightarrow> Some (r, c2)
             | (None, c2) \<Rightarrow> ReadMessageReuse hs inflate c2))"

declare ReadMessageReuse.simps [code]

end
