(* ===== verification/WS_Read.thy ===== *)
theory WS_Read
  imports WS_Conn
begin

text \<open>
  Reading a frame does not depend on how the bytes arrive: the fast path, the slow path and the loop
  that validates text return what a reader of the plain stream of bytes returns.
\<close>

section \<open>What a frame reader returns\<close>

text \<open>
  The frame at the head of a stream of bytes, without a buffer and without a fast path: the result, the
  connection apart from its reader, and the bytes after the frame.
\<close>

definition textSpec :: "frameHeader \<Rightarrow> nat \<Rightarrow> byte list \<Rightarrow> wsConn \<Rightarrow> byte list \<Rightarrow> (ws_error + byte list) \<times> wsConn \<times> byte list" where
  "textSpec h n payload c s =
     (let k = n - length payload; p = xorMask (length payload) (h_Mask h) (take k s) in
      if k = 0 then (Inr payload, c, s)
      else (case utf8Feed (readUTF8 c) p (k \<le> length s \<and> h_Fin h) of
              (ok, u) \<Rightarrow>
                if \<not> ok then (Inl ErrInvalidUTF8, writeCloseProtocol CloseInvalidPayload (str ''invalid UTF-8'') c, [])
                else if k \<le> length s then (Inr (payload @ p), c\<lparr>readUTF8 := u\<rparr>, drop k s)
                else (Inl ErrEOF, c, [])))"

definition payloadSpec :: "frameHeader \<Rightarrow> wsConn \<Rightarrow> byte list \<Rightarrow> (ws_error + byte list) \<times> wsConn \<times> byte list" where
  "payloadSpec h c s =
     (let n = nat (h_Length h) in
      if streamValidate c h then textSpec h n [] (beginText h c) s
      else if n \<le> length s then (Inr (xorMask 0 (h_Mask h) (take n s)), c, drop n s)
      else (Inl (if s = [] then ErrEOF else ErrUnexpectedEOF), c, []))"

definition frameSpec :: "wsConn \<Rightarrow> byte list \<Rightarrow> (ws_error + frameHeader \<times> byte list) \<times> wsConn \<times> byte list" where
  "frameSpec c s =
     (case readFrameHeader readFull zeroHeader s of
        (Inl e, r) \<Rightarrow> (Inl e, c, r)
      | (Inr h, r) \<Rightarrow>
          (case refuseHeader c h of
             Some (code, reason, e) \<Rightarrow> (Inl e, writeCloseProtocol code reason c, r)
           | None \<Rightarrow>
               (case payloadSpec h c r of
                  (Inl e, c', r') \<Rightarrow> (Inl e, c', r')
                | (Inr p, c', r') \<Rightarrow> (Inr (h, p), c', r'))))"

text \<open>
  The connections after an error may differ in what is left to read and in the state of the validator;
  after a frame they agree.
\<close>

definition sameButReader :: "wsConn \<Rightarrow> wsConn \<Rightarrow> bool" where
  "sameButReader c c' \<longleftrightarrow> c\<lparr>br := br c', readUTF8 := readUTF8 c'\<rparr> = c'"

definition frameMatch ::
  "(ws_error + 'a) \<times> wsConn \<Rightarrow> (ws_error + 'a) \<times> wsConn \<times> byte list \<Rightarrow> bool" where
  "frameMatch x y \<longleftrightarrow> (case (x, y) of ((r, c1), (r', c2, rest)) \<Rightarrow>
     r = r' \<and> sameButReader c1 c2 \<and> bufOk (br c1) \<and> utf8Ok (readUTF8 c1)
     \<and> (isl r \<or> c1 = c2\<lparr>br := br c1\<rparr> \<and> stream (br c1) = rest))"

lemma sameButReader_simps [simp]:
  "sameButReader c c"
  "sameButReader (c\<lparr>br := b\<rparr>) c' \<longleftrightarrow> sameButReader c c'"
  "sameButReader c (c'\<lparr>br := b\<rparr>) \<longleftrightarrow> sameButReader c c'"
  "sameButReader (c\<lparr>readUTF8 := u\<rparr>) c' \<longleftrightarrow> sameButReader c c'"
  "sameButReader c (c'\<lparr>readUTF8 := u\<rparr>) \<longleftrightarrow> sameButReader c c'"
  by (cases c; cases c'; auto simp: sameButReader_def)+

lemma sameButReader_trans: "sameButReader a b \<Longrightarrow> sameButReader b c \<Longrightarrow> sameButReader a c"
  by (cases a; cases b; cases c) (auto simp: sameButReader_def)

text \<open>Writing looks only at the write side.\<close>

lemma flushWrite_reader:
  "flushWrite (c\<lparr>br := b\<rparr>) p = (case flushWrite c p of (e, c') \<Rightarrow> (e, c'\<lparr>br := b\<rparr>))"
  "flushWrite (c\<lparr>readUTF8 := u\<rparr>) p = (case flushWrite c p of (e, c') \<Rightarrow> (e, c'\<lparr>readUTF8 := u\<rparr>))"
  by (auto simp: flushWrite_def engineWrite_def split: option.splits)

lemma writeClose_reader:
  "writeCloseProtocol code reason (c\<lparr>br := b\<rparr>) = (writeCloseProtocol code reason c)\<lparr>br := b\<rparr>"
  "writeCloseProtocol code reason (c\<lparr>readUTF8 := u\<rparr>) = (writeCloseProtocol code reason c)\<lparr>readUTF8 := u\<rparr>"
  by (auto simp: writeCloseProtocol_def connWriteCloseFrame_def flushWrite_def engineWrite_def split: option.splits)

lemma writeClose_fields [simp]:
  "br (writeCloseProtocol code reason c) = br c" "readUTF8 (writeCloseProtocol code reason c) = readUTF8 c"
  by (auto simp: writeCloseProtocol_def connWriteCloseFrame_def flushWrite_def engineWrite_def split: option.splits)

lemma refuseHeader_reader [simp]: "refuseHeader (c\<lparr>br := b\<rparr>) h = refuseHeader c h"
  by (simp add: refuseHeader_def)

lemma streamValidate_reader [simp]: "streamValidate (c\<lparr>br := b\<rparr>) h = streamValidate c h"
  by (simp add: streamValidate_def opcodeText_def)

subsection \<open>The loop that validates text\<close>

lemma textSpec_reader: "textSpec h n payload (c\<lparr>br := b\<rparr>) s = (case textSpec h n payload c s of (r, c', t) \<Rightarrow> (r, c'\<lparr>br := b\<rparr>, t))"
  by (auto simp: textSpec_def Let_def writeClose_reader split: prod.splits)

lemma match_reader [simp]: "frameMatch y (r, c\<lparr>br := b\<rparr>, t) \<longleftrightarrow> frameMatch y (r, c, t)"
  by (cases y) (auto simp: frameMatch_def)

lemma length_xorMask [simp]: "length (xorMask off mk b) = length b"
  by (simp add: xorMask_def)

lemma xorMask_nil [simp]: "xorMask off mk [] = []"
  by (simp add: xorMask_def)

lemma textSpec_end:
  assumes "length payload < n" "utf8Ok (readUTF8 c)"
  shows "textSpec h n payload c [] = (Inl ErrEOF, c, [])"
  using assms by (simp add: textSpec_def Let_def utf8Feed_nil)

text \<open>One piece more: the specification after the piece, from the state the validator is then in.\<close>

lemma textSpec_step:
  assumes s: "s = got @ t" "got \<noteq> []" "length got \<le> n - length payload"
    and p: "p = xorMask (length payload) (h_Mask h) got"
    and feed: "utf8Feed (readUTF8 c) p (length payload + length got = n \<and> h_Fin h) = (ok, u)"
  shows "if ok then (\<exists>r c2 c3 rest. textSpec h n payload c s = (r, c2, rest) \<and> textSpec h n (payload @ p) (c\<lparr>br := b, readUTF8 := u\<rparr>) t = (r, c3, rest)
            \<and> sameButReader c3 c2 \<and> (isl r \<or> c3 = c2\<lparr>br := b\<rparr>))
    else fst (textSpec h n payload c s) = Inl ErrInvalidUTF8
      \<and> fst (snd (textSpec h n payload c s)) = writeCloseProtocol CloseInvalidPayload (str ''invalid UTF-8'') c"
proof -
  let ?k = "n - length payload"
  let ?k' = "?k - length got"
  let ?rest = "take ?k' (t)"
  let ?q = "xorMask (length payload + length got) (h_Mask h) ?rest"
  have k: "?k \<noteq> 0" using s(2,3) by auto
  have tk: "take ?k (s) = got @ ?rest" "drop ?k (s) = drop ?k' (t)"
    "?k \<le> length (s) \<longleftrightarrow> ?k' \<le> length (t)" using s by auto
  have pq: "xorMask (length payload) (h_Mask h) (take ?k (s)) = p @ ?q" by (simp add: tk p xorMask_append)
  have lp: "length p = length got" by (simp add: p)
  show ?thesis
  proof (cases "?k' = 0")
    case True
    then have last: "?k = length got" "length payload + length got = n" using s(3) k by auto
    then have full: "?k \<le> length (s)" using s by simp
    have "p @ ?q = p" using True by simp
    then show ?thesis using feed k full last pq tk(2) True lp
      by (auto simp: textSpec_def Let_def)
  next
    case False
    then have notlast: "\<not> length payload + length got = n" using s(3) by auto
    have both: "utf8Feed (readUTF8 c) (p @ ?q) f = (if ok then utf8Feed u ?q f else (False, u))" for f
      using feed notlast by (simp add: utf8Feed_append)
    show ?thesis
    proof (cases ok)
      case True
      obtain ok2 u2 where f2: "utf8Feed u ?q (?k' \<le> length (t) \<and> h_Fin h) = (ok2, u2)" by fastforce
      have k'': "n - length (payload @ p) = ?k'" "length (payload @ p) = length payload + length got" by (simp_all add: lp)
      have "textSpec h n payload c s = (if \<not> ok2 then (Inl ErrInvalidUTF8, writeCloseProtocol CloseInvalidPayload (str ''invalid UTF-8'') c, [])
                else if ?k' \<le> length (t) then (Inr (payload @ p @ ?q), c\<lparr>readUTF8 := u2\<rparr>, drop ?k' (t))
                else (Inl ErrEOF, c, []))"
        using k both True f2 unfolding textSpec_def Let_def pq unfolding tk by simp
      moreover have "textSpec h n (payload @ p) (c\<lparr>br := b, readUTF8 := u\<rparr>) t
          = (if \<not> ok2 then (Inl ErrInvalidUTF8, writeCloseProtocol CloseInvalidPayload (str ''invalid UTF-8'') (c\<lparr>br := b, readUTF8 := u\<rparr>), [])
                else if ?k' \<le> length (t) then (Inr (payload @ p @ ?q), c\<lparr>br := b, readUTF8 := u2\<rparr>, drop ?k' (t))
                else (Inl ErrEOF, c\<lparr>br := b, readUTF8 := u\<rparr>, []))"
        using False f2 unfolding textSpec_def Let_def k'' by simp
      ultimately show ?thesis using True by (auto simp: writeClose_reader)
    next
      case bad: False
      then show ?thesis using k both unfolding textSpec_def Let_def pq unfolding tk by simp
    qed
  qed
qed

lemma textLoop_spec:
  "bufOk (br c) \<Longrightarrow> utf8Ok (readUTF8 c) \<Longrightarrow> length payload \<le> n \<Longrightarrow> frameMatch (textLoop h n payload c) (textSpec h n payload c (stream (br c)))"
proof (induction h n payload c rule: textLoop.induct)
  case (1 h n payload c)
  have rs: "0 < rsize (br c)" using 1(3) by (simp add: bufOk_def)
  show ?case
  proof (cases "length payload < n")
    case False
    then have "textLoop h n payload c = (Inr payload, c)" by (subst textLoop.simps) simp
    then show ?thesis using False 1(3,4) by (simp add: textSpec_def frameMatch_def)
  next
    case more: True
    obtain x b where r: "bufRead (n - length payload) (br c) = (x, b)" by fastforce
    note bs = bufRead_stream [OF r]
    have okb: "bufOk b" using bs(4) 1(3) by simp
    show ?thesis
    proof (cases x)
      case None
      then have "textLoop h n payload c = (Inl ErrEOF, c\<lparr>br := b\<rparr>)" using more rs r by (subst textLoop.simps) simp
      then show ?thesis using textSpec_end [of payload n c h] bs(1) None more 1(4) okb by (simp add: frameMatch_def)
    next
      case (Some got)
      have s: "stream (br c) = got @ stream b" "length got \<le> n - length payload" using bs(2) Some by auto
      show ?thesis
      proof (cases "got = []")
        case True
        have "textLoop h n payload c = textLoop h n payload (c\<lparr>br := b\<rparr>)" using more rs r Some True by (subst textLoop.simps) simp
        moreover have "frameMatch (textLoop h n payload (c\<lparr>br := b\<rparr>)) (textSpec h n payload (c\<lparr>br := b\<rparr>) (stream b))"
          using 1(1) [of x b got] more rs r Some True okb 1(4) by simp
        ultimately show ?thesis using s True by (simp add: textSpec_reader split: prod.splits)
      next
        case False
        let ?p = "maskBytesOffset (h_Mask h) got (length payload)"
        have p: "?p = xorMask (length payload) (h_Mask h) got" by (rule maskBytesOffset_xor)
        obtain ok u where f: "utf8Feed (readUTF8 c) ?p (length payload + length got = n \<and> h_Fin h) = (ok, u)" by fastforce
        note step = textSpec_step [OF s(1) False s(2) p f, of b]
        have oku: "utf8Ok u" using utf8Feed_ok [of "readUTF8 c" ?p] f by (metis snd_conv)
        show ?thesis
        proof (cases ok)
          case True
          have loop: "textLoop h n payload c = textLoop h n (payload @ ?p) (c\<lparr>br := b, readUTF8 := u\<rparr>)"
            using more rs r Some False f True by (subst textLoop.simps) (simp add: Let_def)
          have "frameMatch (textLoop h n (payload @ ?p) (c\<lparr>br := b, readUTF8 := u\<rparr>)) (textSpec h n (payload @ ?p) (c\<lparr>br := b, readUTF8 := u\<rparr>) (stream b))"
            using 1(2) [of x b got ?p _ ok u] more rs r Some False f True okb oku s(2) p by simp
          moreover obtain q c2 c3 rest where "textSpec h n payload c (stream (br c)) = (q, c2, rest)"
              "textSpec h n (payload @ ?p) (c\<lparr>br := b, readUTF8 := u\<rparr>) (stream b) = (q, c3, rest)" "sameButReader c3 c2" "isl q \<or> c3 = c2\<lparr>br := b\<rparr>"
            using step True by auto
          ultimately show ?thesis using loop sameButReader_trans by (auto simp: frameMatch_def)
        next
          case bad: False
          have "textLoop h n payload c = (Inl ErrInvalidUTF8, writeCloseProtocol CloseInvalidPayload (str ''invalid UTF-8'') (c\<lparr>br := b, readUTF8 := u\<rparr>))"
            using more rs r Some False f bad by (subst textLoop.simps) (simp add: Let_def)
          then show ?thesis using step bad okb oku by (auto simp: frameMatch_def writeClose_reader writeClose_fields case_prod_unfold)
        qed
      qed
    qed
  qed
qed

lemma payloadSpec_reader: "payloadSpec h (c\<lparr>br := b\<rparr>) s = (case payloadSpec h c s of (r, c', t) \<Rightarrow> (r, c'\<lparr>br := b\<rparr>, t))"
proof -
  have "beginText h (c\<lparr>br := b\<rparr>) = (beginText h c)\<lparr>br := b\<rparr>" by (simp add: beginText_def)
  then show ?thesis by (simp add: payloadSpec_def Let_def textSpec_reader)
qed

lemma readPayload_spec:
  assumes ok: "bufOk (br c)" "utf8Ok (readUTF8 c)"
  shows "frameMatch (readPayload h c) (payloadSpec h c (stream (br c)))"
proof (cases "streamValidate c h")
  case True
  have "br (beginText h c) = br c" "utf8Ok (readUTF8 (beginText h c))" using ok(2) by (simp_all add: beginText_def)
  then show ?thesis using textLoop_spec [of "beginText h c" "[]" "nat (h_Length h)" h] ok True
    by (simp add: readPayload_def payloadSpec_def Let_def)
next
  case False
  let ?n = "nat (h_Length h)"
  obtain x b where r: "bufReadFull ?n (br c) = (x, b)" by fastforce
  have "x = fst (readFull ?n (stream (br c)))" "stream b = snd (readFull ?n (stream (br c)))" "bufOk b"
    using bufio.full [of ?n] ok(1) r unfolding sameReading_def by (metis fst_conv snd_conv)+
  then show ?thesis using False r ok(2)
    by (auto simp: readPayload_def payloadSpec_def Let_def frameMatch_def readFull_def maskBytes_xor split: if_splits)
qed

lemma bigEndian_nonneg: "0 \<le> bigEndian bs"
  by (induction bs rule: rev_induct) (simp_all add: bigEndian_def)

lemma readLength_nonneg: "readLength rf b1 h r = (Inr h', r') \<Longrightarrow> 0 \<le> h_Length h'"
  by (auto simp: readLength_def Let_def reading_defs bigEndian_nonneg split: if_splits prod.splits sum.splits)

lemma header_nonneg:
  assumes "readFrameHeader rf h r = (Inr h', r')"
  shows "0 \<le> h_Length h'"
proof -
  obtain k r1 where k: "bindRead (readLength rf (k ! 1) (firstTwo (k ! 0) (k ! 1) h)) (readMask rf) r1 = (Inr h', r')"
    using bindRead_Inr [OF assms [unfolded readFrameHeader_def]] by blast
  obtain h2 r2 where "readLength rf (k ! 1) (firstTwo (k ! 0) (k ! 1) h) r1 = (Inr h2, r2)" "readMask rf h2 r2 = (Inr h', r')"
    using bindRead_Inr [OF k] by blast
  then show ?thesis using readLength_nonneg by (fastforce simp: readMask_def reading_defs split: if_splits prod.splits sum.splits)
qed

subsection \<open>The slow path\<close>

lemma frameMatch_error: "sameButReader c1 c2 \<Longrightarrow> bufOk (br c1) \<Longrightarrow> utf8Ok (readUTF8 c1) \<Longrightarrow> frameMatch (Inl e, c1) (Inl e, c2, r)"
  by (simp add: frameMatch_def)

lemma readFrameSlow_spec:
  assumes ok: "bufOk (br c)" "utf8Ok (readUTF8 c)"
  shows "frameMatch (readFrameSlow c) (frameSpec c (stream (br c)))"
proof -
  obtain x b where x: "readFrameHeader bufReadFull zeroHeader (br c) = (x, b)" by fastforce
  have spec: "readFrameHeader readFull zeroHeader (stream (br c)) = (x, stream b)" "bufOk b"
    using bufio.same_header [of zeroHeader] ok(1) x unfolding sameReading_def by (metis fst_conv snd_conv prod.collapse)+
  show ?thesis
  proof (cases x)
    case (Inl e)
    then show ?thesis using x spec ok by (simp add: readFrameSlow_def frameSpec_def frameMatch_error)
  next
    case (Inr h)
    have h: "0 \<le> h_Length h" using header_nonneg [OF x [unfolded Inr]] .
    show ?thesis
    proof (cases "refuseHeader c h")
      case (Some y)
      then show ?thesis using x spec Inr ok by (cases y) (simp add: readFrameSlow_def frameSpec_def frameMatch_error writeClose_reader writeClose_fields)
    next
      case None
      have "frameMatch (readPayload h (c\<lparr>br := b\<rparr>)) (payloadSpec h (c\<lparr>br := b\<rparr>) (stream b))"
        using readPayload_spec [of "c\<lparr>br := b\<rparr>" h] spec(2) ok(2) by simp
      then have "frameMatch (readPayload h (c\<lparr>br := b\<rparr>)) (payloadSpec h c (stream b))"
        by (simp add: payloadSpec_reader split: prod.splits)
      then show ?thesis using x spec Inr None
        by (auto simp: readFrameSlow_def frameSpec_def frameMatch_def split: prod.splits sum.splits)
    qed
  qed
qed

lemma frameSpec_reader: "frameSpec (c\<lparr>br := b\<rparr>) s = (case frameSpec c s of (r, c', t) \<Rightarrow> (r, c'\<lparr>br := b\<rparr>, t))"
  by (auto simp: frameSpec_def writeClose_reader payloadSpec_reader split: prod.splits sum.splits option.splits)

subsection \<open>The fast path\<close>

lemma header_short:
  assumes s: "s = b0 # b1 # r" and len: "unat (b1 AND 0x7F) < 126" and m: "b1 AND 0x80 \<noteq> 0 \<longrightarrow> 4 \<le> length r"
  shows "readFrameHeader readFull zeroHeader s =
    (let h = firstTwo b0 b1 zeroHeader in
     (Inr (h\<lparr>h_Mask := (if h_Masked h then take 4 r else h_Mask h), h_Length := int (unat (b1 AND 0x7F))\<rparr>),
      if h_Masked h then drop 4 r else r))"
proof -
  have "int (unat (b1 AND 0x7F)) < int 126" using len by (simp only: of_nat_less_iff)
  then have u: "uint (b1 AND 0x7F) < 126" by simp
  have two: "readFull 2 s = (Inr [b0, b1], r)" using readFull_exact [of "[b0, b1]" 2 r] s by simp
  have hm: "h_Masked (firstTwo b0 b1 zeroHeader) \<longleftrightarrow> b1 AND 0x80 \<noteq> 0" by (simp add: firstTwo_def)
  have four: "b1 AND 0x80 \<noteq> 0 \<Longrightarrow> readFull 4 r = (Inr (take 4 r), drop 4 r)" using m by (simp add: readFull_def)
  show ?thesis using two u hm four
    by (cases "b1 AND 0x80 \<noteq> 0") (simp_all add: readFrameHeader_def readLength_def readMask_def reading_defs Let_def)
qed

lemma peekedFrame_spec:
  assumes n: "unat (b1 AND 0x7F) = n" "n < 126" and tot: "tot = 2 + (if h_Masked h then 4 else 0) + n"
    and h: "h = firstTwo b0 b1 zeroHeader"
    and s: "stream (br c) = b0 # b1 # r" "tot \<le> length (b0 # b1 # r)" "tot \<le> length (rbuf (br c))" "bufOk (br c)" "utf8Ok (readUTF8 c)"
    and nostream: "\<not> (opcodeText c h \<and> \<not> h_RSV1 h \<and> \<not> readCompressed c)"
  shows "frameMatch (peekedFrame h n tot (take tot (b0 # b1 # r)) c) (frameSpec c (b0 # b1 # r))"
proof -
  have hm: "h_Masked h \<longleftrightarrow> b1 AND 0x80 \<noteq> 0" by (simp add: h firstTwo_def)
  have four: "b1 AND 0x80 \<noteq> 0 \<longrightarrow> 4 \<le> length r" using s(2) tot hm by auto
  let ?h = "h\<lparr>h_Mask := (if h_Masked h then take 4 r else h_Mask h), h_Length := int n\<rparr>"
  let ?r = "if h_Masked h then drop 4 r else r"
  have hd: "readFrameHeader readFull zeroHeader (b0 # b1 # r) = (Inr ?h, ?r)"
    using header_short [OF refl, of b1 r b0] n four h by (simp add: Let_def)
  have mk: "(if h_Masked h then take 4 (drop 2 (take tot (b0 # b1 # r))) else h_Mask h) = (if h_Masked h then take 4 r else h_Mask h)"
    using tot by (simp add: take_Cons')
  have len: "n \<le> length ?r" "drop n ?r = drop tot (b0 # b1 # r)" using s(2) tot by (auto simp: numeral_2_eq_2 numeral_eq_Suc add.commute)
  have pay: "take n (drop (if h_Masked h then 6 else 2) (take tot (b0 # b1 # r))) = take n ?r"
    using tot by (auto simp: drop_take numeral_eq_Suc)
  have nos: "\<not> streamValidate c ?h" using nostream by (auto simp: streamValidate_def opcodeText_def)
  have pk: "peekedFrame h n tot (take tot (b0 # b1 # r)) c =
    (case refuseHeader c ?h of
       Some (code, reason, e) \<Rightarrow> (Inl e, writeCloseProtocol code reason (c\<lparr>br := bufDiscard tot (br c)\<rparr>))
     | None \<Rightarrow> (Inr (?h, xorMask 0 (h_Mask ?h) (take n ?r)), c\<lparr>br := bufDiscard tot (br c)\<rparr>))"
    unfolding peekedFrame_def Let_def pay mk maskBytes_xor by (rule refl)
  show ?thesis
  proof (cases "refuseHeader c ?h")
    case (Some y)
    then show ?thesis unfolding pk frameSpec_def hd using bufDiscard_stream [OF s(3)] s(4,5) by (cases y) (simp add: writeClose_reader writeClose_fields frameMatch_error)
  next
    case None
    have "payloadSpec ?h c ?r = (Inr (xorMask 0 (h_Mask ?h) (take n ?r)), c, drop n ?r)"
      using nos len(1) by (simp add: payloadSpec_def)
    then show ?thesis unfolding pk frameSpec_def hd using None bufDiscard_stream [OF s(3)] s(1,4,5) len(2)
      by (simp add: frameMatch_def)
  qed
qed

lemma readFrameFast_spec:
  assumes ok: "bufOk (br c)" "utf8Ok (readUTF8 c)"
  shows "frameMatch (readFrameFast c) (frameSpec c (stream (br c)))"
proof -
  have slow: "frameMatch (readFrameSlow (c\<lparr>br := b\<rparr>)) (frameSpec c (stream (br c)))"
    if "stream b = stream (br c)" "bufOk b" for b
    using readFrameSlow_spec [of "c\<lparr>br := b\<rparr>"] that ok(2) frameSpec_reader [of b c] by (simp split: prod.splits)
  obtain x b where p: "bufPeek 2 (br c) = (x, b)" by fastforce
  note b = bufPeek_stream(2-4) [OF p]
  show ?thesis
  proof (cases x)
    case None
    then show ?thesis using p slow [of b] b ok(1) by (simp add: readFrameFast_def)
  next
    case (Some hdr)
    then have "2 \<le> length (stream (br c))" "hdr = take 2 (stream (br c))" using bufPeek_stream(1) [OF p] by (auto split: if_splits)
    then obtain b0 b1 r where s: "stream (br c) = b0 # b1 # r" and hdr: "hdr = [b0, b1]"
      by (cases "stream (br c)"; cases "tl (stream (br c))") (auto simp: numeral_2_eq_2)
    let ?h = "firstTwo b0 b1 zeroHeader" and ?n = "unat (b1 AND 0x7F)"
    let ?total = "frameSize ?h ?n"
    obtain y b2 where q: "bufPeek ?total b = (y, b2)" by fastforce
    note b2 = bufPeek_stream(2-4) [OF q]
    let ?txt = "opcodeText c ?h \<and> \<not> h_RSV1 ?h \<and> \<not> readCompressed c"
    have ot: "opcodeText (c\<lparr>br := b\<rparr>) ?h \<longleftrightarrow> opcodeText c ?h" by (simp add: opcodeText_def)
    have hs: "[b0, b1] ! 0 = b0" "[b0, b1] ! 1 = b1" by simp_all
    have fast: "readFrameFast c = (if ?txt then readFrameSlow (c\<lparr>br := b\<rparr>)
      else if ?n < 126 \<and> ?total \<le> 4096 then
        (case y of Some buf \<Rightarrow> peekedFrame ?h ?n ?total buf (c\<lparr>br := b2\<rparr>) | None \<Rightarrow> readFrameSlow (c\<lparr>br := b2\<rparr>))
      else readFrameSlow (c\<lparr>br := b\<rparr>))"
      unfolding readFrameFast_def p Some hdr prod.case option.case Let_def hs q ot by (cases y) simp_all
    show ?thesis
    proof (cases "\<not> ?txt \<and> ?n < 126 \<and> ?total \<le> 4096 \<and> y \<noteq> None")
      case False
      then show ?thesis using fast slow [of b] slow [of b2] b b2 ok(1) by (auto split: if_splits)
    next
      case True
      then obtain buf where y: "y = Some buf" by auto
      have ft: "readFrameFast c = peekedFrame ?h ?n ?total buf (c\<lparr>br := b2\<rparr>)" using fast True y by simp
      have tot: "?total = 2 + (if h_Masked ?h then 4 else 0) + ?n" using True by (simp add: frameSize_def)
      have buf: "buf = take ?total (b0 # b1 # r)" "?total \<le> length (b0 # b1 # r)" "?total \<le> length (rbuf b2)"
        using bufPeek_stream(1,5) [OF q] y b(1) s by (auto split: if_splits)
      have b2': "stream (br (c\<lparr>br := b2\<rparr>)) = b0 # b1 # r" "bufOk (br (c\<lparr>br := b2\<rparr>))" "?total \<le> length (rbuf (br (c\<lparr>br := b2\<rparr>)))"
        "utf8Ok (readUTF8 (c\<lparr>br := b2\<rparr>))" using b b2 s ok buf(3) by auto
      have n: "?n < 126" "\<not> (opcodeText (c\<lparr>br := b2\<rparr>) ?h \<and> \<not> h_RSV1 ?h \<and> \<not> readCompressed (c\<lparr>br := b2\<rparr>))"
        using True by (auto simp: opcodeText_def)
      have "frameMatch (peekedFrame ?h ?n ?total buf (c\<lparr>br := b2\<rparr>)) (frameSpec (c\<lparr>br := b2\<rparr>) (b0 # b1 # r))"
        unfolding buf(1) by (rule peekedFrame_spec [OF refl n(1) tot refl b2'(1) buf(2) b2'(3,2,4) n(2)])
      then show ?thesis unfolding ft s frameSpec_reader by (simp split: prod.splits)
    qed
  qed
qed

end
