(* ===== verification/WS_Message.thy ===== *)
theory WS_Message
  imports WS_Read
begin

unbundle bit_operations_syntax

text \<open>
  Messages on a WebSocket connection: what \<^verbatim>\<open>ReadMessageReuse\<close> returns for the bytes a client sends,
  in any segmentation.
\<close>

section \<open>Handlers\<close>

text \<open>
  A handler may write. The laws: it leaves the reading side alone, and what it does does not depend on
  what is still to be read.
\<close>

definition readSide :: "wsConn \<Rightarrow> wsConn" where
  "readSide c = c\<lparr>fragWriting := False, closeSent := False, closeRecv := False, closed := False,
     writeErr := None, bwErr := None, out := []\<rparr>"

definition quiet :: "(wsConn \<Rightarrow> ws_error option \<times> wsConn) \<Rightarrow> bool" where
  "quiet f \<longleftrightarrow> (\<forall>c. readSide (snd (f c)) = readSide c) \<and> (\<forall>c b. f (c\<lparr>br := b\<rparr>) = (case f c of (e, c') \<Rightarrow> (e, c'\<lparr>br := b\<rparr>)))"

definition quietHandlers :: "handlers \<Rightarrow> bool" where
  "quietHandlers hs \<longleftrightarrow>
     (\<forall>f data. pingHandler hs = Some f \<longrightarrow> quiet (f data)) \<and> (\<forall>f data. pongHandler hs = Some f \<longrightarrow> quiet (f data))
     \<and> (\<forall>f code reason. closeHandler hs = Some f \<longrightarrow> quiet (f code reason))"

lemma readSide_fields:
  assumes "readSide c = readSide c'"
  shows "br c = br c'" "readLimit c = readLimit c'" "readFrag c = readFrag c'" "readFragBuf c = readFragBuf c'"
    "readCompressed c = readCompressed c'" "readUTF8 c = readUTF8 c'" "compressEnabled c = compressEnabled c'"
  using assms by (cases c; cases c'; simp add: readSide_def)+

lemma quiet_flush: "quiet (\<lambda>c. flushWrite c p)"
  by (auto simp: quiet_def flushWrite_reader flushWrite_def engineWrite_def readSide_def split: option.splits)

lemma quiet_pong: "quiet (writePong data)"
  using quiet_flush [of "writeFrame True OpPong data"] by (auto simp: quiet_def writePong_def split: prod.splits)

lemma quiet_close: "quiet (connWriteCloseFrame code reason)"
proof -
  have "readSide (c\<lparr>closeSent := True\<rparr>) = readSide c" "c\<lparr>br := b, closeSent := True\<rparr> = c\<lparr>closeSent := True, br := b\<rparr>" for c b
    by (simp_all add: readSide_def)
  then show ?thesis using quiet_flush [of "writeCloseFrame code reason"] unfolding quiet_def connWriteCloseFrame_def by metis
qed

lemma quiet_default: "quietHandlers defaultHandlers"
  using quiet_pong by (simp add: quietHandlers_def defaultHandlers_def defaultPingHandler_def [abs_def])

lemma quiet_recv: "quiet f \<Longrightarrow> quiet (\<lambda>c. f (c\<lparr>closeRecv := True\<rparr>))"
proof -
  have "readSide (c\<lparr>closeRecv := True\<rparr>) = readSide c" "c\<lparr>br := b, closeRecv := True\<rparr> = c\<lparr>closeRecv := True, br := b\<rparr>" for c b
    by (simp_all add: readSide_def)
  then show "quiet f \<Longrightarrow> ?thesis" unfolding quiet_def by metis
qed

lemma quiet_closeFrame:
  assumes "quietHandlers hs"
  shows "quiet (handleCloseFrame hs payload)"
proof -
  obtain code reason where cr: "(case parseClosePayload payload of Inl e \<Rightarrow> (CloseProtocolError, errText e) | Inr (code, reason) \<Rightarrow> (code, reason)) = (code, reason)"
    by fastforce
  show ?thesis
  proof (cases "closeHandler hs")
    case (Some f)
    then have eq: "handleCloseFrame hs payload = (\<lambda>c. f code reason (c\<lparr>closeRecv := True\<rparr>))"
      unfolding handleCloseFrame_def cr by (simp add: Let_def)
    show ?thesis unfolding eq by (rule quiet_recv) (use Some assms in \<open>simp add: quietHandlers_def\<close>)
  next
    case None
    define w where "w = (if payload = [] then connWriteCloseFrame 0 [] else connWriteCloseFrame code reason)"
    let ?g = "\<lambda>c. (Some (CloseError code reason), if closeSent c then c else snd (w c))"
    have "quiet w" using quiet_close by (simp add: w_def)
    then have g: "quiet ?g" by (simp add: quiet_def case_prod_unfold)
    have eq: "handleCloseFrame hs payload = (\<lambda>c. ?g (c\<lparr>closeRecv := True\<rparr>))"
      using None unfolding handleCloseFrame_def cr by (auto simp: w_def Let_def fun_eq_iff)
    show ?thesis unfolding eq by (rule quiet_recv [OF g])
  qed
qed

lemma quiet_control: "quietHandlers hs \<Longrightarrow> quiet (handleControl hs opcode payload)"
  using quiet_closeFrame quiet_pong
  by (auto simp: handleControl_def [abs_def] quietHandlers_def quiet_def split: option.splits)

section \<open>Well-formed connections\<close>

definition connOk :: "wsConn \<Rightarrow> bool" where
  "connOk c \<longleftrightarrow> bufOk (br c) \<and> utf8Ok (readUTF8 c) \<and> readFrag c \<in> {0, OpText, OpBinary}
     \<and> (readFrag c \<noteq> 0 \<longrightarrow> int (length (readFragBuf c)) \<le> readLimit c)"

lemma connOk_reader: "connOk (c\<lparr>br := b\<rparr>) \<longleftrightarrow> bufOk b \<and> (bufOk (br c) \<longrightarrow> connOk c) \<and> utf8Ok (readUTF8 c) \<and> readFrag c \<in> {0, OpText, OpBinary}
     \<and> (readFrag c \<noteq> 0 \<longrightarrow> int (length (readFragBuf c)) \<le> readLimit c)"
  by (auto simp: connOk_def)

lemma connOk_readSide: "readSide c = readSide c' \<Longrightarrow> connOk c = connOk c'"
  using readSide_fields [of c c'] by (simp add: connOk_def)

lemma header_consumes:
  assumes "readFrameHeader readFull h s = (Inr h', r)"
  shows "length r + 2 \<le> length s"
proof -
  obtain k r1 where k: "readFull 2 s = (Inr k, r1)" "bindRead (readLength readFull (k ! 1) (firstTwo (k ! 0) (k ! 1) h)) (readMask readFull) r1 = (Inr h', r)"
    using bindRead_Inr [OF assms [unfolded readFrameHeader_def]] by blast
  have "stableRead (bindRead (readLength readFull (k ! 1) (firstTwo (k ! 0) (k ! 1) h)) (readMask readFull))"
    by (intro stable_bind stable_readLength stable_readMask)
  then have "suffix r r1" using k(2) by (rule stableReadD(1))
  then have "length r \<le> length r1" by (rule suffix_length_le)
  moreover have "length r1 + 2 = length s" using k(1) by (auto simp: readFull_def split: if_splits)
  ultimately show ?thesis by simp
qed

lemma utf8Feed_snd: "utf8Feed u d f = (ok, u') \<Longrightarrow> utf8Ok u'"
  using utf8Feed_ok [of u d f] by simp

lemma textSpec_frame:
  assumes "textSpec h n [] c s = (Inr p, c', r)"
  shows "length p = n" "n \<le> length s" "r = drop n s" "p = xorMask 0 (h_Mask h) (take n s)" "c' = c\<lparr>readUTF8 := readUTF8 c'\<rparr>"
    "utf8Ok (readUTF8 c) \<Longrightarrow> utf8Ok (readUTF8 c')"
    "n \<noteq> 0 \<Longrightarrow> utf8Feed (readUTF8 c) p (h_Fin h) = (True, readUTF8 c')" "n = 0 \<Longrightarrow> c' = c"
  using assms utf8Feed_snd by (auto simp: textSpec_def Let_def split: if_splits prod.splits)

lemma frameSpec_frame:
  assumes f: "frameSpec c s = (Inr (h, p), c', r)" and ok: "utf8Ok (readUTF8 c)"
  shows "refuseHeader c h = None" "int (length p) = h_Length h" "length r + 2 \<le> length s"
    "c' = c\<lparr>readUTF8 := readUTF8 c'\<rparr>" "utf8Ok (readUTF8 c')"
proof -
  obtain r0 where h: "readFrameHeader readFull zeroHeader s = (Inr h, r0)" "refuseHeader c h = None" "payloadSpec h c r0 = (Inr p, c', r)"
    using f by (auto simp: frameSpec_def split: prod.splits sum.splits option.splits)
  show "refuseHeader c h = None" by (rule h(2))
  have bt: "beginText h c = c\<lparr>readUTF8 := readUTF8 (beginText h c)\<rparr>" "utf8Ok (readUTF8 (beginText h c))"
    using ok by (simp_all add: beginText_def)
  have nn: "0 \<le> h_Length h" by (rule header_nonneg [OF h(1)])
  have "length p = nat (h_Length h) \<and> nat (h_Length h) \<le> length r0 \<and> r = drop (nat (h_Length h)) r0
      \<and> c' = c\<lparr>readUTF8 := readUTF8 c'\<rparr> \<and> utf8Ok (readUTF8 c')"
  proof (cases "streamValidate c h")
    case True
    then have t: "textSpec h (nat (h_Length h)) [] (beginText h c) r0 = (Inr p, c', r)" using h(3) by (simp add: payloadSpec_def Let_def)
    have "c' = (beginText h c)\<lparr>readUTF8 := readUTF8 c'\<rparr>" using textSpec_frame(5) [OF t] .
    also have "\<dots> = c\<lparr>readUTF8 := readUTF8 c'\<rparr>" by (subst bt(1)) simp
    finally show ?thesis using textSpec_frame [OF t] bt(2) by blast
  next
    case False
    then show ?thesis using h(3) ok by (auto simp: payloadSpec_def Let_def split: if_splits)
  qed
  then show "int (length p) = h_Length h" "length r + 2 \<le> length s" "c' = c\<lparr>readUTF8 := readUTF8 c'\<rparr>" "utf8Ok (readUTF8 c')"
    using nn header_consumes [OF h(1)] by auto
qed

section \<open>Data frames\<close>

lemma writeClose_readSide [simp]: "readSide (writeCloseProtocol code reason c) = readSide c"
  using quiet_close [of code reason] by (simp add: quiet_def writeCloseProtocol_def)

lemma writeClose_read_fields [simp]:
  "readLimit (writeCloseProtocol code reason c) = readLimit c" "readFrag (writeCloseProtocol code reason c) = readFrag c"
  "readFragBuf (writeCloseProtocol code reason c) = readFragBuf c" "readCompressed (writeCloseProtocol code reason c) = readCompressed c"
  "compressEnabled (writeCloseProtocol code reason c) = compressEnabled c"
  using readSide_fields [OF writeClose_readSide [of code reason c]] by simp_all

lemma finishMessage_reader:
  "finishMessage inflate opcode m (c\<lparr>br := b\<rparr>) = (case finishMessage inflate opcode m c of (r, c') \<Rightarrow> (r, c'\<lparr>br := b\<rparr>))"
  by (auto simp: finishMessage_def writeClose_reader split: sum.splits)

lemma dataFrame_reader:
  "dataFrame inflate h p (c\<lparr>br := b\<rparr>) = (case dataFrame inflate h p c of (r, c') \<Rightarrow> (r, c'\<lparr>br := b\<rparr>))"
proof -
  have e: "c\<lparr>br := b, readCompressed := z\<rparr> = c\<lparr>readCompressed := z, br := b\<rparr>"
    "c\<lparr>br := b, readFragBuf := y, readFrag := x, readFragBuf := []\<rparr> = c\<lparr>readFragBuf := y, readFrag := x, readFragBuf := [], br := b\<rparr>" for z y x
    by simp_all
  show ?thesis
    by (simp add: dataFrame_def Let_def writeClose_reader e finishMessage_reader split: prod.splits)
qed

lemma finishMessage_result:
  assumes "finishMessage inflate opcode m c = (r, c')"
  shows "readSide c' = readSide c" "r = Inr (opc, d) \<Longrightarrow> opc = opcode \<and> c' = c \<and> (readCompressed c \<or> d = m)
      \<and> (int (length m) \<le> readLimit c \<longrightarrow> int (length d) \<le> readLimit c)"
  using assms by (auto simp: finishMessage_def decompressMessage_def split: if_splits sum.splits prod.splits)

lemma accepted_data:
  assumes "refuseHeader c h = None" "\<not> IsControl (h_Opcode h)"
  shows "h_Opcode h \<in> {OpContinuation, OpText, OpBinary}" "h_Length h \<le> readLimit c" "h_Masked h" "h_RSV1 h \<Longrightarrow> compressEnabled c"
  using assms by (auto simp: refuseHeader_def validateFrameHeader_def IsControl_def opcode_defs split: option.splits if_splits)

lemma dataFrame_result:
  assumes ok: "connOk c" and h: "refuseHeader c h = None" "\<not> IsControl (h_Opcode h)" "int (length p) = h_Length h"
    and d: "dataFrame inflate h p c = (x, c')"
  shows "connOk c'" "br c' = br c" "readLimit c' = readLimit c" "readUTF8 c' = readUTF8 c" "compressEnabled c' = compressEnabled c"
    "x = Some (Inr (opc, msg)) \<Longrightarrow> opc \<in> {OpText, OpBinary} \<and> int (length msg) \<le> readLimit c \<and> readFrag c' = 0"
proof -
  note a = accepted_data [OF h(1,2)]
  have fm: "readSide (snd (finishMessage inflate opcode m c1)) = readSide c1" for opcode m c1
    using finishMessage_result(1) [of inflate opcode m c1] by (metis prod.collapse)
  note fields = readSide_fields [OF fm]
  have cok: "connOk (snd (finishMessage inflate opcode m c1)) = connOk c1" for opcode m c1 using fm connOk_readSide by blast
  show "br c' = br c" "readLimit c' = readLimit c" "readUTF8 c' = readUTF8 c" "compressEnabled c' = compressEnabled c"
    using d by (auto simp: dataFrame_def Let_def case_prod_unfold fields split: if_splits)
  show "connOk c'" using d ok a(1,2) h(3)
    by (auto simp: dataFrame_def Let_def case_prod_unfold cok connOk_readSide [OF writeClose_readSide] opcode_defs
        split: if_splits) (auto simp: connOk_def opcode_defs)
  assume x: "x = Some (Inr (opc, msg))"
  show "opc \<in> {OpText, OpBinary} \<and> int (length msg) \<le> readLimit c \<and> readFrag c' = 0"
  proof (cases "h_Opcode h = OpContinuation")
    case False
    then have f: "finishMessage inflate (h_Opcode h) p (c\<lparr>readCompressed := h_RSV1 h\<rparr>) = (Inr (opc, msg), c')" "readFrag c = 0"
      using d x by (auto simp: dataFrame_def Let_def split: if_splits prod.splits)
    show ?thesis using finishMessage_result(2) [OF f(1) refl] False a(1,2) h(3) f(2) by auto
  next
    case True
    then have f: "finishMessage inflate (readFrag c) (readFragBuf c @ p) (c\<lparr>readFragBuf := readFragBuf c @ p, readFrag := 0, readFragBuf := []\<rparr>) = (Inr (opc, msg), c')"
        "readFrag c \<noteq> 0" "int (length (readFragBuf c @ p)) \<le> readLimit c"
      using d x by (auto simp: dataFrame_def Let_def split: if_splits prod.splits)
    show ?thesis using finishMessage_result(2) [OF f(1) refl] f(2,3) ok by (auto simp: connOk_def)
  qed
qed

section \<open>The loop\<close>

lemma frameSpec_error:
  assumes "frameSpec c s = (Inl e, c', r)"
  shows "readSide (c'\<lparr>readUTF8 := u\<rparr>) = readSide (c\<lparr>readUTF8 := u\<rparr>)"
proof -
  have w: "readSide (writeCloseProtocol code reason c0\<lparr>readUTF8 := u\<rparr>) = readSide (c0\<lparr>readUTF8 := u\<rparr>)" for code reason c0
    using writeClose_readSide [of code reason "c0\<lparr>readUTF8 := u\<rparr>"] by (simp add: writeClose_reader)
  show ?thesis using assms
    by (auto simp: frameSpec_def payloadSpec_def textSpec_def beginText_def Let_def w split: prod.splits sum.splits option.splits if_splits)
qed

lemma sameButReader_sym: "sameButReader a b \<Longrightarrow> sameButReader b a"
  by (cases a; cases b) (auto simp: sameButReader_def)

lemma sameButReader_ok:
  assumes "sameButReader c1 c'" "readSide (c'\<lparr>readUTF8 := u\<rparr>) = readSide (c\<lparr>readUTF8 := u\<rparr>)" "bufOk (br c1)" "utf8Ok (readUTF8 c1)"
    "connOk (c\<lparr>br := b\<rparr>)"
  shows "connOk c1 \<and> readLimit c1 = readLimit c"
proof -
  have "readLimit c1 = readLimit c'" "readFrag c1 = readFrag c'" "readFragBuf c1 = readFragBuf c'"
    using assms(1) by (cases c1; cases c'; simp add: sameButReader_def)+
  then show ?thesis using readSide_fields [OF assms(2)] assms(3-5) by (simp add: connOk_def)
qed

text \<open>
  What one call returns: the same for two readers of the same stream, and the connection stays
  well-formed.
\<close>

definition readAgree :: "wsConn \<Rightarrow> ((ws_error + byte \<times> byte list) \<times> wsConn) option \<Rightarrow> ((ws_error + byte \<times> byte list) \<times> wsConn) option \<Rightarrow> bool" where
  "readAgree c x y \<longleftrightarrow> (\<exists>r c1 c2. x = Some (r, c1) \<and> y = Some (r, c2) \<and> sameButReader c1 c2
     \<and> (isl r \<or> c1 = c2\<lparr>br := br c1\<rparr> \<and> stream (br c1) = stream (br c2))
     \<and> connOk c1 \<and> connOk c2 \<and> readLimit c1 = readLimit c
     \<and> (\<forall>opcode m. r = Inr (opcode, m) \<longrightarrow> opcode \<in> {OpText, OpBinary} \<and> int (length m) \<le> readLimit c \<and> readFrag c1 = 0))"

lemma frame_step:
  assumes "connOk (c\<lparr>br := b\<rparr>)" "frameSpec c (stream b) = (Inr (h, p), c', r)"
  shows "\<exists>b'. bufOk b' \<and> stream b' = r \<and> readFrameFast (c\<lparr>br := b\<rparr>) = (Inr (h, p), c'\<lparr>br := b'\<rparr>)"
proof -
  have "frameMatch (readFrameFast (c\<lparr>br := b\<rparr>)) (Inr (h, p), c', r)"
    using readFrameFast_spec [of "c\<lparr>br := b\<rparr>"] assms by (simp add: connOk_def frameSpec_reader)
  then obtain c1 where c1: "readFrameFast (c\<lparr>br := b\<rparr>) = (Inr (h, p), c1)" "c1 = c'\<lparr>br := br c1\<rparr>" "bufOk (br c1)" "stream (br c1) = r"
    by (cases "readFrameFast (c\<lparr>br := b\<rparr>)") (auto simp: frameMatch_def)
  then show ?thesis by metis
qed

lemma frame_error:
  assumes "connOk (c\<lparr>br := b\<rparr>)" "frameSpec c (stream b) = (Inl e, c', r)"
  shows "\<exists>c1. ReadMessageReuse hs inflate (c\<lparr>br := b\<rparr>) = Some (Inl e, c1) \<and> sameButReader c1 c' \<and> connOk c1 \<and> readLimit c1 = readLimit c"
proof -
  have "frameMatch (readFrameFast (c\<lparr>br := b\<rparr>)) (Inl e, c', r)"
    using readFrameFast_spec [of "c\<lparr>br := b\<rparr>"] assms by (simp add: connOk_def frameSpec_reader)
  then obtain c1 where c1: "readFrameFast (c\<lparr>br := b\<rparr>) = (Inl e, c1)" "sameButReader c1 c'" "bufOk (br c1)" "utf8Ok (readUTF8 c1)"
    by (cases "readFrameFast (c\<lparr>br := b\<rparr>)") (auto simp: frameMatch_def)
  then have "ReadMessageReuse hs inflate (c\<lparr>br := b\<rparr>) = Some (Inl e, c1)" by (subst ReadMessageReuse.simps) simp
  then show ?thesis using sameButReader_ok [OF c1(2) frameSpec_error [OF assms(2)] c1(3,4) assms(1)] c1(2) by blast
qed

lemma refuseHeader_utf8: "refuseHeader (c\<lparr>readUTF8 := u\<rparr>) h = refuseHeader c h"
  by (simp add: refuseHeader_def)

lemma connOk_swap: "connOk (c\<lparr>br := b\<rparr>) \<Longrightarrow> bufOk b' \<Longrightarrow> connOk (c\<lparr>br := b'\<rparr>)"
  by (simp add: connOk_def)

lemma connOk_utf8: "connOk (c\<lparr>br := b\<rparr>) \<Longrightarrow> utf8Ok u \<Longrightarrow> connOk (c\<lparr>readUTF8 := u, br := b\<rparr>)"
  by (simp add: connOk_def)

lemma connOk_quiet:
  assumes "quiet f" "f c = (e, c')" "connOk (c\<lparr>br := b\<rparr>)"
  shows "connOk (c'\<lparr>br := b\<rparr>)" "readLimit c' = readLimit c"
proof -
  have "readSide c' = readSide c" using assms(1,2) unfolding quiet_def by (metis snd_conv)
  from readSide_fields [OF this] show "connOk (c'\<lparr>br := b\<rparr>)" "readLimit c' = readLimit c" using assms(3) by (simp_all add: connOk_def)
qed

lemma read_agree:
  assumes q: "quietHandlers hs"
  shows "connOk (c\<lparr>br := b1\<rparr>) \<Longrightarrow> bufOk b2 \<Longrightarrow> stream b2 = stream b1
    \<Longrightarrow> readAgree c (ReadMessageReuse hs inflate (c\<lparr>br := b1\<rparr>)) (ReadMessageReuse hs inflate (c\<lparr>br := b2\<rparr>))"
proof (induction "length (stream b1)" arbitrary: c b1 b2 rule: less_induct)
  case less
  have ok2: "connOk (c\<lparr>br := b2\<rparr>)" using connOk_swap less.prems by blast
  have u8: "utf8Ok (readUTF8 c)" using less.prems(1) by (simp add: connOk_def)
  obtain x c' r where spec: "frameSpec c (stream b1) = (x, c', r)" by (cases "frameSpec c (stream b1)") auto
  then have spec2: "frameSpec c (stream b2) = (x, c', r)" using less.prems(3) by simp
  show ?case
  proof (cases x)
    case (Inl e)
    obtain c1 where c1: "ReadMessageReuse hs inflate (c\<lparr>br := b1\<rparr>) = Some (Inl e, c1)" "sameButReader c1 c'" "connOk c1" "readLimit c1 = readLimit c"
      using frame_error [OF less.prems(1) spec [unfolded Inl]] by blast
    obtain c2 where c2: "ReadMessageReuse hs inflate (c\<lparr>br := b2\<rparr>) = Some (Inl e, c2)" "sameButReader c2 c'" "connOk c2"
      using frame_error [OF ok2 spec2 [unfolded Inl]] by blast
    have "sameButReader c1 c2" using sameButReader_trans [OF c1(2) sameButReader_sym [OF c2(2)]] .
    then show ?thesis using c1 c2 by (simp add: readAgree_def)
  next
    case (Inr hp)
    obtain h p where hp: "hp = (h, p)" by (cases hp)
    note fr = frameSpec_frame [OF spec [unfolded Inr hp] u8]
    obtain b1' where b1': "bufOk b1'" "stream b1' = r" "readFrameFast (c\<lparr>br := b1\<rparr>) = (Inr (h, p), c'\<lparr>br := b1'\<rparr>)"
      using frame_step [OF less.prems(1)] spec Inr hp by blast
    obtain b2' where b2': "bufOk b2'" "stream b2' = r" "readFrameFast (c\<lparr>br := b2\<rparr>) = (Inr (h, p), c'\<lparr>br := b2'\<rparr>)"
      using frame_step [OF ok2] spec2 Inr hp by blast
    obtain u where c': "c' = c\<lparr>readUTF8 := u\<rparr>" "utf8Ok u" using fr(4,5) by blast
    have ok': "connOk (c'\<lparr>br := b\<rparr>)" if "bufOk b" for b
      using connOk_utf8 [OF connOk_swap [OF less.prems(1) that] c'(2)] c'(1) by simp
    have lim: "readLimit c' = readLimit c" by (simp add: c'(1))
    have smaller: "length (stream b1') < length (stream b1)" using b1'(2) fr(3) by simp
    show ?thesis
    proof (cases "IsControl (h_Opcode h)")
      case True
      have qc: "quiet (handleControl hs (h_Opcode h) p)" by (rule quiet_control [OF q])
      obtain e c'' where e: "handleControl hs (h_Opcode h) p c' = (e, c'')" by fastforce
      then have ei: "handleControl hs (h_Opcode h) p (c'\<lparr>br := b\<rparr>) = (e, c''\<lparr>br := b\<rparr>)" for b using qc by (simp add: quiet_def)
      have ok'': "connOk (c''\<lparr>br := b\<rparr>)" "readLimit c'' = readLimit c" if "bufOk b" for b
        using connOk_quiet [OF qc e ok' [OF that]] lim by simp_all
      have run: "ReadMessageReuse hs inflate (c\<lparr>br := b\<rparr>) = (case e of Some e \<Rightarrow> Some (Inl e, c''\<lparr>br := b'\<rparr>) | None \<Rightarrow> ReadMessageReuse hs inflate (c''\<lparr>br := b'\<rparr>))"
        if "readFrameFast (c\<lparr>br := b\<rparr>) = (Inr (h, p), c'\<lparr>br := b'\<rparr>)" for b b'
        using True that ei [of b'] by (subst ReadMessageReuse.simps) (simp split: option.splits)
      show ?thesis
      proof (cases e)
        case None
        have "readAgree c'' (ReadMessageReuse hs inflate (c''\<lparr>br := b1'\<rparr>)) (ReadMessageReuse hs inflate (c''\<lparr>br := b2'\<rparr>))"
          using less.hyps [OF smaller, of c'' b2'] ok''(1) b1' b2' by simp
        then show ?thesis using run [OF b1'(3)] run [OF b2'(3)] None ok''(2) [OF b1'(1)] by (simp add: readAgree_def)
      next
        case (Some er)
        then show ?thesis using run [OF b1'(3)] run [OF b2'(3)] ok'' b1'(1) b2'(1) by (simp add: readAgree_def)
      qed
    next
      case False
      obtain y c'' where y: "dataFrame inflate h p c' = (y, c'')" by fastforce
      then have yi: "dataFrame inflate h p (c'\<lparr>br := b\<rparr>) = (y, c''\<lparr>br := b\<rparr>)" for b by (simp add: dataFrame_reader)
      have ref: "refuseHeader (c'\<lparr>br := b\<rparr>) h = None" for b using fr(1) by (simp add: c'(1) refuseHeader_utf8)
      note res = dataFrame_result [OF ok' ref False fr(2) yi]
      have run: "ReadMessageReuse hs inflate (c\<lparr>br := b\<rparr>) = (case y of Some z \<Rightarrow> Some (z, c''\<lparr>br := b'\<rparr>) | None \<Rightarrow> ReadMessageReuse hs inflate (c''\<lparr>br := b'\<rparr>))"
        if "readFrameFast (c\<lparr>br := b\<rparr>) = (Inr (h, p), c'\<lparr>br := b'\<rparr>)" for b b'
        using False that yi [of b'] by (subst ReadMessageReuse.simps) (simp split: option.splits)
      show ?thesis
      proof (cases y)
        case None
        have "readAgree c'' (ReadMessageReuse hs inflate (c''\<lparr>br := b1'\<rparr>)) (ReadMessageReuse hs inflate (c''\<lparr>br := b2'\<rparr>))"
          using less.hyps [OF smaller, of c'' b2'] res(1) b1' b2' by simp
        then show ?thesis using run [OF b1'(3)] run [OF b2'(3)] None res(3) [OF b1'(1)] lim by (simp add: readAgree_def)
      next
        case (Some z)
        then show ?thesis using run [OF b1'(3)] run [OF b2'(3)] res(1,3,6) [OF b1'(1)] res(1) [OF b2'(1)] b1'(2) b2'(2) lim by (simp add: readAgree_def)
      qed
    qed
  qed
qed

end
