(* ===== verification/WS_Text.thy ===== *)
theory WS_Text
  imports WS_Message
begin

unbundle bit_operations_syntax

text \<open>
  What a call of \<^verbatim>\<open>ReadMessageReuse\<close> guarantees: the same result for every segmentation, a result for
  every stream, a well-formed connection, and UTF-8 in text messages.
\<close>

section \<open>What a call returns\<close>

text \<open>
  C29. Reading does not depend on how the bytes arrive. For two buffered readers, of any buffer sizes,
  over the same stream of bytes cut into any segments, one call returns the same message or the same
  error and has sent the same bytes; after a message the connections are equal up to the reader, and the
  same bytes are left to read. Handlers may write but do not touch the reading side.
\<close>

theorem read_any_segments:
  assumes "quietHandlers hs" "connOk (c\<lparr>br := b1\<rparr>)" "bufOk b2" "stream b2 = stream b1"
  shows "\<exists>r c1 c2. ReadMessageReuse hs inflate (c\<lparr>br := b1\<rparr>) = Some (r, c1) \<and> ReadMessageReuse hs inflate (c\<lparr>br := b2\<rparr>) = Some (r, c2)
    \<and> out c1 = out c2 \<and> closeSent c1 = closeSent c2 \<and> closeRecv c1 = closeRecv c2
    \<and> (isl r \<or> c1 = c2\<lparr>br := br c1\<rparr> \<and> stream (br c1) = stream (br c2))"
proof -
  obtain r c1 c2 where r: "ReadMessageReuse hs inflate (c\<lparr>br := b1\<rparr>) = Some (r, c1)" "ReadMessageReuse hs inflate (c\<lparr>br := b2\<rparr>) = Some (r, c2)"
      "sameButReader c1 c2" "isl r \<or> c1 = c2\<lparr>br := br c1\<rparr> \<and> stream (br c1) = stream (br c2)"
    using read_agree [OF assms, of inflate] by (auto simp: readAgree_def)
  moreover have "out c1 = out c2" "closeSent c1 = closeSent c2" "closeRecv c1 = closeRecv c2"
    using r(3) by (cases c1; cases c2; simp add: sameButReader_def)+
  ultimately show ?thesis by blast
qed

lemma fresh_ok: "bufOk b \<Longrightarrow> connOk (newEngineConn b)"
  by (simp add: connOk_def newEngineConn_def)

theorem read_any_segments_witness:
  "\<exists>r c1 c2. ReadMessageReuse defaultHandlers (\<lambda>d. ([], True)) (newEngineConn \<lparr>rbuf = [], rsize = 16, net = [[0x82], [0x81, 1, 2], [3, 4, 5]]\<rparr>) = Some (r, c1)
    \<and> ReadMessageReuse defaultHandlers (\<lambda>d. ([], True)) (newEngineConn \<lparr>rbuf = [0x82, 0x81], rsize = 4096, net = [[1, 2, 3, 4, 5]]\<rparr>) = Some (r, c2)
    \<and> out c1 = out c2"
  (is "\<exists>r c1 c2. ?read (newEngineConn ?b1) = _ \<and> ?read (newEngineConn ?b2) = _ \<and> _")
proof -
  have e: "(newEngineConn ?b1)\<lparr>br := b\<rparr> = newEngineConn b" for b by (simp add: newEngineConn_def)
  have ok: "bufOk ?b1" "bufOk ?b2" "stream ?b2 = stream ?b1" by (simp_all add: bufOk_def stream_def)
  have c: "connOk ((newEngineConn ?b1)\<lparr>br := ?b1\<rparr>)" unfolding e by (rule fresh_ok [OF ok(1)])
  show ?thesis using read_any_segments [OF quiet_default c ok(2,3)] unfolding e by blast
qed

lemma read_single:
  assumes "quietHandlers hs" "connOk c"
  shows "\<exists>r c'. ReadMessageReuse hs inflate c = Some (r, c') \<and> connOk c' \<and> readLimit c' = readLimit c
    \<and> (\<forall>opcode m. r = Inr (opcode, m) \<longrightarrow> opcode \<in> {OpText, OpBinary} \<and> int (length m) \<le> readLimit c \<and> readFrag c' = 0)"
proof -
  have e: "c\<lparr>br := br c\<rparr> = c" by simp
  have "bufOk (br c)" using assms(2) by (simp add: connOk_def)
  then have "readAgree c (ReadMessageReuse hs inflate c) (ReadMessageReuse hs inflate c)"
    using read_agree [OF assms(1), of "br c" c "br c" inflate] assms(2) unfolding e by simp
  then show ?thesis unfolding readAgree_def by blast
qed

text \<open>
  C33. A call returns: the loop over frames ends on every stream of bytes that ends.
\<close>

theorem read_terminates:
  assumes "quietHandlers hs" "connOk c"
  shows "\<exists>r c'. ReadMessageReuse hs inflate c = Some (r, c')"
  using read_single [OF assms] by blast

theorem read_terminates_witness:
  "\<exists>r c'. ReadMessageReuse defaultHandlers (\<lambda>d. ([], True)) (newEngineConn \<lparr>rbuf = [], rsize = 16, net = [[0x89, 0x80, 1], [2, 3, 4]]\<rparr>) = Some (r, c')"
  by (rule read_terminates [OF quiet_default]) (simp add: fresh_ok bufOk_def)

text \<open>
  C34. The state of a connection stays well-formed: after a call, with or without an error, the buffer is
  within its size, the validator holds only the start of a rune, and a message under assembly is a text
  or a binary message within the read limit. A message that is returned is a text or a binary message
  of at most the read limit, also after decompression.
\<close>

theorem read_keeps_connection:
  assumes "quietHandlers hs" "connOk c" "ReadMessageReuse hs inflate c = Some (r, c')"
  shows "connOk c' \<and> readLimit c' = readLimit c
    \<and> (case r of Inl e \<Rightarrow> True | Inr (opcode, m) \<Rightarrow> opcode \<in> {OpText, OpBinary} \<and> int (length m) \<le> readLimit c \<and> readFrag c' = 0)"
proof -
  have "connOk c' \<and> readLimit c' = readLimit c
    \<and> (\<forall>opcode m. r = Inr (opcode, m) \<longrightarrow> opcode \<in> {OpText, OpBinary} \<and> int (length m) \<le> readLimit c \<and> readFrag c' = 0)"
    using read_single [OF assms(1,2), of inflate] unfolding assms(3) by simp
  then show ?thesis by (cases r) (simp_all split: prod.splits)
qed

theorem read_keeps_connection_witness:
  "\<exists>r c'. ReadMessageReuse defaultHandlers (\<lambda>d. ([], True)) (newEngineConn \<lparr>rbuf = [], rsize = 16, net = [[0x82, 0x81, 0, 0, 0, 0, 7]]\<rparr>) = Some (r, c')
    \<and> connOk c'"
proof -
  let ?c = "newEngineConn \<lparr>rbuf = [], rsize = 16, net = [[0x82, 0x81, 0, 0, 0, 0, 7]]\<rparr>"
  have ok: "connOk ?c" by (rule fresh_ok) (simp add: bufOk_def)
  obtain r c' where r: "ReadMessageReuse defaultHandlers (\<lambda>d. ([], True)) ?c = Some (r, c')"
    using read_single [OF quiet_default ok] by blast
  then show ?thesis using read_keeps_connection [OF quiet_default ok r] by blast
qed

section \<open>Text messages\<close>

lemma frameSpec_parts:
  assumes "frameSpec c s = (Inr (h, p), c', r)"
  shows "\<exists>r0. readFrameHeader readFull zeroHeader s = (Inr h, r0) \<and> refuseHeader c h = None \<and> payloadSpec h c r0 = (Inr p, c', r)"
  using assms by (auto simp: frameSpec_def split: prod.splits sum.splits option.splits)

lemma frameSpec_plain:
  assumes "frameSpec c s = (Inr (h, p), c', r)" "\<not> streamValidate c h"
  shows "c' = c"
  using frameSpec_parts [OF assms(1)] assms(2) by (auto simp: payloadSpec_def Let_def split: if_splits)

lemma frameSpec_text:
  assumes "frameSpec c s = (Inr (h, p), c', r)" "streamValidate c h"
  shows "c' = (beginText h c)\<lparr>readUTF8 := readUTF8 c'\<rparr>"
    "if p = [] then c' = beginText h c else utf8Feed (readUTF8 (beginText h c)) p (h_Fin h) = (True, readUTF8 c')"
proof -
  obtain r0 where "payloadSpec h c r0 = (Inr p, c', r)" using frameSpec_parts [OF assms(1)] by blast
  then have t: "textSpec h (nat (h_Length h)) [] (beginText h c) r0 = (Inr p, c', r)" using assms(2) by (simp add: payloadSpec_def Let_def)
  show "c' = (beginText h c)\<lparr>readUTF8 := readUTF8 c'\<rparr>" by (rule textSpec_frame(5) [OF t])
  show "if p = [] then c' = beginText h c else utf8Feed (readUTF8 (beginText h c)) p (h_Fin h) = (True, readUTF8 c')"
    using textSpec_frame(1,7,8) [OF t] by (cases "nat (h_Length h) = 0") auto
qed

text \<open>
  The invariant without compression: the validator has read the fragments of the text message under
  assembly.
\<close>

definition textInv :: "wsConn \<Rightarrow> bool" where
  "textInv c \<longleftrightarrow> \<not> compressEnabled c \<and> \<not> readCompressed c
     \<and> (readFrag c = OpText \<longrightarrow> utf8Feed \<lparr>pending = []\<rparr> (readFragBuf c) False = (True, readUTF8 c))"

lemma textInv_readSide: "readSide c = readSide c' \<Longrightarrow> textInv c = textInv c'"
  using readSide_fields [of c c'] by (simp add: textInv_def)

lemma textInv_reader [simp]: "textInv (c\<lparr>br := b\<rparr>) = textInv c"
  by (simp add: textInv_def)

lemma reset_fresh: "utf8Reset u = \<lparr>pending = []\<rparr>"
  by (cases u) (simp add: utf8Reset_def)

lemma fresh_feed [simp]: "utf8Feed \<lparr>pending = []\<rparr> [] f = (True, \<lparr>pending = []\<rparr>)"
  by (simp add: utf8Feed_def)

lemma feed_on: "utf8Feed \<lparr>pending = []\<rparr> a False = (True, u) \<Longrightarrow> utf8Feed \<lparr>pending = []\<rparr> (a @ b) f = utf8Feed u b f"
  by (simp add: utf8Feed_append)

lemma feed_valid: "utf8Feed \<lparr>pending = []\<rparr> p True = (True, u) \<Longrightarrow> utf8Valid p"
  using utf8Feed_final [of "\<lparr>pending = []\<rparr>" p] by simp

lemma dataFrame_text:
  assumes ok: "connOk c" "textInv c" and f: "frameSpec c s = (Inr (h, p), c', r)" and d: "\<not> IsControl (h_Opcode h)" "dataFrame inflate h p c' = (x, c'')"
  shows "(x = None \<or> (\<exists>opcode m. x = Some (Inr (opcode, m))) \<longrightarrow> textInv c'') \<and> (x = Some (Inr (OpText, m)) \<longrightarrow> (\<exists>y. utf8Valid (m @ y)))"
proof -
  have u8: "utf8Ok (readUTF8 c)" using ok(1) by (simp add: connOk_def)
  note fr = frameSpec_frame [OF f u8]
  note acc = accepted_data [OF fr(1) d(1)]
  have nocomp: "\<not> h_RSV1 h" "\<not> compressEnabled c" "\<not> readCompressed c" using acc(4) ok(2) by (auto simp: textInv_def)
  have sv: "streamValidate c h \<longleftrightarrow> opcodeText c h" using nocomp by (simp add: streamValidate_def)
  have c': "c' = c\<lparr>readUTF8 := readUTF8 c'\<rparr>" by (rule fr(4))
  define u where "u = readUTF8 c'"
  have c'u: "c' = c\<lparr>readUTF8 := u\<rparr>" using c' u_def by simp
  have feed: "utf8Feed (if h_Opcode h = OpText then \<lparr>pending = []\<rparr> else readUTF8 c) p (p \<noteq> [] \<and> h_Fin h) = (True, u)" if "opcodeText c h"
  proof (cases "p = []")
    case True
    then have "c' = beginText h c" using frameSpec_text(2) [OF f] that sv by simp
    then have "u = (if h_Opcode h = OpText then \<lparr>pending = []\<rparr> else readUTF8 c)" by (simp add: u_def beginText_def reset_fresh)
    then show ?thesis using True utf8Feed_nil [OF u8] by simp
  next
    case False
    then show ?thesis using frameSpec_text(2) [OF f] that sv by (simp add: u_def beginText_def reset_fresh split: if_splits)
  qed
  have fin: "finishMessage inflate opcode m z = (Inr (opcode, m), z)" if "\<not> readCompressed z" for opcode m z
    using that by (simp add: finishMessage_def)
    consider (first) "h_Opcode h = OpText" | (bin) "h_Opcode h = OpBinary" | (cont) "h_Opcode h = OpContinuation" using acc(1) by auto
    then show ?thesis
    proof cases
      case first
      then have feed1: "utf8Feed \<lparr>pending = []\<rparr> p (p \<noteq> [] \<and> h_Fin h) = (True, u)" using feed by (simp add: opcodeText_def)
      have valid: "h_Fin h \<Longrightarrow> utf8Valid p" using feed1 feed_valid by (cases "p = []") simp_all
      have more: "\<not> h_Fin h \<Longrightarrow> utf8Feed \<lparr>pending = []\<rparr> p False = (True, u)" using feed1 by simp
      show ?thesis using d(2) first nocomp valid more by (auto simp: dataFrame_def Let_def c'u fin textInv_def opcode_defs split: if_splits intro: exI [of _ "[]"])
    next
      case bin
      then show ?thesis using d(2) nocomp by (auto simp: dataFrame_def Let_def c'u fin textInv_def opcode_defs split: if_splits)
    next
      case cont
      show ?thesis
      proof (cases "readFrag c = OpText")
        case True
        then have feed1: "utf8Feed (readUTF8 c) p (p \<noteq> [] \<and> h_Fin h) = (True, u)" using feed cont by (simp add: opcodeText_def opcode_defs)
        have pre: "utf8Feed \<lparr>pending = []\<rparr> (readFragBuf c) False = (True, readUTF8 c)" using ok(2) True by (simp add: textInv_def)
        have all: "utf8Feed \<lparr>pending = []\<rparr> (readFragBuf c @ p) (p \<noteq> [] \<and> h_Fin h) = (True, u)" using feed_on [OF pre] feed1 by simp
        have compl: "\<exists>y. utf8Valid ((readFragBuf c @ p) @ y)"
        proof (cases "p \<noteq> [] \<and> h_Fin h")
          case True
          then have "utf8Feed \<lparr>pending = []\<rparr> (readFragBuf c @ p) True = (True, u)" using all by simp
          from feed_valid [OF this] have "utf8Valid ((readFragBuf c @ p) @ [])" by simp
          then show ?thesis by blast
        next
          case False
          then have "utf8Feed \<lparr>pending = []\<rparr> (readFragBuf c @ p) False = (True, u)" using all by (cases "p = []") simp_all
          then show ?thesis by (rule utf8Feed_more)
        qed
        show ?thesis using d(2) cont nocomp all compl by (auto simp: dataFrame_def Let_def c'u fin textInv_def opcode_defs split: if_splits)
      next
        case False
        then show ?thesis using d(2) cont nocomp by (auto simp: dataFrame_def Let_def c'u fin textInv_def opcode_defs split: if_splits)
      qed
    qed
qed

lemma read_text:
  assumes q: "quietHandlers hs"
  shows "connOk c \<Longrightarrow> textInv c \<Longrightarrow> ReadMessageReuse hs inflate c = Some (Inr (opcode, m), c')
    \<Longrightarrow> textInv c' \<and> (opcode = OpText \<longrightarrow> (\<exists>y. utf8Valid (m @ y)))"
proof (induction "length (stream (br c))" arbitrary: c rule: less_induct)
  case less
  have u8: "utf8Ok (readUTF8 c)" using less.prems(1) by (simp add: connOk_def)
  have ok0: "connOk (c\<lparr>br := br c\<rparr>)" using less.prems(1) by simp
  obtain x d r where spec: "frameSpec c (stream (br c)) = (x, d, r)" by (cases "frameSpec c (stream (br c))") auto
  have "\<not> isl x"
  proof
    assume "isl x"
    then obtain e where "x = Inl e" by (cases x) auto
    then obtain c1 where "ReadMessageReuse hs inflate (c\<lparr>br := br c\<rparr>) = Some (Inl e, c1)"
      using frame_error [OF ok0, of e d r] spec by auto
    then show False using less.prems(3) by simp
  qed
  then obtain h p where x: "x = Inr (h, p)" by (cases x) auto
  note fr = frameSpec_frame [OF spec [unfolded x] u8]
  obtain b where b: "bufOk b" "stream b = r" "readFrameFast c = (Inr (h, p), d\<lparr>br := b\<rparr>)"
    using frame_step [OF ok0] spec x by auto
  obtain u where d: "d = c\<lparr>readUTF8 := u\<rparr>" "utf8Ok u" using fr(4,5) by blast
  have okd: "connOk (d\<lparr>br := b\<rparr>)" using less.prems(1) b(1) d by (simp add: connOk_def)
  have smaller: "length (stream b) < length (stream (br c))" using b(2) fr(3) by simp
  show ?case
  proof (cases "IsControl (h_Opcode h)")
    case True
    then have "\<not> streamValidate c h" by (auto simp: streamValidate_def opcodeText_def IsControl_def opcode_defs word_le_nat_alt)
    then have dc: "d = c" using frameSpec_plain [OF spec [unfolded x]] by simp
    have qc: "quiet (handleControl hs (h_Opcode h) p)" by (rule quiet_control [OF q])
    obtain e c2 where e: "handleControl hs (h_Opcode h) p (c\<lparr>br := b\<rparr>) = (e, c2)" by fastforce
    have rs: "readSide c2 = readSide (c\<lparr>br := b\<rparr>)" using qc e unfolding quiet_def by (metis snd_conv)
    have run: "ReadMessageReuse hs inflate c = (case e of Some e \<Rightarrow> Some (Inl e, c2) | None \<Rightarrow> ReadMessageReuse hs inflate c2)"
      using True b(3) e dc by (subst ReadMessageReuse.simps) (simp split: option.splits)
    have "e = None" using run less.prems(3) by (cases e) auto
    then have "ReadMessageReuse hs inflate c2 = Some (Inr (opcode, m), c')" using run less.prems(3) by simp
    moreover have "connOk c2" "textInv c2" "br c2 = b"
      using connOk_readSide [OF rs] textInv_readSide [OF rs] readSide_fields(1) [OF rs] okd dc less.prems(2) by simp_all
    ultimately show ?thesis using less.hyps [of c2] smaller by simp
  next
    case False
    obtain y c2 where y: "dataFrame inflate h p d = (y, c2)" by fastforce
    have yb: "dataFrame inflate h p (d\<lparr>br := b\<rparr>) = (y, c2\<lparr>br := b\<rparr>)" using y by (simp add: dataFrame_reader)
    have ref: "refuseHeader (d\<lparr>br := b\<rparr>) h = None" using fr(1) by (simp add: d(1) refuseHeader_utf8)
    note res = dataFrame_result [OF okd ref False fr(2) yb]
    note inv = dataFrame_text [OF less.prems(1,2) spec [unfolded x] False y]
    have run: "ReadMessageReuse hs inflate c = (case y of Some z \<Rightarrow> Some (z, c2\<lparr>br := b\<rparr>) | None \<Rightarrow> ReadMessageReuse hs inflate (c2\<lparr>br := b\<rparr>))"
      using False b(3) yb by (subst ReadMessageReuse.simps) (simp split: option.splits)
    show ?thesis
    proof (cases y)
      case None
      then show ?thesis using less.hyps [of "c2\<lparr>br := b\<rparr>"] smaller res(1) inv run less.prems(3) by simp
    next
      case (Some z)
      then have "z = Inr (opcode, m)" "c' = c2\<lparr>br := b\<rparr>" using run less.prems(3) by auto
      then show ?thesis using inv [of m] Some by auto
    qed
  qed
qed

text \<open>
  C32. Without compression, a text message is never returned with bytes that cannot be UTF-8: whatever
  the client sends, the text returned is a prefix of valid UTF-8, for this message and, since the
  invariant is kept, for all that follow.
\<close>

theorem text_messages_utf8:
  assumes "quietHandlers hs" "connOk c" "textInv c" "ReadMessageReuse hs inflate c = Some (Inr (opcode, m), c')"
  shows "textInv c' \<and> connOk c' \<and> (opcode = OpText \<longrightarrow> (\<exists>y. utf8Valid (m @ y)))"
  using read_text [OF assms] read_single [OF assms(1,2), of inflate] assms(4) by auto

theorem text_messages_utf8_witness:
  "\<exists>c'. ReadMessageReuse defaultHandlers (\<lambda>d. ([], True)) (newEngineConn \<lparr>rbuf = [], rsize = 16, net = [[0x81, 0x82, 0, 0, 0, 0, 0xC3, 0xA9]]\<rparr>)
      = Some (Inr (OpText, [0xC3, 0xA9]), c') \<and> textInv c'"
proof -
  let ?c = "newEngineConn \<lparr>rbuf = [], rsize = 16, net = [[0x81, 0x82, 0, 0, 0, 0, 0xC3, 0xA9]]\<rparr>"
  have ok: "connOk ?c" "textInv ?c" by (simp_all add: fresh_ok bufOk_def) (simp add: textInv_def newEngineConn_def opcode_defs)
  have "map_option fst (ReadMessageReuse defaultHandlers (\<lambda>d. ([], True)) ?c) = Some (Inr (OpText, [0xC3, 0xA9]))" by code_simp
  then obtain c' where r: "ReadMessageReuse defaultHandlers (\<lambda>d. ([], True)) ?c = Some (Inr (OpText, [0xC3, 0xA9]), c')" by auto
  then show ?thesis using text_messages_utf8 [OF quiet_default ok r] by blast
qed

end
