(* ===== verification/WS_Client.thy ===== *)
theory WS_Client
  imports WS_Text
begin

unbundle bit_operations_syntax

text \<open>
  The bytes a client sends and the messages the server returns for them: masked frames, messages in
  fragments, pings and pongs between the fragments.
\<close>

section \<open>Client frames\<close>

definition maskedLength :: "nat \<Rightarrow> byte list" where
  "maskedLength len = (case lengthBytes len of [] \<Rightarrow> [] | b # bs \<Rightarrow> (b OR 0x80) # bs)"

definition clientFrame :: "bool \<Rightarrow> byte \<Rightarrow> byte list \<Rightarrow> byte list \<Rightarrow> byte list" where
  "clientFrame fin opcode mk payload =
     (if fin then opcode OR 0x80 else opcode) # maskedLength (length payload) @ mk @ xorMask 0 mk payload"

definition clientHeader :: "bool \<Rightarrow> byte \<Rightarrow> byte list \<Rightarrow> nat \<Rightarrow> frameHeader" where
  "clientHeader fin opcode mk len =
     \<lparr>h_Fin = fin, h_RSV1 = False, h_RSV2 = False, h_RSV3 = False, h_Opcode = opcode, h_Masked = True,
      h_Length = int len, h_Mask = mk\<rparr>"

lemma or80_low7: "(b OR 0x80) AND (0x7F :: byte) = b AND 0x7F"
proof -
  have "\<not> bit (0x80 :: byte) n" if "n < 7" for n
  proof -
    have "n = 0 \<or> n = 1 \<or> n = 2 \<or> n = 3 \<or> n = 4 \<or> n = 5 \<or> n = 6" using that by auto
    then show ?thesis by (elim disjE) simp_all
  qed
  then show ?thesis unfolding byte_masks by (auto intro!: bit_word_eqI simp: bit_simps bit_mask_iff)
qed

lemma readFrameHeader_client:
  assumes "uint opcode < 16" "length mk = 4" "length payload < 2 ^ 63"
  shows "readFrameHeader readFull zeroHeader (clientFrame fin opcode mk payload @ c)
    = (Inr (clientHeader fin opcode mk (length payload)), xorMask 0 mk payload @ c)"
proof -
  obtain b1 bs where b: "lengthBytes (length payload) = b1 # bs" "uint b1 < 128"
      "\<And>h c. readLength readFull b1 h (bs @ c) = (Inr (h\<lparr>h_Length := int (length payload)\<rparr>), c)"
    using readLength_written [OF assms(3)] by blast
  let ?b0 = "if fin then opcode OR 0x80 else opcode" and ?b1 = "b1 OR 0x80"
  have len: "readLength readFull ?b1 h (bs @ c) = (Inr (h\<lparr>h_Length := int (length payload)\<rparr>), c)" for h c
    using b(3) [of h c] by (simp add: readLength_def or80_low7)
  have two: "readFull 2 (clientFrame fin opcode mk payload @ c) = (Inr [?b0, ?b1], bs @ mk @ xorMask 0 mk payload @ c)"
    using readFull_exact [of "[?b0, ?b1]" 2 "bs @ mk @ xorMask 0 mk payload @ c"] by (simp add: clientFrame_def maskedLength_def b(1))
  have "\<not> bit opcode 7" "\<not> bit opcode 6" "\<not> bit opcode 5" "\<not> bit opcode 4" "\<not> bit b1 7"
    using byte_nobit [of opcode 4] byte_nobit [of b1 7 7] assms b(2) by simp_all
  then have ft: "firstTwo ?b0 ?b1 zeroHeader = zeroHeader\<lparr>h_Fin := fin, h_RSV1 := False, h_RSV2 := False, h_RSV3 := False, h_Opcode := opcode, h_Masked := True\<rparr>"
    using or_fin [of opcode] byte_low4 [OF assms(1)] by (cases fin) (simp_all add: firstTwo_def byte_flag bit_or_iff)
  have four: "readFull 4 (mk @ xorMask 0 mk payload @ c) = (Inr mk, xorMask 0 mk payload @ c)" by (rule readFull_exact [OF assms(2)])
  show ?thesis using two len ft four
    by (simp add: readFrameHeader_def reading_defs readMask_def clientHeader_def zeroHeader_def)
qed

lemma frameSpec_client:
  assumes "uint opcode < 16" "length mk = 4" "length p < 2 ^ 63" "refuseHeader c (clientHeader fin opcode mk (length p)) = None"
  shows "\<not> streamValidate c (clientHeader fin opcode mk (length p)) \<Longrightarrow>
      frameSpec c (clientFrame fin opcode mk p @ rest) = (Inr (clientHeader fin opcode mk (length p), p), c, rest)"
    "streamValidate c (clientHeader fin opcode mk (length p)) \<Longrightarrow>
      (if p = [] then u = readUTF8 (beginText (clientHeader fin opcode mk 0) c)
       else utf8Feed (readUTF8 (beginText (clientHeader fin opcode mk (length p)) c)) p fin = (True, u)) \<Longrightarrow>
      frameSpec c (clientFrame fin opcode mk p @ rest) = (Inr (clientHeader fin opcode mk (length p), p), c\<lparr>readUTF8 := u\<rparr>, rest)"
proof -
  let ?h = "clientHeader fin opcode mk (length p)"
  have len: "nat (h_Length ?h) = length p" "h_Mask ?h = mk" "h_Fin ?h = fin" by (simp_all add: clientHeader_def)
  note hd = readFrameHeader_client [OF assms(1-3), of fin rest]
  {
    assume "\<not> streamValidate c ?h"
    then have "payloadSpec ?h c (xorMask 0 mk p @ rest) = (Inr p, c, rest)"
      unfolding payloadSpec_def Let_def len by (simp add: xorMask_twice)
    then show "frameSpec c (clientFrame fin opcode mk p @ rest) = (Inr (?h, p), c, rest)"
      unfolding frameSpec_def hd using assms(4) by simp
  next
    assume sv: "streamValidate c ?h" and u: "if p = [] then u = readUTF8 (beginText (clientHeader fin opcode mk 0) c)
       else utf8Feed (readUTF8 (beginText ?h c)) p fin = (True, u)"
    have bt: "(beginText ?h c)\<lparr>readUTF8 := v\<rparr> = c\<lparr>readUTF8 := v\<rparr>" for v by (simp add: beginText_def)
    have "textSpec ?h (length p) [] (beginText ?h c) (xorMask 0 mk p @ rest) = (Inr p, c\<lparr>readUTF8 := u\<rparr>, rest)"
    proof (cases "p = []")
      case True
      then show ?thesis using u by (simp add: textSpec_def beginText_def)
    next
      case False
      then show ?thesis using u unfolding textSpec_def Let_def len by (simp add: xorMask_twice bt)
    qed
    then have "payloadSpec ?h c (xorMask 0 mk p @ rest) = (Inr p, c\<lparr>readUTF8 := u\<rparr>, rest)"
      using sv unfolding payloadSpec_def Let_def len by simp
    then show "frameSpec c (clientFrame fin opcode mk p @ rest) = (Inr (?h, p), c\<lparr>readUTF8 := u\<rparr>, rest)"
      unfolding frameSpec_def hd using assms(4) by simp
  }
qed

section \<open>Client messages\<close>

text \<open>
  A control frame of a client is a ping or a pong with its mask and payload; a fragment is the control
  frames sent before it, its mask and its data.
\<close>

type_synonym ctl = "bool \<times> byte list \<times> byte list"
type_synonym fragment = "ctl list \<times> byte list \<times> byte list"

fun clientCtl :: "ctl \<Rightarrow> byte list" where
  "clientCtl (ping, mk, p) = clientFrame True (if ping then OpPing else OpPong) mk p"

fun pongOf :: "ctl \<Rightarrow> byte list" where
  "pongOf (ping, mk, p) = (if ping then writeFrame True OpPong p else [])"

fun encodeFragments :: "byte \<Rightarrow> fragment list \<Rightarrow> byte list" where
  "encodeFragments opcode [] = []"
| "encodeFragments opcode ((cs, mk, d) # fs) =
     concat (map clientCtl cs) @ clientFrame (fs = []) opcode mk d @ encodeFragments OpContinuation fs"

fun fragmentData :: "fragment list \<Rightarrow> byte list" where
  "fragmentData [] = []"
| "fragmentData ((cs, mk, d) # fs) = d @ fragmentData fs"

fun pongsOf :: "fragment list \<Rightarrow> byte list" where
  "pongsOf [] = []"
| "pongsOf ((cs, mk, d) # fs) = concat (map pongOf cs) @ pongsOf fs"

definition ctlOk :: "int \<Rightarrow> ctl \<Rightarrow> bool" where
  "ctlOk limit x = (case x of (ping, mk, p) \<Rightarrow> length mk = 4 \<and> length p \<le> 125 \<and> int (length p) \<le> limit)"

definition fragmentOk :: "int \<Rightarrow> fragment \<Rightarrow> bool" where
  "fragmentOk limit x = (case x of (cs, mk, d) \<Rightarrow> length mk = 4 \<and> list_all (ctlOk limit) cs)"

definition writable :: "wsConn \<Rightarrow> bool" where
  "writable c \<longleftrightarrow> \<not> closed c \<and> writeErr c = None \<and> bwErr c = None"

lemma flush_writable: "writable c \<Longrightarrow> flushWrite c p = (None, c\<lparr>out := out c @ p\<rparr>)"
  by (simp add: writable_def flushWrite_def engineWrite_def)

lemma read_control:
  assumes x: "ctlOk (readLimit c) x" and w: "writable c" and ok: "connOk (c\<lparr>br := b\<rparr>)" and s: "stream b = clientCtl x @ rest"
  shows "\<exists>b'. bufOk b' \<and> stream b' = rest
    \<and> ReadMessageReuse defaultHandlers inflate (c\<lparr>br := b\<rparr>) = ReadMessageReuse defaultHandlers inflate (c\<lparr>out := out c @ pongOf x, br := b'\<rparr>)"
proof -
  obtain ping mk p where xp: "x = (ping, mk, p)" "length mk = 4" "length p \<le> 125" "int (length p) \<le> readLimit c"
    using x by (cases x) (auto simp: ctlOk_def)
  let ?op = "if ping then OpPing else OpPong"
  let ?h = "clientHeader True ?op mk (length p)"
  have ctl: "IsControl ?op" "uint ?op < 16" by (simp_all add: IsControl_def opcode_defs word_le_nat_alt)
  have ref: "refuseHeader c ?h = None"
    using xp(3,4) by (simp add: refuseHeader_def validateFrameHeader_def clientHeader_def maxControlPayload_def)
  have nos: "\<not> streamValidate c ?h" by (simp add: streamValidate_def opcodeText_def clientHeader_def opcode_defs)
  have "frameSpec c (stream b) = (Inr (?h, p), c, rest)"
    using frameSpec_client(1) [OF ctl(2) xp(2) _ ref nos] xp(3) s xp(1) by simp
  then obtain b' where b': "bufOk b'" "stream b' = rest" "readFrameFast (c\<lparr>br := b\<rparr>) = (Inr (?h, p), c\<lparr>br := b'\<rparr>)"
    using frame_step [OF ok] by blast
  have hc: "handleControl defaultHandlers ?op p (c\<lparr>br := b'\<rparr>) = (None, c\<lparr>out := out c @ pongOf x, br := b'\<rparr>)"
  proof (cases ping)
    case True
    have "writable (c\<lparr>br := b'\<rparr>)" using w by (simp add: writable_def)
    then have "writePong p (c\<lparr>br := b'\<rparr>) = (None, c\<lparr>br := b', out := out c @ writeFrame True OpPong p\<rparr>)"
      using flush_writable [of "c\<lparr>br := b'\<rparr>"] by (simp add: writePong_def writable_def)
    then show ?thesis using True by (simp add: handleControl_def defaultHandlers_def defaultPingHandler_def xp(1))
  next
    case False
    then show ?thesis by (simp add: handleControl_def defaultHandlers_def xp(1) opcode_defs)
  qed
  have "ReadMessageReuse defaultHandlers inflate (c\<lparr>br := b\<rparr>) = ReadMessageReuse defaultHandlers inflate (c\<lparr>out := out c @ pongOf x, br := b'\<rparr>)"
    using b'(3) ctl(1) hc by (subst ReadMessageReuse.simps) (simp add: clientHeader_def)
  then show ?thesis using b' by blast
qed

lemma read_controls:
  "list_all (ctlOk (readLimit c)) xs \<Longrightarrow> writable c \<Longrightarrow> connOk (c\<lparr>br := b\<rparr>) \<Longrightarrow> stream b = concat (map clientCtl xs) @ rest
   \<Longrightarrow> \<exists>b'. bufOk b' \<and> stream b' = rest
    \<and> ReadMessageReuse defaultHandlers inflate (c\<lparr>br := b\<rparr>) = ReadMessageReuse defaultHandlers inflate (c\<lparr>out := out c @ concat (map pongOf xs), br := b'\<rparr>)"
proof (induction xs arbitrary: c b)
  case Nil
  then show ?case by (intro exI [of _ b]) (simp add: connOk_def)
next
  case (Cons x xs)
  obtain b1 where b1: "bufOk b1" "stream b1 = concat (map clientCtl xs) @ rest"
    "ReadMessageReuse defaultHandlers inflate (c\<lparr>br := b\<rparr>) = ReadMessageReuse defaultHandlers inflate (c\<lparr>out := out c @ pongOf x, br := b1\<rparr>)"
    using read_control [of c x b "concat (map clientCtl xs) @ rest" inflate] Cons.prems by auto
  let ?c = "c\<lparr>out := out c @ pongOf x\<rparr>"
  have "list_all (ctlOk (readLimit ?c)) xs" "writable ?c" "connOk (?c\<lparr>br := b1\<rparr>)"
    using Cons.prems b1(1) by (auto simp: writable_def connOk_def)
  from Cons.IH [OF this b1(2)] show ?case using b1(3) by simp
qed

lemma feed_prefix:
  assumes "utf8Valid (p @ y)"
  shows "fst (utf8Feed \<lparr>pending = []\<rparr> p False)"
  using feedLoop_more [of p] assms by (auto simp: utf8Feed_def moreOk_def split: prod.splits if_splits)

text \<open>
  The state before a frame of a message: nothing assembled and the frame carries the opcode of the
  message, or the data so far assembled and the frame is a continuation.
\<close>

definition assembling :: "wsConn \<Rightarrow> byte \<Rightarrow> byte \<Rightarrow> byte list \<Rightarrow> bool" where
  "assembling c opcode mt buf \<longleftrightarrow> mt \<in> {OpText, OpBinary} \<and> \<not> readCompressed c
     \<and> (opcode = mt \<and> readFrag c = 0 \<and> buf = []
        \<or> opcode = OpContinuation \<and> readFrag c = mt \<and> readFragBuf c = buf
          \<and> (mt = OpText \<longrightarrow> utf8Feed \<lparr>pending = []\<rparr> buf False = (True, readUTF8 c)))"

lemma data_frameSpec:
  assumes a: "assembling c opcode mt buf" and mk: "length mk = 4" and ok: "utf8Ok (readUTF8 c)"
    and len: "int (length (buf @ d @ later)) \<le> readLimit c" "length (buf @ d @ later) < 2 ^ 63"
    and valid: "mt = OpText \<Longrightarrow> utf8Valid (buf @ d @ later)" and fin: "fin \<Longrightarrow> later = []"
  shows "\<exists>u. frameSpec c (clientFrame fin opcode mk d @ rest) = (Inr (clientHeader fin opcode mk (length d), d), c\<lparr>readUTF8 := u\<rparr>, rest)
    \<and> utf8Ok u \<and> (mt = OpText \<longrightarrow> \<not> fin \<longrightarrow> utf8Feed \<lparr>pending = []\<rparr> (buf @ d) False = (True, u))"
proof -
  let ?h = "clientHeader fin opcode mk (length d)"
  have op: "opcode \<in> {OpContinuation, OpText, OpBinary}" using a by (auto simp: assembling_def)
  have small: "uint opcode < 16" "\<not> IsControl opcode" using op by (auto simp: IsControl_def opcode_defs word_le_nat_alt)
  have ref: "refuseHeader c ?h = None"
    using op small(2) len(1) by (auto simp: refuseHeader_def validateFrameHeader_def clientHeader_def)
  have sv: "streamValidate c ?h \<longleftrightarrow> mt = OpText"
    using a by (auto simp: streamValidate_def opcodeText_def clientHeader_def assembling_def opcode_defs)
  note fs = frameSpec_client [OF small(1) mk _ ref]
  show ?thesis
  proof (cases "mt = OpText")
    case False
    then show ?thesis using fs(1) [of rest] sv len(2) ok by (intro exI [of _ "readUTF8 c"]) simp
  next
    case True
    let ?u0 = "readUTF8 (beginText ?h c)"
    have u0: "utf8Feed \<lparr>pending = []\<rparr> buf False = (True, ?u0)" "readUTF8 (beginText (clientHeader fin opcode mk 0) c) = ?u0"
      using a True by (auto simp: assembling_def beginText_def clientHeader_def reset_fresh opcode_defs)
    have all: "utf8Feed \<lparr>pending = []\<rparr> (buf @ d) f = utf8Feed ?u0 d f" for f by (rule feed_on [OF u0(1)])
    have good: "fst (utf8Feed \<lparr>pending = []\<rparr> (buf @ d) fin)"
    proof (cases fin)
      case True
      then show ?thesis using valid fin \<open>mt = OpText\<close> utf8Feed_final [of "\<lparr>pending = []\<rparr>" "buf @ d"] by simp
    next
      case False
      then show ?thesis using feed_prefix [of "buf @ d" later] valid True by simp
    qed
    then obtain u1 where u1: "utf8Feed ?u0 d fin = (True, u1)" using all by (cases "utf8Feed ?u0 d fin") auto
    define u where "u = (if d = [] then ?u0 else u1)"
    have "utf8Ok ?u0" using utf8Feed_snd [OF u0(1)] .
    then have "utf8Ok u" using utf8Feed_snd [OF u1] unfolding u_def by metis
    moreover have "utf8Feed \<lparr>pending = []\<rparr> (buf @ d) False = (True, u)" if "\<not> fin"
    proof (cases "d = []")
      case True
      then show ?thesis using u0(1) unfolding u_def by simp
    next
      case False
      then show ?thesis using all [of False] u1 that by (simp add: u_def)
    qed
    moreover have "frameSpec c (clientFrame fin opcode mk d @ rest) = (Inr (?h, d), c\<lparr>readUTF8 := u\<rparr>, rest)"
    proof (rule fs(2))
      show "if d = [] then u = readUTF8 (beginText (clientHeader fin opcode mk 0) c) else utf8Feed ?u0 d fin = (True, u)"
        unfolding u0(2) using u1 by (simp add: u_def)
    qed (use sv True len(2) in simp_all)
    ultimately show ?thesis by blast
  qed
qed

lemma data_dataFrame:
  assumes a: "assembling c opcode mt buf" and len: "int (length (buf @ d)) \<le> readLimit c"
  shows "dataFrame inflate (clientHeader fin opcode mk (length d)) d (c\<lparr>readUTF8 := u\<rparr>) =
    (if fin then (Some (Inr (mt, buf @ d)), c\<lparr>readUTF8 := u, readCompressed := False, readFrag := 0,
                    readFragBuf := (if opcode = OpContinuation then [] else readFragBuf c)\<rparr>)
     else (None, c\<lparr>readUTF8 := u, readCompressed := False, readFrag := mt, readFragBuf := buf @ d\<rparr>))"
  using a len by (cases c) (auto simp: dataFrame_def assembling_def clientHeader_def finishMessage_def opcode_defs)

definition idle :: "wsConn \<Rightarrow> bool" where
  "idle c \<longleftrightarrow> writable c \<and> readFrag c = 0 \<and> \<not> readCompressed c"

lemma read_fragments:
  "fs \<noteq> [] \<Longrightarrow> assembling c opcode mt buf \<Longrightarrow> writable c \<Longrightarrow> connOk (c\<lparr>br := b\<rparr>) \<Longrightarrow> stream b = encodeFragments opcode fs @ rest
   \<Longrightarrow> list_all (fragmentOk (readLimit c)) fs \<Longrightarrow> int (length (buf @ fragmentData fs)) \<le> readLimit c \<Longrightarrow> length (buf @ fragmentData fs) < 2 ^ 63
   \<Longrightarrow> (mt = OpText \<longrightarrow> utf8Valid (buf @ fragmentData fs))
   \<Longrightarrow> \<exists>c'. ReadMessageReuse defaultHandlers inflate (c\<lparr>br := b\<rparr>) = Some (Inr (mt, buf @ fragmentData fs), c')
     \<and> idle c' \<and> connOk c' \<and> out c' = out c @ pongsOf fs \<and> stream (br c') = rest \<and> readLimit c' = readLimit c"
proof (induction fs arbitrary: c opcode buf b)
  case Nil
  then show ?case by simp
next
  case (Cons x fs)
  obtain cs mk d where x: "x = (cs, mk, d)" by (cases x)
  have fok: "length mk = 4" "list_all (ctlOk (readLimit c)) cs" using Cons.prems(6) x by (auto simp: fragmentOk_def)
  let ?frame = "clientFrame (fs = []) opcode mk d" and ?h = "clientHeader (fs = []) opcode mk (length d)"
  let ?c = "c\<lparr>out := out c @ concat (map pongOf cs)\<rparr>"
  have s: "stream b = concat (map clientCtl cs) @ ?frame @ encodeFragments OpContinuation fs @ rest" using Cons.prems(5) x by simp
  obtain b1 where b1: "bufOk b1" "stream b1 = ?frame @ encodeFragments OpContinuation fs @ rest"
      "ReadMessageReuse defaultHandlers inflate (c\<lparr>br := b\<rparr>) = ReadMessageReuse defaultHandlers inflate (?c\<lparr>br := b1\<rparr>)"
    using read_controls [OF fok(2) Cons.prems(3,4) s] by blast
  have ac: "assembling ?c opcode mt buf" using Cons.prems(2) by (simp add: assembling_def)
  have u8: "utf8Ok (readUTF8 ?c)" using Cons.prems(4) by (simp add: connOk_def)
  have ok1: "connOk (?c\<lparr>br := b1\<rparr>)" using Cons.prems(4) b1(1) by (simp add: connOk_def)
  have lens: "int (length (buf @ d @ fragmentData fs)) \<le> readLimit ?c" "length (buf @ d @ fragmentData fs) < 2 ^ 63"
      "mt = OpText \<Longrightarrow> utf8Valid (buf @ d @ fragmentData fs)" "fs = [] \<Longrightarrow> fragmentData fs = []"
    using Cons.prems(7-9) x by auto
  obtain u where u: "frameSpec ?c (stream b1) = (Inr (?h, d), ?c\<lparr>readUTF8 := u\<rparr>, encodeFragments OpContinuation fs @ rest)" "utf8Ok u"
      "mt = OpText \<longrightarrow> fs \<noteq> [] \<longrightarrow> utf8Feed \<lparr>pending = []\<rparr> (buf @ d) False = (True, u)"
    using data_frameSpec [OF ac fok(1) u8 lens] b1(2) by auto
  obtain b2 where b2: "bufOk b2" "stream b2 = encodeFragments OpContinuation fs @ rest"
      "readFrameFast (?c\<lparr>br := b1\<rparr>) = (Inr (?h, d), ?c\<lparr>readUTF8 := u, br := b2\<rparr>)"
    using frame_step [OF ok1 u(1)] by blast
  have data: "\<not> IsControl (h_Opcode ?h)"
    using Cons.prems(2) by (auto simp: clientHeader_def assembling_def IsControl_def opcode_defs word_le_nat_alt)
  have len1: "int (length (buf @ d)) \<le> readLimit ?c" using lens(1) by simp
  note df = data_dataFrame [OF ac len1, of inflate "fs = []" mk u]
  have run: "ReadMessageReuse defaultHandlers inflate (?c\<lparr>br := b1\<rparr>) =
      (case dataFrame inflate ?h d (?c\<lparr>readUTF8 := u\<rparr>) of (Some r, c2) \<Rightarrow> Some (r, c2\<lparr>br := b2\<rparr>)
       | (None, c2) \<Rightarrow> ReadMessageReuse defaultHandlers inflate (c2\<lparr>br := b2\<rparr>))"
    using data b2(3) dataFrame_reader [of inflate ?h d b2 "?c\<lparr>readUTF8 := u\<rparr>"]
    by (subst ReadMessageReuse.simps) (simp split: prod.splits option.splits)
  have c0: "closed c = False" "writeErr c = None" "bwErr c = None" using Cons.prems(3) by (simp_all add: writable_def)
  show ?case
  proof (cases "fs = []")
    case True
    then have r: "ReadMessageReuse defaultHandlers inflate (c\<lparr>br := b\<rparr>) = Some (Inr (mt, buf @ d), ?c\<lparr>readUTF8 := u, readCompressed := False, readFrag := 0,
                    readFragBuf := (if opcode = OpContinuation then [] else readFragBuf ?c), br := b2\<rparr>)"
      using b1(3) run df by simp
    then show ?thesis using True b2 u(2) c0 x by (simp add: idle_def writable_def connOk_def)
  next
    case False
    let ?c2 = "?c\<lparr>readUTF8 := u, readCompressed := False, readFrag := mt, readFragBuf := buf @ d\<rparr>"
    have r: "ReadMessageReuse defaultHandlers inflate (c\<lparr>br := b\<rparr>) = ReadMessageReuse defaultHandlers inflate (?c2\<lparr>br := b2\<rparr>)"
      using b1(3) run df False by simp
    have "mt \<in> {OpText, OpBinary}" using Cons.prems(2) by (simp add: assembling_def)
    then have "assembling ?c2 OpContinuation mt (buf @ d)" "writable ?c2" "connOk (?c2\<lparr>br := b2\<rparr>)"
      using False u(2,3) b2(1) c0 len1 by (auto simp: assembling_def writable_def connOk_def)
    moreover have "list_all (fragmentOk (readLimit ?c2)) fs" "int (length ((buf @ d) @ fragmentData fs)) \<le> readLimit ?c2"
        "length ((buf @ d) @ fragmentData fs) < 2 ^ 63" "mt = OpText \<longrightarrow> utf8Valid ((buf @ d) @ fragmentData fs)"
      using Cons.prems(6) x lens by auto
    ultimately obtain c' where "ReadMessageReuse defaultHandlers inflate (?c2\<lparr>br := b2\<rparr>) = Some (Inr (mt, (buf @ d) @ fragmentData fs), c')"
        "idle c'" "connOk c'" "out c' = out ?c2 @ pongsOf fs" "stream (br c') = rest" "readLimit c' = readLimit ?c2"
      using Cons.IH [OF False, of ?c2 OpContinuation "buf @ d" b2] b2(2) by blast
    then show ?thesis using r x by simp
  qed
qed

section \<open>A conversation\<close>

text \<open>Reading a number of messages, one call after the other.\<close>

fun readMessages :: "inflater \<Rightarrow> nat \<Rightarrow> wsConn \<Rightarrow> ((byte \<times> byte list) list \<times> wsConn) option" where
  "readMessages inflate 0 c = Some ([], c)"
| "readMessages inflate (Suc n) c =
     (case ReadMessageReuse defaultHandlers inflate c of
        Some (Inr m, c') \<Rightarrow> (case readMessages inflate n c' of Some (ms, c'') \<Rightarrow> Some (m # ms, c'') | None \<Rightarrow> None)
      | _ \<Rightarrow> None)"

fun encodeMessage :: "byte \<times> fragment list \<Rightarrow> byte list" where
  "encodeMessage (mt, fs) = encodeFragments mt fs"

fun messageData :: "byte \<times> fragment list \<Rightarrow> byte \<times> byte list" where
  "messageData (mt, fs) = (mt, fragmentData fs)"

definition messageOk :: "int \<Rightarrow> byte \<times> fragment list \<Rightarrow> bool" where
  "messageOk limit x = (case x of (mt, fs) \<Rightarrow> mt \<in> {OpText, OpBinary} \<and> fs \<noteq> [] \<and> list_all (fragmentOk limit) fs
     \<and> int (length (fragmentData fs)) \<le> limit \<and> length (fragmentData fs) < 2 ^ 63 \<and> (mt = OpText \<longrightarrow> utf8Valid (fragmentData fs)))"

lemma messages_read:
  assumes "idle c" "connOk c" "list_all (messageOk (readLimit c)) ms" "stream (br c) = concat (map encodeMessage ms) @ rest"
  shows "\<exists>c'. readMessages inflate (length ms) c = Some (map messageData ms, c')
    \<and> idle c' \<and> stream (br c') = rest \<and> out c' = out c @ concat (map (\<lambda>(mt, fs). pongsOf fs) ms)"
  using assms
proof (induction ms arbitrary: c)
  case Nil
  then show ?case by simp
next
  case (Cons x ms)
  obtain mt fs where x: "x = (mt, fs)" by (cases x)
  have ok: "mt \<in> {OpText, OpBinary}" "fs \<noteq> []" "list_all (fragmentOk (readLimit c)) fs" "int (length ([] @ fragmentData fs)) \<le> readLimit c"
      "length ([] @ fragmentData fs) < 2 ^ 63" "mt = OpText \<longrightarrow> utf8Valid ([] @ fragmentData fs)"
    using Cons.prems(3) x by (auto simp: messageOk_def)
  have st: "assembling c mt mt []" "writable c" "connOk (c\<lparr>br := br c\<rparr>)" "stream (br c) = encodeFragments mt fs @ concat (map encodeMessage ms) @ rest"
    using Cons.prems x ok(1) by (auto simp: assembling_def idle_def)
  obtain c1 where c1: "ReadMessageReuse defaultHandlers inflate c = Some (Inr (mt, fragmentData fs), c1)" "idle c1" "connOk c1"
      "out c1 = out c @ pongsOf fs" "stream (br c1) = concat (map encodeMessage ms) @ rest" "readLimit c1 = readLimit c"
    using read_fragments [OF ok(2) st ok(3-6), of inflate] by auto
  have "list_all (messageOk (readLimit c1)) ms" using Cons.prems(3) c1(6) by simp
  from Cons.IH [OF c1(2,3) this c1(5)] show ?case using c1(1,4) x by auto
qed

text \<open>
  C30. A client is understood. Whatever the masks, the fragments and the pings and pongs between them,
  and however the bytes are segmented, the messages a client sends are returned in order and unchanged,
  every ping is answered by a pong with its payload, in order, and what comes after is left to read.
\<close>

theorem client_messages_read:
  assumes "idle c" "connOk c" "list_all (messageOk (readLimit c)) ms" "stream (br c) = concat (map encodeMessage ms) @ rest"
  shows "\<exists>c'. readMessages inflate (length ms) c = Some (map messageData ms, c')
    \<and> idle c' \<and> stream (br c') = rest \<and> out c' = out c @ concat (map (\<lambda>(mt, fs). pongsOf fs) ms)"
  using messages_read [OF assms] .

definition sampleMessages :: "(byte \<times> fragment list) list" where
  "sampleMessages =
     [(OpText, [([(True, [1, 2, 3, 4], [9])], [5, 6, 7, 8], [0xC3]), ([], [0, 1, 0, 1], [0xA9])]), (OpBinary, [([], [7, 7, 7, 7], [])])]"

theorem client_messages_read_witness:
  "\<exists>c'. readMessages (\<lambda>d. ([], True)) 2 (newEngineConn \<lparr>rbuf = [], rsize = 16, net = map (\<lambda>b. [b]) (concat (map encodeMessage sampleMessages))\<rparr>)
      = Some ([(OpText, [0xC3, 0xA9]), (OpBinary, [])], c') \<and> out c' = writeFrame True OpPong [9]"
proof -
  let ?c = "newEngineConn \<lparr>rbuf = [], rsize = 16, net = map (\<lambda>b. [b]) (concat (map encodeMessage sampleMessages))\<rparr>"
  have single: "concat (map (\<lambda>b. [b]) xs) = xs" for xs :: "byte list" by (induction xs) simp_all
  have "idle ?c" by (simp add: idle_def writable_def newEngineConn_def)
  moreover have "connOk ?c" by (rule fresh_ok) (simp add: bufOk_def)
  moreover have "utf8Valid [0xC3, 0xA9]" by code_simp
  then have "list_all (messageOk (readLimit ?c)) sampleMessages"
    by (simp add: sampleMessages_def messageOk_def fragmentOk_def ctlOk_def newEngineConn_def defaultReadLimit_def)
  moreover have "stream (br ?c) = concat (map encodeMessage sampleMessages) @ []" by (simp add: newEngineConn_def stream_def single)
  ultimately obtain c' where c': "readMessages (\<lambda>d. ([], True)) (length sampleMessages) ?c = Some (map messageData sampleMessages, c')"
      "out c' = out ?c @ concat (map (\<lambda>(mt, fs). pongsOf fs) sampleMessages)"
    using client_messages_read [of ?c sampleMessages "[]" "\<lambda>d. ([], True)"] by blast
  have vals: "length sampleMessages = 2" "map messageData sampleMessages = [(OpText, [0xC3, 0xA9]), (OpBinary, [])]"
    "out ?c @ concat (map (\<lambda>(mt, fs). pongsOf fs) sampleMessages) = writeFrame True OpPong [9]"
    by (simp_all add: sampleMessages_def newEngineConn_def)
  show ?thesis using c' unfolding vals by blast
qed

end
