(* ===== verification/WS_Writer.thy ===== *)
theory WS_Writer
  imports WS_Client
begin

unbundle bit_operations_syntax

text \<open>
  The writing side of a connection (\<^verbatim>\<open>middleware/websocket/conn.go\<close>, \<^verbatim>\<open>writer.go\<close>, \<^verbatim>\<open>compress.go\<close>,
  \<^verbatim>\<open>prepared.go\<close>): whole messages, control frames, streamed messages, prepared messages and compression.
  \<^verbatim>\<open>deflate\<close> stands for a \<^verbatim>\<open>flate.Writer\<close> of a level: the writes that \<^verbatim>\<open>Write\<close> and \<^verbatim>\<open>Flush\<close> make on the
  writer below it, or \<open>None\<close> for an error. Every operation holds the write lock, so operations are steps.
\<close>

section \<open>Definitions\<close>

subsection \<open>Compression\<close>


record truncWriter =
  tdst :: "byte list"
  tbuf :: "byte list"

definition truncWrite :: "byte list \<Rightarrow> truncWriter \<Rightarrow> truncWriter" where
  "truncWrite p w =
     (if p = [] then w
      else
        let n = length (tbuf w); tot = n + length p in
        if tot \<le> 4 then w\<lparr>tbuf := tbuf w @ p\<rparr>
        else
          let flushLen = tot - 4;
              flushFromBuf = (if n > flushLen then flushLen else n);
              flushFromP = flushLen - flushFromBuf in
          w\<lparr>tdst := tdst w @ take flushFromBuf (tbuf w) @ take flushFromP p,
            tbuf := drop flushFromBuf (tbuf w) @ drop flushFromP p\<rparr>)"


definition minCompressionLevel :: int where "minCompressionLevel = -2"
definition maxCompressionLevel :: int where "maxCompressionLevel = 9"

definition SetCompressionLevel :: "int \<Rightarrow> wsConn \<Rightarrow> ws_error option \<times> wsConn" where
  "SetCompressionLevel level c =
     (if level < minCompressionLevel \<or> level > maxCompressionLevel then (Some ErrInvalidLevel, c)
      else (None, c\<lparr>compressLevel := level\<rparr>))"

definition EnableWriteCompression :: "bool \<Rightarrow> wsConn \<Rightarrow> wsConn" where
  "EnableWriteCompression enable c = c\<lparr>compressDisabled := \<not> enable\<rparr>"

subsection \<open>Messages and control frames\<close>







subsection \<open>Streamed messages\<close>


text \<open>
  The writer of a compressed message. \<^verbatim>\<open>tdst\<close> of its \<^verbatim>\<open>truncWriter\<close> is \<^verbatim>\<open>outBuf\<close>; \<^verbatim>\<open>cw_chunks\<close> is what its
  \<^verbatim>\<open>flate.Writer\<close> has been given so far. A \<open>stream_deflater\<close> gives the writes that \<^verbatim>\<open>Write\<close> of a chunk and
  \<^verbatim>\<open>Flush\<close>, or \<^verbatim>\<open>Flush\<close> alone, make below it.
\<close>

type_synonym stream_deflater = "int \<Rightarrow> byte list list \<Rightarrow> byte list option \<Rightarrow> byte list list option"

record compressedMessageWriter =
  cw_opcode :: byte
  cw_started :: bool
  cw_tw :: truncWriter
  cw_level :: int
  cw_chunks :: "byte list list"


definition defaultWriteBufSize :: nat where "defaultWriteBufSize = 4096"






text \<open>
  A frame of a compressed message takes all of \<^verbatim>\<open>outBuf\<close>, so the loop of \<^verbatim>\<open>Write\<close> runs at most once. The
  flag \<^verbatim>\<open>started\<close> is not read after an error, since the \<^verbatim>\<open>bufio.Writer\<close> then refuses every write.
\<close>

definition emitFrame :: "bool \<Rightarrow> compressedMessageWriter \<Rightarrow> wsConn \<Rightarrow> ws_error option \<times> compressedMessageWriter \<times> wsConn" where
  "emitFrame fin w c =
     (let data = tdst (cw_tw w);
          b0 = (if fin then (cw_opcode w AND 0x0F) OR 0x80 else cw_opcode w AND 0x0F) OR 0x40;
          frame = (if \<not> cw_started w then writeFrameRaw b0 data else writeFrame fin OpContinuation data) in
      (case flushWrite c frame of
         (e, c') \<Rightarrow> (e, w\<lparr>cw_started := True, cw_tw := (cw_tw w)\<lparr>tdst := []\<rparr>\<rparr>, c')))"

definition cmwWrite :: "stream_deflater \<Rightarrow> byte list \<Rightarrow> compressedMessageWriter \<Rightarrow> wsConn \<Rightarrow> ws_error option \<times> compressedMessageWriter \<times> wsConn" where
  "cmwWrite deflate p w c =
     (case deflate (cw_level w) (cw_chunks w) (Some p) of
        None \<Rightarrow> (Some ErrDecompress, w, c)
      | Some ws \<Rightarrow>
          let w1 = w\<lparr>cw_tw := fold truncWrite ws (cw_tw w), cw_chunks := cw_chunks w @ [p]\<rparr> in
          if length (tdst (cw_tw w1)) \<ge> defaultWriteBufSize then emitFrame False w1 c else (None, w1, c))"

definition cmwClose :: "stream_deflater \<Rightarrow> compressedMessageWriter \<Rightarrow> wsConn \<Rightarrow> ws_error option \<times> compressedMessageWriter \<times> wsConn" where
  "cmwClose deflate w c =
     (case deflate (cw_level w) (cw_chunks w) None of
        None \<Rightarrow> (Some ErrDecompress, w, c\<lparr>fragWriting := False\<rparr>)
      | Some ws \<Rightarrow>
          (case emitFrame True (w\<lparr>cw_tw := fold truncWrite ws (cw_tw w)\<rparr>) c of
             (e, w', c') \<Rightarrow> (e, w', c'\<lparr>fragWriting := False\<rparr>)))"

subsection \<open>Prepared messages\<close>






section \<open>The held-back trailer\<close>




section \<open>What a client sees\<close>



























section \<open>Compressed messages\<close>






end
