(* ===== verification/WS_NextReader.thy ===== *)
theory WS_NextReader
  imports WS_Text
begin

unbundle bit_operations_syntax

text \<open>
  The streaming reader of messages (\<^verbatim>\<open>middleware/websocket/reader.go\<close>): \<^verbatim>\<open>NextReader\<close> and the reader it
  returns for a fragmented message. The loops over control frames and over empty frames are partial
  functions whose value is \<open>None\<close> when they do not end.
\<close>

record messageReader =
  mr_frameData :: "byte list"
  mr_final :: bool
  mr_opcode :: byte

datatype wsReader = BytesReader "byte list" | FrameReader messageReader

partial_function (option) nextFrame :: "handlers \<Rightarrow> messageReader \<Rightarrow> wsConn \<Rightarrow> (ws_error option \<times> messageReader \<times> wsConn) option" where
  "nextFrame hs r c =
     (case readFrameFast c of
        (Inl e, c1) \<Rightarrow> Some (Some e, r, c1)
      | (Inr (h, payload), c1) \<Rightarrow>
          if IsControl (h_Opcode h) then
            (case handleControl hs (h_Opcode h) payload c1 of
               (Some e, c2) \<Rightarrow> Some (Some e, r, c2)
             | (None, c2) \<Rightarrow> nextFrame hs r c2)
          else if h_Opcode h \<noteq> OpContinuation \<and> mr_opcode r \<noteq> 0
          then Some (Some ErrProtocol, r, writeCloseProtocol CloseProtocolError (str ''interleaved data frame'') c1)
          else Some (None, r\<lparr>mr_frameData := payload, mr_final := h_Fin h\<rparr>, c1))"

text \<open>\<^verbatim>\<open>Read\<close> into room for \<open>n\<close> bytes.\<close>

partial_function (option) mrRead :: "handlers \<Rightarrow> nat \<Rightarrow> messageReader \<Rightarrow> wsConn \<Rightarrow> ((ws_error + byte list) \<times> messageReader \<times> wsConn) option" where
  "mrRead hs n r c =
     (if mr_frameData r = [] then
        (if mr_final r then Some (Inl ErrEOF, r, c)
         else Option.bind (nextFrame hs r c) (\<lambda>x. case x of
                (Some e, r1, c1) \<Rightarrow> Some (Inl e, r1, c1)
              | (None, r1, c1) \<Rightarrow> mrRead hs n r1 c1))
      else Some (Inr (take n (mr_frameData r)), r\<lparr>mr_frameData := drop n (mr_frameData r)\<rparr>, c))"

definition compressedWhole :: "inflater \<Rightarrow> byte \<Rightarrow> byte list \<Rightarrow> wsConn \<Rightarrow> (ws_error + byte \<times> wsReader) \<times> wsConn" where
  "compressedWhole inflate opcode payload c =
     (case decompressMessage inflate payload (readLimit c) of
        Inl e \<Rightarrow>
          (Inl e, if e = ErrReadLimit then writeCloseProtocol CloseMessageTooBig (str ''decompressed message too large'') c
                  else writeCloseProtocol CloseProtocolError (str ''decompression error'') c)
      | Inr d \<Rightarrow>
          if opcode = OpText \<and> \<not> utf8Valid d
          then (Inl ErrInvalidUTF8, writeCloseProtocol CloseInvalidPayload (str ''invalid UTF-8'') c)
          else (Inr (opcode, BytesReader d), c))"

partial_function (option) NextReader :: "handlers \<Rightarrow> inflater \<Rightarrow> wsConn \<Rightarrow> ((ws_error + byte \<times> wsReader) \<times> wsConn) option" where
  "NextReader hs inflate c =
     (case readFrameFast c of
        (Inl e, c1) \<Rightarrow> Some (Inl e, c1)
      | (Inr (h, payload), c1) \<Rightarrow>
          if IsControl (h_Opcode h) then
            (case handleControl hs (h_Opcode h) payload c1 of
               (Some e, c2) \<Rightarrow> Some (Inl e, c2)
             | (None, c2) \<Rightarrow> NextReader hs inflate c2)
          else if h_Fin h \<and> \<not> h_RSV1 h then
            (if h_Opcode h = OpText \<and> \<not> utf8Valid payload
             then Some (Inl ErrInvalidUTF8, writeCloseProtocol CloseInvalidPayload (str ''invalid UTF-8'') c1)
             else Some (Inr (h_Opcode h, BytesReader payload), c1))
          else if h_RSV1 h \<and> \<not> h_Fin h then
            Option.bind (ReadMessageReuse hs inflate (c1\<lparr>readFrag := h_Opcode h, readCompressed := True, readFragBuf := payload\<rparr>)) (\<lambda>x. case x of
                (Inl e, c2) \<Rightarrow> Some (Inl e, c2)
              | (Inr (mt, d), c2) \<Rightarrow> Some (Inr (mt, BytesReader d), c2))
          else if h_RSV1 h then Some (compressedWhole inflate (h_Opcode h) payload c1)
          else Some (Inr (h_Opcode h, FrameReader \<lparr>mr_frameData = payload, mr_final = False, mr_opcode = h_Opcode h\<rparr>), c1))"

declare nextFrame.simps [code] mrRead.simps [code] NextReader.simps [code]

section \<open>Text and continuations that pass unchecked\<close>






end
