(* ===== verification/WS_Chan.thy ===== *)
theory WS_Chan
  imports WS_Frame
begin

text \<open>
  The reader between the engine's event loop and the handler of a connection
  (\<^verbatim>\<open>middleware/websocket/engineread.go\<close>). The engine thread calls \<^verbatim>\<open>Append\<close>, the handler calls \<^verbatim>\<open>Read\<close>, and
  any thread may call \<^verbatim>\<open>closeWith\<close>. The threads are interleaved at the granularity of their atomic
  operations: a channel operation, an atomic load or store, a critical section of \<^verbatim>\<open>spillMu\<close>. The critical
  section of \<^verbatim>\<open>pausedMu\<close> in \<^verbatim>\<open>requestPause\<close> is cut at its reads of the channel and of the spill, with the
  mutex held in between; the one in \<^verbatim>\<open>resumeIfDrained\<close> reads only the channel and is one step.
  \<^verbatim>\<open>spillLen\<close> mirrors the length of the spill: it changes in the same critical sections and is read as
  that length.
\<close>

section \<open>Definitions\<close>

subsection \<open>State and operations\<close>

record chanReader =
  ch :: "byte list list"
  chCap :: nat
  cur :: "byte list"
  isClosed :: bool
  isDone :: bool
  closeError :: "ws_error option"
  hasPauser :: bool
  highWater :: nat
  lowWater :: nat
  pausedState :: bool
  enginePaused :: bool
  spill :: "byte list list"
  spillMax :: nat
  droppedCount :: nat
  spilledCount :: nat

definition newChanReader :: "int \<Rightarrow> int \<Rightarrow> int \<Rightarrow> chanReader" where
  "newChanReader capacity0 highPct0 lowPct0 =
     (let capacity = (if capacity0 \<le> 0 then 256 else capacity0);
          highPct = (if highPct0 \<le> 0 \<or> highPct0 > 100 then 75 else highPct0);
          lowPct = (if lowPct0 \<le> 0 \<or> lowPct0 \<ge> highPct then 25 else lowPct0);
          high0 = capacity * highPct div 100;
          low0 = capacity * lowPct div 100;
          high = (if high0 < 1 then 1 else high0);
          low1 = (if low0 \<ge> high then high - 1 else low0);
          low = (if low1 < 0 then 0 else low1) in
      \<lparr>ch = [], chCap = nat capacity, cur = [], isClosed = False, isDone = False, closeError = None, hasPauser = False,
       highWater = nat high, lowWater = nat low, pausedState = False, enginePaused = False,
       spill = [], spillMax = nat capacity, droppedCount = 0, spilledCount = 0\<rparr>)"

definition SetPauser :: "chanReader \<Rightarrow> chanReader" where
  "SetPauser r = r\<lparr>hasPauser := True\<rparr>"

text \<open>The non-blocking send; \<open>None\<close> when the channel is full.\<close>

definition trySend :: "byte list \<Rightarrow> chanReader \<Rightarrow> chanReader option" where
  "trySend chunk r = (if length (ch r) < chCap r then Some (r\<lparr>ch := ch r @ [chunk]\<rparr>) else None)"

definition hasSpill :: "chanReader \<Rightarrow> bool" where
  "hasSpill r \<longleftrightarrow> length (spill r) > 0"

text \<open>\<^verbatim>\<open>spillChunk\<close>: \<^verbatim>\<open>spilled\<close> and \<^verbatim>\<open>ok\<close>.\<close>

definition spillChunk :: "byte list \<Rightarrow> chanReader \<Rightarrow> bool \<times> bool \<times> chanReader" where
  "spillChunk chunk r =
     (case (if spill r = [] then trySend chunk r else None) of
        Some r' \<Rightarrow> (False, True, r')
      | None \<Rightarrow>
          if spillMax r \<le> 0 \<or> length (spill r) \<ge> spillMax r then (False, False, r\<lparr>droppedCount := droppedCount r + 1\<rparr>)
          else (True, True, r\<lparr>spill := spill r @ [chunk], spilledCount := spilledCount r + 1\<rparr>))"

text \<open>Spilled chunks move to the channel while there is room; the flag tells whether any did.\<close>

fun promoteLoop :: "nat \<Rightarrow> byte list list \<Rightarrow> byte list list \<Rightarrow> byte list list \<times> byte list list" where
  "promoteLoop room q [] = (q, [])"
| "promoteLoop room q (s # ss) = (if length q < room then promoteLoop room (q @ [s]) ss else (q, s # ss))"

definition promoteLocked :: "chanReader \<Rightarrow> bool \<times> chanReader" where
  "promoteLocked r =
     (case promoteLoop (chCap r) (ch r) (spill r) of
        (q, rest) \<Rightarrow> (length rest < length (spill r), r\<lparr>ch := q, spill := rest\<rparr>))"

text \<open>
  \<^verbatim>\<open>requestPause\<close> up to its re-check, and the re-check. \<open>None\<close> in the first: no callback, or paused already.
\<close>

definition pauseEngine :: "chanReader \<Rightarrow> chanReader option" where
  "pauseEngine r =
     (if \<not> hasPauser r \<or> pausedState r then None else Some (r\<lparr>pausedState := True, enginePaused := True\<rparr>))"

definition resumeEngine :: "chanReader \<Rightarrow> chanReader" where
  "resumeEngine r = r\<lparr>pausedState := False, enginePaused := False\<rparr>"

definition resumeIfDrained :: "chanReader \<Rightarrow> chanReader" where
  "resumeIfDrained r = (if pausedState r \<and> length (ch r) \<le> lowWater r then resumeEngine r else r)"

definition closeErr :: "chanReader \<Rightarrow> ws_error" where
  "closeErr r = (case closeError r of Some e \<Rightarrow> e | None \<Rightarrow> ErrEOF)"

subsection \<open>Threads\<close>

text \<open>
  Where the engine thread is in \<^verbatim>\<open>Append\<close>: before the check of the close flag, before the check of the
  spill, before the send, before \<^verbatim>\<open>spillChunk\<close>, before the check of the depth, before \<^verbatim>\<open>requestPause\<close>, in its
  re-check before the read of the channel and of the spill, before \<^verbatim>\<open>closeWith\<close>.
\<close>

datatype producer =
    PIdle
  | PStart "byte list"
  | POpen "byte list"
  | PSend "byte list"
  | PBehind "byte list"
  | PDepth
  | PPause
  | PRecheck
  | PRecheckSpill
  | PPoison

text \<open>
  Where the handler is: not started yet, between calls of \<^verbatim>\<open>Read\<close>; in \<^verbatim>\<open>next\<close> before the read of the close flag, before the receive,
  before \<^verbatim>\<open>promoteSpill\<close>, blocked, before \<^verbatim>\<open>closeErr\<close>; after a receive before the read of \<^verbatim>\<open>spillLen\<close>, before
  the promotion, before the check of the spill, before \<^verbatim>\<open>resumeIfDrained\<close>; or it has returned an error.
\<close>

datatype consumer =
    CUnstarted
  | CIdle
  | CNext
  | CRecv bool
  | CPromote bool
  | CBlocked
  | CReport
  | CRefill
  | CRefillLocked
  | CCheckSpill
  | CResume
  | CFailed ws_error

text \<open>A thread that has won \<^verbatim>\<open>closeWith\<close>: before the store of the error, before the close of \<^verbatim>\<open>done\<close>. Its last two operations are
  scheduled on their own; a call of \<^verbatim>\<open>Append\<close> in between only sees the flag and drops its chunk.\<close>

datatype closer = NoCloser | Won "ws_error option" | Stored | Finished

text \<open>
  The system. \<open>offered\<close> are the chunks of all calls of \<^verbatim>\<open>Append\<close> in order, \<open>rejected\<close> those for which it
  returned false, \<open>delivered\<close> the chunks the handler has received, \<open>handed\<close> the bytes \<^verbatim>\<open>Read\<close> has returned,
  \<open>atClose\<close> how many chunks had been accepted when the reader was closed.
\<close>

record csys =
  rd :: chanReader
  prod :: producer
  cons :: consumer
  closing :: closer
  offered :: "byte list list"
  rejected :: "byte list list"
  delivered :: "byte list list"
  handed :: "byte list"
  atClose :: nat

definition accepted :: "csys \<Rightarrow> byte list list" where
  "accepted s = delivered s @ ch (rd s) @ spill (rd s)"

definition pauseLocked :: "csys \<Rightarrow> bool" where
  "pauseLocked s \<longleftrightarrow> prod s = PRecheck \<or> prod s = PRecheckSpill"

definition casClose :: "ws_error option \<Rightarrow> csys \<Rightarrow> csys" where
  "casClose e s =
     (if isClosed (rd s) then s
      else s\<lparr>rd := (rd s)\<lparr>isClosed := True\<rparr>, closing := Won e, atClose := length (accepted s)\<rparr>)"

definition receive1 :: "csys \<Rightarrow> csys option" where
  "receive1 s =
     (case ch (rd s) of
        [] \<Rightarrow> None
      | c # cs \<Rightarrow> Some (s\<lparr>rd := (rd s)\<lparr>ch := cs, cur := c\<rparr>, delivered := delivered s @ [c], cons := CRefill\<rparr>))"

text \<open>One step of the engine thread inside \<^verbatim>\<open>Append\<close>.\<close>

definition prodStep :: "csys \<Rightarrow> csys option" where
  "prodStep s =
     (case prod s of
        PIdle \<Rightarrow> None
      | PStart c \<Rightarrow> Some (if isClosed (rd s) then s\<lparr>prod := PIdle, rejected := rejected s @ [c]\<rparr> else s\<lparr>prod := POpen c\<rparr>)
      | POpen c \<Rightarrow> Some (s\<lparr>prod := (if hasSpill (rd s) then PBehind c else PSend c)\<rparr>)
      | PSend c \<Rightarrow> Some (case trySend c (rd s) of Some r \<Rightarrow> s\<lparr>rd := r, prod := PDepth\<rparr> | None \<Rightarrow> s\<lparr>prod := PBehind c\<rparr>)
      | PBehind c \<Rightarrow> Some (case spillChunk c (rd s) of
            (spilled, ok, r) \<Rightarrow>
              if \<not> ok then s\<lparr>rd := r, prod := PPoison, rejected := rejected s @ [c]\<rparr>
              else if spilled then s\<lparr>rd := r, prod := PPause\<rparr>
              else s\<lparr>rd := r, prod := PDepth\<rparr>)
      | PDepth \<Rightarrow> Some (s\<lparr>prod := (if length (ch (rd s)) \<ge> highWater (rd s) then PPause else PIdle)\<rparr>)
      | PPause \<Rightarrow> Some (case pauseEngine (rd s) of Some r \<Rightarrow> s\<lparr>rd := r, prod := PRecheck\<rparr> | None \<Rightarrow> s\<lparr>prod := PIdle\<rparr>)
      | PRecheck \<Rightarrow> Some (s\<lparr>prod := (if length (ch (rd s)) \<le> lowWater (rd s) then PRecheckSpill else PIdle)\<rparr>)
      | PRecheckSpill \<Rightarrow> Some (if \<not> hasSpill (rd s) then s\<lparr>rd := resumeEngine (rd s), prod := PIdle\<rparr> else s\<lparr>prod := PIdle\<rparr>)
      | PPoison \<Rightarrow> Some (casClose (Some ErrReadLimit) (s\<lparr>prod := PIdle\<rparr>)))"

text \<open>One step of the handler inside \<^verbatim>\<open>Read\<close>; \<open>None\<close> where it has to wait or has nothing to do.\<close>

definition consStep :: "csys \<Rightarrow> csys option" where
  "consStep s =
     (case cons s of
        CUnstarted \<Rightarrow> None
      | CIdle \<Rightarrow> None
      | CNext \<Rightarrow> Some (s\<lparr>cons := CRecv (isClosed (rd s))\<rparr>)
      | CRecv wasClosed \<Rightarrow> Some (case receive1 s of Some s' \<Rightarrow> s' | None \<Rightarrow> s\<lparr>cons := CPromote wasClosed\<rparr>)
      | CPromote wasClosed \<Rightarrow> Some (case promoteLocked (rd s) of
            (moved, r) \<Rightarrow> s\<lparr>rd := r, cons := (if moved then CNext else if wasClosed then CReport else CBlocked)\<rparr>)
      | CBlocked \<Rightarrow> receive1 s
      | CReport \<Rightarrow> Some (s\<lparr>cons := CFailed (closeErr (rd s))\<rparr>)
      | CRefill \<Rightarrow> Some (s\<lparr>cons := (if hasSpill (rd s) then CRefillLocked else CCheckSpill)\<rparr>)
      | CRefillLocked \<Rightarrow> Some (s\<lparr>rd := snd (promoteLocked (rd s)), cons := CCheckSpill\<rparr>)
      | CCheckSpill \<Rightarrow> Some (s\<lparr>cons := (if hasPauser (rd s) \<and> \<not> hasSpill (rd s) then CResume else CIdle)\<rparr>)
      | CResume \<Rightarrow> if pauseLocked s then None else Some (s\<lparr>rd := resumeIfDrained (rd s), cons := CIdle\<rparr>)
      | CFailed e \<Rightarrow> None)"

definition closeStep :: "csys \<Rightarrow> csys option" where
  "closeStep s =
     (case closing s of
        Won e \<Rightarrow> Some (s\<lparr>rd := (rd s)\<lparr>closeError := (case e of Some x \<Rightarrow> Some x | None \<Rightarrow> closeError (rd s))\<rparr>, closing := Stored\<rparr>)
      | Stored \<Rightarrow> Some (s\<lparr>rd := (rd s)\<lparr>isDone := True\<rparr>, closing := Finished\<rparr>)
      | _ \<Rightarrow> None)"

inductive cstep :: "csys \<Rightarrow> csys \<Rightarrow> bool" where
  append: "prod s = PIdle \<Longrightarrow> cstep s (s\<lparr>prod := PStart chunk, offered := offered s @ [chunk]\<rparr>)"
| producing: "prodStep s = Some s' \<Longrightarrow> cstep s s'"
| install: "cons s = CUnstarted \<Longrightarrow> \<not> pauseLocked s \<Longrightarrow> cstep s (s\<lparr>rd := SetPauser (rd s)\<rparr>)"
| start: "cons s = CUnstarted \<Longrightarrow> cstep s (s\<lparr>cons := CIdle\<rparr>)"
| read_more: "cons s = CIdle \<Longrightarrow> cur (rd s) = [] \<Longrightarrow> cstep s (s\<lparr>cons := CNext\<rparr>)"
| read_cur: "cons s = CIdle \<Longrightarrow> cur (rd s) \<noteq> [] \<Longrightarrow>
    cstep s (s\<lparr>rd := (rd s)\<lparr>cur := drop n (cur (rd s))\<rparr>, handed := handed s @ take n (cur (rd s))\<rparr>)"
| consuming: "consStep s = Some s' \<Longrightarrow> cstep s s'"
| wake: "cons s = CBlocked \<Longrightarrow> isDone (rd s) \<Longrightarrow> cstep s (s\<lparr>cons := CNext\<rparr>)"
| retry: "cons s = CFailed e \<Longrightarrow> cstep s (s\<lparr>cons := CNext\<rparr>)"
| close: "cstep s (casClose e s)"
| closing: "closeStep s = Some s' \<Longrightarrow> cstep s s'"

definition startSys :: "chanReader \<Rightarrow> csys" where
  "startSys r = \<lparr>rd = r, prod = PIdle, cons = CUnstarted, closing = NoCloser, offered = [], rejected = [], delivered = [], handed = [], atClose = 0\<rparr>"

inductive creach :: "csys \<Rightarrow> bool" where
  fresh: "creach (startSys (newChanReader capacity highPct lowPct))"
| stepped: "creach s \<Longrightarrow> cstep s s' \<Longrightarrow> creach s'"

section \<open>Promotion\<close>

lemma promoteLoop_parts:
  "promoteLoop room q ss = (q', rest) \<Longrightarrow> q' @ rest = q @ ss \<and> length rest \<le> length ss \<and> length q \<le> length q'
    \<and> (length q \<le> room \<longrightarrow> length q' \<le> room) \<and> (length rest = length ss \<longrightarrow> q' = q \<and> rest = ss \<and> (ss = [] \<or> room \<le> length q))"
proof (induction room q ss rule: promoteLoop.induct)
  case (2 room q s ss)
  show ?case
  proof (cases "length q < room")
    case True
    then have "promoteLoop room (q @ [s]) ss = (q', rest)" using 2(2) by simp
    from 2(1) [OF True this] show ?thesis using True by auto
  next
    case False
    then show ?thesis using 2(2) by auto
  qed
qed auto

lemma promoteLocked_parts:
  assumes "promoteLocked r = (moved, r')"
  shows "ch r' @ spill r' = ch r @ spill r" "length (spill r') \<le> length (spill r)" "length (ch r) \<le> length (ch r')"
    "length (ch r) \<le> chCap r \<Longrightarrow> length (ch r') \<le> chCap r" "cur r' = cur r" "isClosed r' = isClosed r"
    "chCap r' = chCap r" "spillMax r' = spillMax r" "lowWater r' = lowWater r" "highWater r' = highWater r"
    "hasPauser r' = hasPauser r" "pausedState r' = pausedState r" "enginePaused r' = enginePaused r"
    "moved \<Longrightarrow> ch r' \<noteq> []" "\<not> moved \<Longrightarrow> r' = r \<and> (spill r = [] \<or> chCap r \<le> length (ch r))"
proof -
  obtain q rest where q: "promoteLoop (chCap r) (ch r) (spill r) = (q, rest)" by fastforce
  then have r: "r' = r\<lparr>ch := q, spill := rest\<rparr>" "moved = (length rest < length (spill r))" using assms by (auto simp: promoteLocked_def)
  note p = promoteLoop_parts [OF q]
  show "ch r' @ spill r' = ch r @ spill r" "length (spill r') \<le> length (spill r)" "length (ch r) \<le> length (ch r')"
    "length (ch r) \<le> chCap r \<Longrightarrow> length (ch r') \<le> chCap r" "cur r' = cur r" "isClosed r' = isClosed r"
    "chCap r' = chCap r" "spillMax r' = spillMax r" "lowWater r' = lowWater r" "highWater r' = highWater r"
    "hasPauser r' = hasPauser r" "pausedState r' = pausedState r" "enginePaused r' = enginePaused r"
    using p r by auto
  have "length q + length rest = length (ch r) + length (spill r)" using p by (metis length_append)
  then show "moved \<Longrightarrow> ch r' \<noteq> []" using r by auto
  show "\<not> moved \<Longrightarrow> r' = r \<and> (spill r = [] \<or> chCap r \<le> length (ch r))" using p r by auto
qed

section \<open>Invariants\<close>

fun pendingOf :: "producer \<Rightarrow> byte list list" where
  "pendingOf (PStart c) = [c]"
| "pendingOf (POpen c) = [c]"
| "pendingOf (PSend c) = [c]"
| "pendingOf (PBehind c) = [c]"
| "pendingOf _ = []"

fun decided :: "producer \<Rightarrow> bool" where
  "decided (POpen c) = True"
| "decided (PSend c) = True"
| "decided (PBehind c) = True"
| "decided _ = False"

fun sending :: "producer \<Rightarrow> bool" where
  "sending (PSend c) = True"
| "sending _ = False"

fun holdsCur :: "consumer \<Rightarrow> bool" where
  "holdsCur CUnstarted = True"
| "holdsCur CIdle = True"
| "holdsCur CRefill = True"
| "holdsCur CRefillLocked = True"
| "holdsCur CCheckSpill = True"
| "holdsCur CResume = True"
| "holdsCur _ = False"

fun refilling :: "consumer \<Rightarrow> bool" where
  "refilling CRefill = True"
| "refilling CRefillLocked = True"
| "refilling CCheckSpill = True"
| "refilling CResume = True"
| "refilling _ = False"

fun sawClose :: "consumer \<Rightarrow> bool" where
  "sawClose (CRecv w) = w"
| "sawClose (CPromote w) = w"
| "sawClose CReport = True"
| "sawClose (CFailed e) = True"
| "sawClose _ = False"

fun reporting :: "consumer \<Rightarrow> bool" where
  "reporting CReport = True"
| "reporting (CFailed e) = True"
| "reporting _ = False"

definition orderInv :: "csys \<Rightarrow> bool" where
  "orderInv s \<longleftrightarrow> offered s = accepted s @ rejected s @ pendingOf (prod s)
     \<and> (rejected s \<noteq> [] \<longrightarrow> isClosed (rd s) \<or> prod s = PPoison)
     \<and> (decided (prod s) \<longrightarrow> rejected s = [])
     \<and> (sending (prod s) \<longrightarrow> spill (rd s) = [])
     \<and> handed s @ cur (rd s) = concat (delivered s)
     \<and> (\<not> holdsCur (cons s) \<longrightarrow> cur (rd s) = [])"

definition sizeInv :: "csys \<Rightarrow> bool" where
  "sizeInv s \<longleftrightarrow> 0 < chCap (rd s) \<and> spillMax (rd s) = chCap (rd s) \<and> lowWater (rd s) < highWater (rd s)
     \<and> length (ch (rd s)) \<le> chCap (rd s) \<and> length (spill (rd s)) \<le> spillMax (rd s)"

definition pauseInv :: "csys \<Rightarrow> bool" where
  "pauseInv s \<longleftrightarrow> enginePaused (rd s) = pausedState (rd s) \<and> (pausedState (rd s) \<longrightarrow> hasPauser (rd s))
     \<and> (cons s = CBlocked \<longrightarrow> spill (rd s) \<noteq> [] \<longrightarrow> ch (rd s) \<noteq> [])
     \<and> (pausedState (rd s) \<longrightarrow> ch (rd s) \<noteq> [] \<or> spill (rd s) \<noteq> [] \<or> pauseLocked s \<or> refilling (cons s))"

definition closeInv :: "csys \<Rightarrow> bool" where
  "closeInv s \<longleftrightarrow> (isClosed (rd s) \<longrightarrow> atClose s \<le> length (accepted s))
     \<and> (sawClose (cons s) \<longrightarrow> isClosed (rd s))
     \<and> (cons s = CPromote True \<longrightarrow> atClose s \<le> length (delivered s) \<or> ch (rd s) = [] \<and> spill (rd s) \<noteq> [])
     \<and> (reporting (cons s) \<longrightarrow> atClose s \<le> length (delivered s))"

lemmas sys_defs = accepted_def pauseLocked_def hasSpill_def trySend_def spillChunk_def pauseEngine_def resumeEngine_def
  resumeIfDrained_def casClose_def receive1_def

lemma clamped_water:
  fixes h l :: int
  shows "nat (if (if l \<ge> (if h < 1 then 1 else h) then (if h < 1 then 1 else h) - 1 else l) < 0 then 0
    else (if l \<ge> (if h < 1 then 1 else h) then (if h < 1 then 1 else h) - 1 else l)) < nat (if h < 1 then 1 else h)"
  by auto

lemma newChanReader_water: "lowWater (newChanReader a b c) < highWater (newChanReader a b c)"
  unfolding newChanReader_def Let_def chanReader.select_convs by (rule clamped_water)

lemma newChanReader_fields:
  "0 < chCap (newChanReader a b c)" "spillMax (newChanReader a b c) = chCap (newChanReader a b c)"
  "ch (newChanReader a b c) = []" "spill (newChanReader a b c) = []" "cur (newChanReader a b c) = []"
  "\<not> isClosed (newChanReader a b c)" "\<not> pausedState (newChanReader a b c)" "\<not> enginePaused (newChanReader a b c)"
  unfolding newChanReader_def Let_def chanReader.select_convs by (rule refl | simp only: not_False_eq_True | simp)+

lemma start_inv:
  "orderInv (startSys (newChanReader a b c))" "sizeInv (startSys (newChanReader a b c))"
  "pauseInv (startSys (newChanReader a b c))" "closeInv (startSys (newChanReader a b c))"
  by (simp_all add: orderInv_def sizeInv_def pauseInv_def closeInv_def startSys_def accepted_def
      newChanReader_fields newChanReader_water)

lemma prodStep_cases:
  assumes "prodStep s = Some s'"
  obtains
    (refuse) c where "prod s = PStart c" "isClosed (rd s)" "s' = s\<lparr>prod := PIdle, rejected := rejected s @ [c]\<rparr>"
  | (admit) c where "prod s = PStart c" "\<not> isClosed (rd s)" "s' = s\<lparr>prod := POpen c\<rparr>"
  | (behind) c where "prod s = POpen c" "spill (rd s) \<noteq> []" "s' = s\<lparr>prod := PBehind c\<rparr>"
  | (clear) c where "prod s = POpen c" "spill (rd s) = []" "s' = s\<lparr>prod := PSend c\<rparr>"
  | (sent) c where "prod s = PSend c" "length (ch (rd s)) < chCap (rd s)"
      "s' = s\<lparr>rd := (rd s)\<lparr>ch := ch (rd s) @ [c]\<rparr>, prod := PDepth\<rparr>"
  | (full) c where "prod s = PSend c" "\<not> length (ch (rd s)) < chCap (rd s)" "s' = s\<lparr>prod := PBehind c\<rparr>"
  | (retried) c where "prod s = PBehind c" "spill (rd s) = []" "length (ch (rd s)) < chCap (rd s)"
      "s' = s\<lparr>rd := (rd s)\<lparr>ch := ch (rd s) @ [c]\<rparr>, prod := PDepth\<rparr>"
  | (spilled) c where "prod s = PBehind c" "spill (rd s) \<noteq> [] \<or> chCap (rd s) \<le> length (ch (rd s))" "length (spill (rd s)) < spillMax (rd s)"
      "s' = s\<lparr>rd := (rd s)\<lparr>spill := spill (rd s) @ [c], spilledCount := spilledCount (rd s) + 1\<rparr>, prod := PPause\<rparr>"
  | (flooded) c where "prod s = PBehind c" "spill (rd s) \<noteq> [] \<or> chCap (rd s) \<le> length (ch (rd s))" "spillMax (rd s) \<le> length (spill (rd s))"
      "s' = s\<lparr>rd := (rd s)\<lparr>droppedCount := droppedCount (rd s) + 1\<rparr>, prod := PPoison, rejected := rejected s @ [c]\<rparr>"
  | (deep) "prod s = PDepth" "highWater (rd s) \<le> length (ch (rd s))" "s' = s\<lparr>prod := PPause\<rparr>"
  | (shallow) "prod s = PDepth" "s' = s\<lparr>prod := PIdle\<rparr>"
  | (paused) "prod s = PPause" "hasPauser (rd s)" "\<not> pausedState (rd s)"
      "s' = s\<lparr>rd := (rd s)\<lparr>pausedState := True, enginePaused := True\<rparr>, prod := PRecheck\<rparr>"
  | (no_pause) "prod s = PPause" "s' = s\<lparr>prod := PIdle\<rparr>"
  | (drained) "prod s = PRecheck" "length (ch (rd s)) \<le> lowWater (rd s)" "s' = s\<lparr>prod := PRecheckSpill\<rparr>"
  | (undrained) "prod s = PRecheck" "lowWater (rd s) < length (ch (rd s))" "s' = s\<lparr>prod := PIdle\<rparr>"
  | (lifted) "prod s = PRecheckSpill" "spill (rd s) = []"
      "s' = s\<lparr>rd := (rd s)\<lparr>pausedState := False, enginePaused := False\<rparr>, prod := PIdle\<rparr>"
  | (kept) "prod s = PRecheckSpill" "spill (rd s) \<noteq> []" "s' = s\<lparr>prod := PIdle\<rparr>"
  | (poisoned) "prod s = PPoison" "s' = casClose (Some ErrReadLimit) (s\<lparr>prod := PIdle\<rparr>)"
proof (cases "prod s")
  case PIdle
  then show ?thesis using assms by (simp add: prodStep_def)
next
  case (PStart c)
  then show ?thesis using assms refuse [of c] admit [of c] by (cases "isClosed (rd s)") (simp_all add: prodStep_def)
next
  case (POpen c)
  then show ?thesis using assms behind [of c] clear [of c] by (cases "spill (rd s) = []") (simp_all add: prodStep_def hasSpill_def)
next
  case (PSend c)
  then show ?thesis using assms sent [of c] full [of c]
    by (cases "length (ch (rd s)) < chCap (rd s)") (simp_all add: prodStep_def trySend_def)
next
  case PDepth
  then show ?thesis using assms deep shallow by (cases "highWater (rd s) \<le> length (ch (rd s))") (simp_all add: prodStep_def)
next
  case PPause
  then show ?thesis using assms paused no_pause
    by (cases "hasPauser (rd s)"; cases "pausedState (rd s)") (simp_all add: prodStep_def pauseEngine_def)
next
  case PRecheck
  then show ?thesis using assms drained undrained
    by (cases "length (ch (rd s)) \<le> lowWater (rd s)") (simp_all add: prodStep_def)
next
  case PRecheckSpill
  then show ?thesis using assms lifted kept by (cases "spill (rd s) = []") (simp_all add: prodStep_def hasSpill_def resumeEngine_def)
next
  case PPoison
  then show ?thesis using assms poisoned by (simp add: prodStep_def)
next
  case (PBehind c)
  show ?thesis
  proof (cases "spill (rd s) = [] \<and> length (ch (rd s)) < chCap (rd s)")
    case True
    then show ?thesis using PBehind assms retried by (simp add: prodStep_def spillChunk_def trySend_def)
  next
    case False
    show ?thesis
    proof (cases "length (spill (rd s)) < spillMax (rd s)")
      case True
      then show ?thesis using False PBehind assms spilled [of c]
        by (cases "spill (rd s) = []") (simp_all add: prodStep_def spillChunk_def trySend_def)
    next
      case nospace: False
      then show ?thesis using False PBehind assms flooded [of c]
        by (cases "spill (rd s) = []") (simp_all add: prodStep_def spillChunk_def trySend_def)
    qed
  qed
qed

lemma reporting_sawClose: "reporting c \<Longrightarrow> sawClose c"
  by (cases c) simp_all

lemma casClose_close:
  assumes "closeInv s"
  shows "closeInv (casClose e s)"
proof (cases "isClosed (rd s)")
  case False
  then have "\<not> sawClose (cons s)" using assms by (simp add: closeInv_def)
  then show ?thesis using False reporting_sawClose [of "cons s"] by (auto simp: closeInv_def casClose_def accepted_def)
qed (use assms in \<open>simp add: casClose_def\<close>)

lemma prod_order:
  assumes "orderInv s" "prodStep s = Some s'"
  shows "orderInv s'"
  using assms(2)
  by (cases rule: prodStep_cases) (use assms(1) in \<open>simp_all add: orderInv_def accepted_def casClose_def\<close>)

lemma prod_size:
  assumes "sizeInv s" "prodStep s = Some s'"
  shows "sizeInv s'"
  using assms(2)
  by (cases rule: prodStep_cases) (use assms(1) in \<open>simp_all add: sizeInv_def casClose_def\<close>)

lemma prod_pause:
  assumes "0 < chCap (rd s)" "pauseInv s" "prodStep s = Some s'"
  shows "pauseInv s'"
  using assms(3)
  by (cases rule: prodStep_cases) (use assms(1,2) in \<open>auto simp: pauseInv_def pauseLocked_def casClose_def\<close>)

lemma prod_close:
  assumes "sending (prod s) \<longrightarrow> spill (rd s) = []" "closeInv s" "prodStep s = Some s'"
  shows "closeInv s'"
  using assms(3)
proof (cases rule: prodStep_cases)
  case poisoned
  have "closeInv (s\<lparr>prod := PIdle\<rparr>)" using assms(2) by (simp add: closeInv_def accepted_def)
  then show ?thesis using poisoned casClose_close by simp
qed (use assms(1,2) in \<open>auto simp: closeInv_def accepted_def\<close>)

lemma receive1_cases:
  assumes "receive1 s = Some s'"
  obtains c cs where "ch (rd s) = c # cs"
    "s' = s\<lparr>rd := (rd s)\<lparr>ch := cs, cur := c\<rparr>, delivered := delivered s @ [c], cons := CRefill\<rparr>"
  using assms by (cases "ch (rd s)") (simp_all add: receive1_def)

lemma consStep_cases:
  assumes "consStep s = Some s'"
  obtains
    (look) "cons s = CNext" "s' = s\<lparr>cons := CRecv (isClosed (rd s))\<rparr>"
  | (received) c cs w where "cons s = CRecv w \<or> cons s = CBlocked" "ch (rd s) = c # cs"
      "s' = s\<lparr>rd := (rd s)\<lparr>ch := cs, cur := c\<rparr>, delivered := delivered s @ [c], cons := CRefill\<rparr>"
  | (empty) w where "cons s = CRecv w" "ch (rd s) = []" "s' = s\<lparr>cons := CPromote w\<rparr>"
  | (promoted) w r where "cons s = CPromote w" "promoteLocked (rd s) = (True, r)" "s' = s\<lparr>rd := r, cons := CNext\<rparr>"
  | (unmoved) w r where "cons s = CPromote w" "promoteLocked (rd s) = (False, r)"
      "s' = s\<lparr>rd := r, cons := (if w then CReport else CBlocked)\<rparr>"
  | (failed) "cons s = CReport" "s' = s\<lparr>cons := CFailed (closeErr (rd s))\<rparr>"
  | (refill) "cons s = CRefill" "s' = s\<lparr>cons := CRefillLocked\<rparr>"
  | (skip) "cons s = CRefill" "s' = s\<lparr>cons := CCheckSpill\<rparr>"
  | (refilled) m r where "cons s = CRefillLocked" "promoteLocked (rd s) = (m, r)" "s' = s\<lparr>rd := r, cons := CCheckSpill\<rparr>"
  | (check) "cons s = CCheckSpill" "s' = s\<lparr>cons := CResume\<rparr>"
  | (no_check) "cons s = CCheckSpill" "hasPauser (rd s) \<longrightarrow> spill (rd s) \<noteq> []" "s' = s\<lparr>cons := CIdle\<rparr>"
  | (resumed) "cons s = CResume" "\<not> pauseLocked s" "length (ch (rd s)) \<le> lowWater (rd s)" "pausedState (rd s)"
      "s' = s\<lparr>rd := (rd s)\<lparr>pausedState := False, enginePaused := False\<rparr>, cons := CIdle\<rparr>"
  | (unresumed) "cons s = CResume" "\<not> pauseLocked s" "pausedState (rd s) \<longrightarrow> lowWater (rd s) < length (ch (rd s))"
      "s' = s\<lparr>cons := CIdle\<rparr>"
proof (cases "cons s")
  case CUnstarted
  then show ?thesis using assms by (simp add: consStep_def)
next
  case CIdle
  then show ?thesis using assms by (simp add: consStep_def)
next
  case CNext
  then show ?thesis using assms look by (simp add: consStep_def)
next
  case (CRecv w)
  then show ?thesis using assms received [of w] empty [of w] by (cases "ch (rd s)") (simp_all add: consStep_def receive1_def)
next
  case (CPromote w)
  obtain m r where m: "promoteLocked (rd s) = (m, r)" by fastforce
  then have s': "s' = s\<lparr>rd := r, cons := (if m then CNext else if w then CReport else CBlocked)\<rparr>"
    using CPromote assms by (simp add: consStep_def)
  show ?thesis
  proof (cases m)
    case True
    show ?thesis by (rule promoted [OF CPromote, of r]) (use True m s' in simp_all)
  next
    case False
    show ?thesis by (rule unmoved [OF CPromote, of r]) (use False m s' in simp_all)
  qed
next
  case CBlocked
  then show ?thesis using assms received by (cases "ch (rd s)") (simp_all add: consStep_def receive1_def)
next
  case CReport
  then show ?thesis using assms failed by (simp add: consStep_def)
next
  case CRefill
  then show ?thesis using assms refill skip by (cases "hasSpill (rd s)") (simp_all add: consStep_def)
next
  case CRefillLocked
  obtain m r where "promoteLocked (rd s) = (m, r)" by fastforce
  then show ?thesis using CRefillLocked assms refilled by (simp add: consStep_def)
next
  case CCheckSpill
  then show ?thesis using assms check no_check
    by (cases "hasPauser (rd s)"; cases "spill (rd s) = []") (simp_all add: consStep_def hasSpill_def)
next
  case CResume
  then have l: "\<not> pauseLocked s" using assms by (simp add: consStep_def split: if_splits)
  show ?thesis
  proof (cases "pausedState (rd s) \<and> length (ch (rd s)) \<le> lowWater (rd s)")
    case True
    then show ?thesis using l CResume assms resumed by (simp add: consStep_def resumeIfDrained_def resumeEngine_def)
  next
    case False
    then have "resumeIfDrained (rd s) = rd s" by (auto simp: resumeIfDrained_def)
    then have "s' = s\<lparr>cons := CIdle\<rparr>" using l CResume assms by (simp add: consStep_def)
    moreover have "pausedState (rd s) \<longrightarrow> lowWater (rd s) < length (ch (rd s))" using False by auto
    ultimately show ?thesis using l CResume unresumed by blast
  qed
next
  case (CFailed e)
  then show ?thesis using assms by (simp add: consStep_def)
qed

lemma promote_order:
  assumes "orderInv s" "promoteLocked (rd s) = (m, r)" "holdsCur c \<or> cur (rd s) = []"
  shows "orderInv (s\<lparr>rd := r, cons := c\<rparr>)"
proof -
  have "accepted (s\<lparr>rd := r, cons := c\<rparr>) = accepted s" using promoteLocked_parts(1) [OF assms(2)] by (simp add: accepted_def)
  moreover have "spill (rd s) = [] \<longrightarrow> spill r = []" using promoteLocked_parts(2) [OF assms(2)] by auto
  ultimately show ?thesis using assms(1,3) promoteLocked_parts(5,6) [OF assms(2)] by (auto simp: orderInv_def)
qed

lemma cons_order:
  assumes "orderInv s" "consStep s = Some s'"
  shows "orderInv s'"
  using assms(2)
proof (cases rule: consStep_cases)
  case (promoted w r)
  then have "cur (rd s) = []" using assms(1) by (simp add: orderInv_def)
  then show ?thesis using promoted(3) promote_order [OF assms(1) promoted(2), of CNext] by simp
next
  case (unmoved w r)
  then have "cur (rd s) = []" using assms(1) by (simp add: orderInv_def)
  then show ?thesis using unmoved(3) promote_order [OF assms(1) unmoved(2)] by simp
next
  case (refilled m r)
  then show ?thesis using promote_order [OF assms(1) refilled(2), of CCheckSpill] by simp
qed (use assms(1) in \<open>auto simp: orderInv_def accepted_def\<close>)

lemma cons_size:
  assumes "sizeInv s" "consStep s = Some s'"
  shows "sizeInv s'"
  using assms(2)
proof (cases rule: consStep_cases)
  case (promoted w r)
  then show ?thesis using assms(1) promoteLocked_parts [OF promoted(2)] by (simp add: sizeInv_def)
next
  case (unmoved w r)
  then show ?thesis using assms(1) promoteLocked_parts [OF unmoved(2)] by (simp add: sizeInv_def)
next
  case (refilled m r)
  then show ?thesis using assms(1) promoteLocked_parts [OF refilled(2)] by (simp add: sizeInv_def)
qed (use assms(1) in \<open>auto simp: sizeInv_def\<close>)

lemma cons_pause:
  assumes "0 < chCap (rd s)" "pauseInv s" "consStep s = Some s'"
  shows "pauseInv s'"
  using assms(3)
proof (cases rule: consStep_cases)
  case (promoted w r)
  then show ?thesis using assms(2) promoteLocked_parts [OF promoted(2)] by (simp add: pauseInv_def pauseLocked_def)
next
  case (unmoved w r)
  have "spill (rd s) = [] \<or> ch (rd s) \<noteq> []" using promoteLocked_parts(15) [OF unmoved(2)] assms(1) by auto
  then show ?thesis using unmoved assms(2) promoteLocked_parts(15) [OF unmoved(2)] by (auto simp: pauseInv_def pauseLocked_def)
next
  case (refilled m r)
  then show ?thesis using assms(2) promoteLocked_parts [OF refilled(2)] by (simp add: pauseInv_def pauseLocked_def)
qed (use assms(2) in \<open>auto simp: pauseInv_def pauseLocked_def\<close>)

lemma cons_close:
  assumes "0 < chCap (rd s)" "closeInv s" "consStep s = Some s'"
  shows "closeInv s'"
  using assms(3)
proof (cases rule: consStep_cases)
  case (promoted w r)
  then have "length (accepted s') = length (accepted s)"
    using promoteLocked_parts(1) [OF promoted(2)] by (simp add: accepted_def flip: length_append)
  then show ?thesis using promoted assms(2) promoteLocked_parts [OF promoted(2)] by (simp add: closeInv_def)
next
  case (unmoved w r)
  have "r = rd s" "spill (rd s) = [] \<or> ch (rd s) \<noteq> []" using promoteLocked_parts(15) [OF unmoved(2)] assms(1) by auto
  then show ?thesis using unmoved assms(2) by (cases w) (auto simp: closeInv_def accepted_def)
next
  case (refilled m r)
  then have "length (accepted s') = length (accepted s)"
    using promoteLocked_parts(1) [OF refilled(2)] by (simp add: accepted_def flip: length_append)
  then show ?thesis using refilled assms(2) promoteLocked_parts [OF refilled(2)] by (simp add: closeInv_def)
next
  case look
  then show ?thesis using assms(2) by (cases "isClosed (rd s)") (simp_all add: closeInv_def accepted_def)
next
  case (empty w)
  then show ?thesis using assms(2) by (cases w) (auto simp: closeInv_def accepted_def)
qed (use assms(2) in \<open>auto simp: closeInv_def accepted_def\<close>)

text \<open>The remaining steps touch one field each.\<close>

lemma close_step_inv:
  assumes "closeStep s = Some s'"
  shows "orderInv s' = orderInv s" "sizeInv s' = sizeInv s" "pauseInv s' = pauseInv s" "closeInv s' = closeInv s"
  using assms
  by (cases "closing s"; simp add: closeStep_def; force simp: orderInv_def sizeInv_def pauseInv_def closeInv_def accepted_def pauseLocked_def)+

lemma casClose_inv:
  "orderInv s \<Longrightarrow> orderInv (casClose e s)" "sizeInv s \<Longrightarrow> sizeInv (casClose e s)" "pauseInv s \<Longrightarrow> pauseInv (casClose e s)"
  by (auto simp: casClose_def orderInv_def sizeInv_def pauseInv_def accepted_def pauseLocked_def)

definition sysInv :: "csys \<Rightarrow> bool" where
  "sysInv s \<longleftrightarrow> orderInv s \<and> sizeInv s \<and> pauseInv s \<and> closeInv s"

lemma cstep_inv:
  assumes "cstep s s'" "sysInv s"
  shows "sysInv s'"
  using assms
proof (cases rule: cstep.cases)
  case producing
  have "sending (prod s) \<longrightarrow> spill (rd s) = []" "0 < chCap (rd s)" using assms(2) by (auto simp: sysInv_def orderInv_def sizeInv_def)
  then show ?thesis using assms(2) producing prod_order prod_size prod_pause prod_close unfolding sysInv_def by blast
next
  case consuming
  have "0 < chCap (rd s)" using assms(2) by (auto simp: sysInv_def sizeInv_def)
  then show ?thesis using assms(2) consuming cons_order cons_size cons_pause cons_close unfolding sysInv_def by blast
next
  case (close e)
  then show ?thesis using assms(2) casClose_inv casClose_close by (simp add: sysInv_def)
next
  case closing
  then show ?thesis using assms(2) close_step_inv by (simp add: sysInv_def)
qed (use assms(2) in \<open>auto simp: sysInv_def orderInv_def sizeInv_def pauseInv_def closeInv_def accepted_def pauseLocked_def SetPauser_def\<close>)

lemma creach_inv: "creach s \<Longrightarrow> sysInv s"
proof (induction rule: creach.induct)
  case (fresh capacity highPct lowPct)
  then show ?case by (simp add: sysInv_def start_inv)
next
  case (stepped s s')
  then show ?case using cstep_inv by blast
qed

subsection \<open>Schedules\<close>

text \<open>A schedule names the thread that moves next and, for a new call, its argument.\<close>

datatype act = Appends "byte list" | Producer | Install | Begins | Reads nat | Consumer | Wakes | Closes "ws_error option" | Closer

fun perform :: "act \<Rightarrow> csys \<Rightarrow> csys option" where
  "perform (Appends chunk) s = (if prod s = PIdle then Some (s\<lparr>prod := PStart chunk, offered := offered s @ [chunk]\<rparr>) else None)"
| "perform Producer s = prodStep s"
| "perform Install s = (if cons s = CUnstarted \<and> \<not> pauseLocked s then Some (s\<lparr>rd := SetPauser (rd s)\<rparr>) else None)"
| "perform Begins s = (if cons s = CUnstarted then Some (s\<lparr>cons := CIdle\<rparr>) else None)"
| "perform (Reads n) s =
     (if cons s = CIdle then
        if cur (rd s) = [] then Some (s\<lparr>cons := CNext\<rparr>)
        else Some (s\<lparr>rd := (rd s)\<lparr>cur := drop n (cur (rd s))\<rparr>, handed := handed s @ take n (cur (rd s))\<rparr>)
      else None)"
| "perform Consumer s = consStep s"
| "perform Wakes s = (if cons s = CBlocked \<and> isDone (rd s) then Some (s\<lparr>cons := CNext\<rparr>) else None)"
| "perform (Closes e) s = Some (casClose e s)"
| "perform Closer s = closeStep s"

fun runActs :: "act list \<Rightarrow> csys \<Rightarrow> csys option" where
  "runActs [] s = Some s"
| "runActs (a # as) s = (case perform a s of None \<Rightarrow> None | Some s' \<Rightarrow> runActs as s')"

lemma perform_cstep: "perform a s = Some s' \<Longrightarrow> cstep s s'"
  by (cases a) (auto split: if_splits intro: cstep.intros)

lemma runActs_creach: "creach s \<Longrightarrow> runActs as s = Some s' \<Longrightarrow> creach s'"
  by (induction as s rule: runActs.induct) (auto split: option.splits dest: perform_cstep intro: creach.stepped)

lemmas schedule_creach = runActs_creach [OF creach.fresh]

text \<open>Three chunks into a reader of capacity one: one in the channel, one spilled, the third drops and closes the reader.\<close>

definition floodActs :: "act list" where
  "floodActs = [Begins, Appends [1, 2]] @ replicate 5 Producer @ [Appends [3]] @ replicate 5 Producer @ [Appends [4]] @ replicate 4 Producer
     @ [Reads 9] @ replicate 5 Consumer @ [Reads 9, Reads 9] @ replicate 4 Consumer @ [Reads 9, Reads 9] @ replicate 4 Consumer"

text \<open>Two chunks with the pause callbacks installed; the handler drains both and blocks.\<close>

definition drainActs :: "act list" where
  "drainActs = [Install, Begins, Appends [1, 2]] @ replicate 6 Producer @ [Appends [3]] @ replicate 5 Producer
     @ [Reads 9] @ replicate 6 Consumer @ [Reads 9, Reads 9] @ replicate 5 Consumer @ [Reads 9, Reads 9] @ replicate 3 Consumer"

section \<open>Properties\<close>

text \<open>
  C37. In every interleaving of the engine, the handler and a closing thread, the bytes \<^verbatim>\<open>Read\<close> has handed out are a
  prefix of the bytes the engine has offered, in order and without gaps, whether the chunks went through the
  channel or the spill; the buffers keep their bounds; and once \<^verbatim>\<open>Read\<close> reports the close, every chunk that was
  accepted before the close has been received.
\<close>

theorem chan_in_order:
  assumes "creach s"
  shows "prefix (handed s) (concat (offered s)) \<and> prefix (delivered s) (offered s)
    \<and> length (ch (rd s)) \<le> chCap (rd s) \<and> length (spill (rd s)) \<le> chCap (rd s)
    \<and> (\<forall>e. cons s = CFailed e \<longrightarrow> atClose s \<le> length (delivered s))"
proof -
  have i: "orderInv s" "sizeInv s" "closeInv s" using creach_inv [OF assms] by (simp_all add: sysInv_def)
  obtain rest where rest: "offered s = delivered s @ rest" using i(1) by (auto simp: orderInv_def accepted_def)
  have "concat (delivered s) = handed s @ cur (rd s)" using i(1) by (simp add: orderInv_def)
  then have "prefix (handed s) (concat (offered s))" using rest by (simp add: prefix_def)
  then show ?thesis using i(2,3) rest by (auto simp: prefix_def sizeInv_def closeInv_def)
qed

theorem chan_in_order_witness:
  "\<exists>s. creach s \<and> offered s = [[1, 2], [3], [4]] \<and> cons s = CFailed ErrEOF \<and> atClose s = 2
     \<and> prefix (handed s) [1, 2, 3, 4] \<and> 2 \<le> length (delivered s)"
proof -
  have "case runActs floodActs (startSys (newChanReader 1 0 0)) of None \<Rightarrow> False
      | Some s \<Rightarrow> offered s = [[1, 2], [3], [4]] \<and> cons s = CFailed ErrEOF \<and> atClose s = 2"
    unfolding floodActs_def by code_simp
  then obtain s where s: "creach s" "offered s = [[1, 2], [3], [4]]" "cons s = CFailed ErrEOF" "atClose s = 2"
    using schedule_creach by (fastforce split: option.splits)
  then show ?thesis using chan_in_order [OF s(1)] by auto
qed

text \<open>
  C38. The handler is never stranded. Where it is inside \<^verbatim>\<open>Read\<close> and cannot move, and the engine is not inside \<^verbatim>\<open>Append\<close>,
  it waits on the empty channel with nothing spilled: it has received every chunk the engine offered and
  \<^verbatim>\<open>Append\<close> accepted, and the engine's reads are not paused, so new data can still arrive.
\<close>

theorem chan_never_wedged:
  assumes "creach s" "consStep s = None" "prod s = PIdle" "cons s \<noteq> CUnstarted" "cons s \<noteq> CIdle" "\<not> reporting (cons s)"
  shows "cons s = CBlocked \<and> offered s = delivered s @ rejected s \<and> \<not> enginePaused (rd s)"
proof -
  have i: "orderInv s" "pauseInv s" using creach_inv [OF assms(1)] by (simp_all add: sysInv_def)
  have b: "cons s = CBlocked" "ch (rd s) = []"
    using assms(2-6) by (cases "cons s"; auto simp: consStep_def pauseLocked_def receive1_def split: list.splits)+
  then have "spill (rd s) = []" "\<not> pausedState (rd s)" using i(2) assms(3) by (auto simp: pauseInv_def pauseLocked_def)
  then show ?thesis using b i assms(3) by (simp add: orderInv_def pauseInv_def accepted_def)
qed

theorem chan_never_wedged_witness:
  "\<exists>s. creach s \<and> hasPauser (rd s) \<and> offered s = [[1, 2], [3]] \<and> cons s = CBlocked \<and> delivered s @ rejected s = [[1, 2], [3]]
     \<and> \<not> enginePaused (rd s)"
proof -
  have "case runActs drainActs (startSys (newChanReader 1 0 0)) of None \<Rightarrow> False
      | Some s \<Rightarrow> hasPauser (rd s) \<and> offered s = [[1, 2], [3]] \<and> prod s = PIdle \<and> cons s = CBlocked \<and> ch (rd s) = []"
    unfolding drainActs_def by code_simp
  then obtain s where s: "creach s" "hasPauser (rd s)" "offered s = [[1, 2], [3]]" "prod s = PIdle" "cons s = CBlocked" "ch (rd s) = []"
    using schedule_creach by (fastforce split: option.splits)
  then show ?thesis using chan_never_wedged [OF s(1)] by (auto simp: consStep_def receive1_def)
qed

text \<open>
  C39. A flood may be reported as a clean end of the stream: \<^verbatim>\<open>closeWith\<close> sets the close flag before it stores the error and
  \<^verbatim>\<open>Read\<close> trusts the flag, so that the handler of a reader closed with the read-limit error, whose third chunk was dropped, can
  receive the two buffered chunks and then \<^verbatim>\<open>io.EOF\<close>.
\<close>

theorem close_error_race:
  "\<exists>s. creach s \<and> closing s = Won (Some ErrReadLimit) \<and> droppedCount (rd s) = 1 \<and> rejected s = [[4]]
     \<and> handed s = [1, 2, 3] \<and> cons s = CFailed ErrEOF"
proof -
  have "case runActs floodActs (startSys (newChanReader 1 0 0)) of None \<Rightarrow> False
      | Some s \<Rightarrow> closing s = Won (Some ErrReadLimit) \<and> droppedCount (rd s) = 1 \<and> rejected s = [[4]]
          \<and> handed s = [1, 2, 3] \<and> cons s = CFailed ErrEOF"
    unfolding floodActs_def by code_simp
  then show ?thesis using schedule_creach by (fastforce split: option.splits)
qed

end
