(* ===== verification/Redis_Resp.thy ===== *)
theory Redis_Resp
  imports Incremental H1_Ascii
begin

text \<open>
  The RESP2 and RESP3 wire protocol of the Redis driver (\<^verbatim>\<open>internal/driver/redis/protocol/resp.go\<close>): the incremental
  reader and the command writer. The slices the Go reader returns alias its buffer; here they are values. The
  pools of slices are left out, their flags are kept. \<^verbatim>\<open>strconv.ParseFloat\<close> is a parameter, and so is the type of
  its results.
\<close>

section \<open>Definitions\<close>

subsection \<open>Values\<close>

datatype resp_error = ErrIncomplete | ErrProtocol | ErrProtocolOversizedBulk | ErrProtocolOversizedArray

definition MaxBulkLen :: int where "MaxBulkLen = 512 * 1024 * 1024"
definition MaxArrayLen :: int where "MaxArrayLen = 128 * 1024 * 1024"

datatype Type = TySimple | TyError | TyInt | TyBulk | TyArray | TyNull | TyBool | TyDouble | TyBigInt | TyBlobErr
  | TyVerbatim | TySet | TyMap | TyAttr | TyPush

datatype 'f Value =
  Value (vType: Type) (vStr: "byte list") (vInt: int) (vFloat: 'f) (vBool: bool) (vBigN: "byte list")
    (vArray: "'f Value list") (vMap: "('f Value \<times> 'f Value) list") (pooledArr: bool) (pooledMap: bool)

text \<open>The composite literals of the sources; fields that are not named are zero.\<close>

definition strValue :: "Type \<Rightarrow> byte list \<Rightarrow> 'f::zero Value" where
  "strValue ty s = Value ty s 0 0 False [] [] [] False False"

definition intValue :: "int \<Rightarrow> 'f::zero Value" where
  "intValue n = Value TyInt [] n 0 False [] [] [] False False"

definition boolValue :: "bool \<Rightarrow> 'f::zero Value" where
  "boolValue b = Value TyBool [] 0 0 b [] [] [] False False"

definition floatValue :: "'f::zero \<Rightarrow> 'f Value" where
  "floatValue f = Value TyDouble [] 0 f False [] [] [] False False"

definition bigValue :: "byte list \<Rightarrow> 'f::zero Value" where
  "bigValue s = Value TyBigInt [] 0 0 False s [] [] False False"

definition nullValue :: "'f::zero Value" where
  "nullValue = Value TyNull [] 0 0 False [] [] [] False False"

definition arrayValue :: "Type \<Rightarrow> 'f::zero Value list \<Rightarrow> 'f Value" where
  "arrayValue ty vs = Value ty [] 0 0 False [] vs [] True False"

definition mapValue :: "Type \<Rightarrow> ('f::zero Value \<times> 'f Value) list \<Rightarrow> 'f Value" where
  "mapValue ty kvs = Value ty [] 0 0 False [] [] kvs False True"

fun ClearPooledFlags :: "'f Value \<Rightarrow> 'f Value" where
  "ClearPooledFlags (Value ty s n f b g arr m pa pm) =
     Value ty s n f b g (map ClearPooledFlags arr) (map (map_prod ClearPooledFlags ClearPooledFlags) m) False False"

subsection \<open>The reader\<close>

text \<open>\<^verbatim>\<open>w\<close> is the length of the buffer throughout.\<close>

record Reader =
  rdBuf :: "byte list"
  rdPos :: nat

definition NewReader :: Reader where
  "NewReader = \<lparr>rdBuf = [], rdPos = 0\<rparr>"

definition Feed :: "byte list \<Rightarrow> Reader \<Rightarrow> Reader" where
  "Feed data r = (if data = [] then r else r\<lparr>rdBuf := rdBuf r @ data\<rparr>)"

definition readerReset :: "Reader \<Rightarrow> Reader" where
  "readerReset r = \<lparr>rdBuf = [], rdPos = 0\<rparr>"

definition Compact :: "Reader \<Rightarrow> Reader" where
  "Compact r =
     (if rdPos r = 0 then r
      else if rdPos r \<ge> length (rdBuf r) then \<lparr>rdBuf = [], rdPos = 0\<rparr>
      else \<lparr>rdBuf = drop (rdPos r) (rdBuf r), rdPos = 0\<rparr>)"

text \<open>
  A parsing step: an error or a value, and the reader after it; the cursor may have moved on an error. \<open>None\<close> is a
  step that does not return.
\<close>

type_synonym 'a parsing = "Reader \<Rightarrow> ((resp_error + 'a) \<times> Reader) option"

definition returnP :: "'a \<Rightarrow> 'a parsing" where
  "returnP a r = Some (Inr a, r)"

definition failP :: "resp_error \<Rightarrow> 'a parsing" where
  "failP e r = Some (Inl e, r)"

definition bindP :: "'a parsing \<Rightarrow> ('a \<Rightarrow> 'b parsing) \<Rightarrow> 'b parsing" where
  "bindP m f r = (case m r of None \<Rightarrow> None | Some (Inl e, r1) \<Rightarrow> Some (Inl e, r1) | Some (Inr a, r1) \<Rightarrow> f a r1)"

definition readTag :: "byte parsing" where
  "readTag r =
     (if rdPos r \<ge> length (rdBuf r) then Some (Inl ErrIncomplete, r)
      else Some (Inr (rdBuf r ! rdPos r), r\<lparr>rdPos := rdPos r + 1\<rparr>))"

definition readLine :: "byte list parsing" where
  "readLine r =
     (case bytes_Index (drop (rdPos r) (rdBuf r)) bCRLF of
        None \<Rightarrow> Some (Inl ErrIncomplete, r)
      | Some i \<Rightarrow> Some (Inr (take i (drop (rdPos r) (rdBuf r))), r\<lparr>rdPos := rdPos r + i + 2\<rparr>))"

fun parseUintLoop :: "int \<Rightarrow> byte list \<Rightarrow> int option" where
  "parseUintLoop n [] = Some n"
| "parseUintLoop n (d # b) =
     (if d < 0x30 \<or> d > 0x39 then None
      else if n > MaxInt64 div 10 then None
      else (let n' = wrap64 (n * 10 + uint (d - 0x30)) in if n' < 0 then None else parseUintLoop n' b))"

definition parseUint :: "byte list \<Rightarrow> int option" where
  "parseUint b = (if length b = 0 then None else parseUintLoop 0 b)"

definition parseInt :: "byte list \<Rightarrow> int option" where
  "parseInt b =
     (if length b = 0 then None
      else if b ! 0 \<ge> 0x30 \<and> b ! 0 \<le> 0x39 then parseUint b
      else (let neg = (b ! 0 = 0x2D) in
            if \<not> neg \<and> b ! 0 \<noteq> 0x2B then None
            else if length b = 1 then None
            else (case parseUint (drop 1 b) of
                    None \<Rightarrow> if neg \<and> drop 1 b = str ''9223372036854775808'' then Some MinInt64 else None
                  | Some n \<Rightarrow> if neg then Some (- n) else Some n)))"

definition readInt :: "int parsing" where
  "readInt = bindP readLine (\<lambda>s. case parseInt s of None \<Rightarrow> failP ErrProtocol | Some n \<Rightarrow> returnP n)"

text \<open>The bytes of a bulk string and the CRLF after them.\<close>

definition readBody :: "int \<Rightarrow> byte list parsing" where
  "readBody n r =
     (if int (length (rdBuf r)) - int (rdPos r) < n + 2 then Some (Inl ErrIncomplete, r)
      else (let k = rdPos r + nat n in
            if rdBuf r ! k \<noteq> CR \<or> rdBuf r ! (k + 1) \<noteq> LF then Some (Inl ErrProtocol, r)
            else Some (Inr (take (nat n) (drop (rdPos r) (rdBuf r))), r\<lparr>rdPos := k + 2\<rparr>)))"

definition readBulk :: "Type \<Rightarrow> 'f::zero Value parsing" where
  "readBulk ty = bindP readInt (\<lambda>n.
     if n = -1 then returnP nullValue
     else if n < 0 then failP ErrProtocol
     else if n > MaxBulkLen then failP ErrProtocolOversizedBulk
     else bindP (readBody n) (\<lambda>data. returnP (strValue ty data)))"

fun parseMany :: "'a parsing \<Rightarrow> nat \<Rightarrow> 'a list parsing" where
  "parseMany p 0 = returnP []"
| "parseMany p (Suc n) = bindP p (\<lambda>v. bindP (parseMany p n) (\<lambda>vs. returnP (v # vs)))"

fun parsePairs :: "'a parsing \<Rightarrow> nat \<Rightarrow> ('a \<times> 'a) list parsing" where
  "parsePairs p 0 = returnP []"
| "parsePairs p (Suc n) = bindP p (\<lambda>k. bindP p (\<lambda>v. bindP (parsePairs p n) (\<lambda>kvs. returnP ((k, v) # kvs))))"

definition readArray :: "'f::zero Value parsing \<Rightarrow> Type \<Rightarrow> 'f Value parsing" where
  "readArray p ty = bindP readInt (\<lambda>n.
     if n = -1 then returnP nullValue
     else if n < 0 then failP ErrProtocol
     else if n > MaxArrayLen then failP ErrProtocolOversizedArray
     else bindP (parseMany p (nat n)) (\<lambda>arr. returnP (arrayValue ty arr)))"

definition readMap :: "'f::zero Value parsing \<Rightarrow> Type \<Rightarrow> 'f Value parsing" where
  "readMap p ty = bindP readInt (\<lambda>n.
     if n = -1 then returnP nullValue
     else if n < 0 then failP ErrProtocol
     else if n > MaxArrayLen then failP ErrProtocolOversizedArray
     else bindP (parsePairs p (nat n)) (\<lambda>m. returnP (mapValue ty m)))"

text \<open>The \<^verbatim>\<open>switch\<close> of \<^verbatim>\<open>parse\<close>, with \<open>p\<close> for its recursive calls.\<close>

definition parseTag :: "(byte list \<Rightarrow> 'f::zero option) \<Rightarrow> 'f Value parsing \<Rightarrow> byte \<Rightarrow> 'f Value parsing" where
  "parseTag parseFloat p tag =
     (if tag = 0x2B then bindP readLine (\<lambda>s. returnP (strValue TySimple s))
      else if tag = 0x2D then bindP readLine (\<lambda>s. returnP (strValue TyError s))
      else if tag = 0x3A then bindP readInt (\<lambda>n. returnP (intValue n))
      else if tag = 0x24 then readBulk TyBulk
      else if tag = 0x3D then readBulk TyVerbatim
      else if tag = 0x21 then readBulk TyBlobErr
      else if tag = 0x2A then readArray p TyArray
      else if tag = 0x7E then readArray p TySet
      else if tag = 0x3E then readArray p TyPush
      else if tag = 0x25 then readMap p TyMap
      else if tag = 0x7C then readMap p TyAttr
      else if tag = 0x5F then bindP readLine (\<lambda>s. returnP nullValue)
      else if tag = 0x23 then bindP readLine (\<lambda>s.
        if length s \<noteq> 1 \<or> s ! 0 \<noteq> 0x74 \<and> s ! 0 \<noteq> 0x66 then failP ErrProtocol else returnP (boolValue (s ! 0 = 0x74)))
      else if tag = 0x2C then bindP readLine (\<lambda>s. case parseFloat s of None \<Rightarrow> failP ErrProtocol | Some f \<Rightarrow> returnP (floatValue f))
      else if tag = 0x28 then bindP readLine (\<lambda>s. returnP (bigValue s))
      else failP ErrProtocol)"

lemma const_mono: "mono_option (\<lambda>F. x)"
  by (rule monotoneI) (simp add: flat_ord_def)

lemma if_mono: "mono_option a \<Longrightarrow> mono_option b \<Longrightarrow> mono_option (\<lambda>F. if c then a F else b F)"
  by (cases c) simp_all

lemma if_app: "(if c then f else g) x = (if c then f x else g x)"
  by simp

lemma bindP_mono:
  assumes "\<And>r. mono_option (\<lambda>F. m F r)" "\<And>a r. mono_option (\<lambda>F. g F a r)"
  shows "mono_option (\<lambda>F. bindP (m F) (g F) r)"
proof (rule monotoneI)
  fix F G :: "'a \<Rightarrow> 'b option"
  assume le: "option.le_fun F G"
  have m: "option_ord (m F r) (m G r)" using assms(1) [of r] le unfolding monotone_def by blast
  have g: "option_ord (g F a r1) (g G a r1)" for a r1 using assms(2) [of a r1] le unfolding monotone_def by blast
  show "option_ord (bindP (m F) (g F) r) (bindP (m G) (g G) r)"
  proof (cases "m F r")
    case None
    then show ?thesis by (simp add: bindP_def flat_ord_def)
  next
    case (Some x)
    then have "m G r = Some x" using m by (simp add: flat_ord_def)
    then show ?thesis using Some g by (auto simp: bindP_def flat_ord_def split: sum.split prod.split)
  qed
qed

lemma parseMany_mono:
  assumes "\<And>r. mono_option (\<lambda>F. p F r)"
  shows "mono_option (\<lambda>F. parseMany (p F) n r)"
proof (induction n arbitrary: r)
  case (Suc n)
  show ?case unfolding parseMany.simps by (intro bindP_mono assms Suc.IH const_mono)
qed (simp add: const_mono)

lemma parsePairs_mono:
  assumes "\<And>r. mono_option (\<lambda>F. p F r)"
  shows "mono_option (\<lambda>F. parsePairs (p F) n r)"
proof (induction n arbitrary: r)
  case (Suc n)
  show ?case unfolding parsePairs.simps by (intro bindP_mono assms Suc.IH const_mono)
qed (simp add: const_mono)

lemma readArray_mono: "(\<And>r. mono_option (\<lambda>F. p F r)) \<Longrightarrow> mono_option (\<lambda>F. readArray (p F) ty r)"
  unfolding readArray_def by (rule bindP_mono) (auto simp: if_app intro!: const_mono if_mono bindP_mono parseMany_mono)

lemma readMap_mono: "(\<And>r. mono_option (\<lambda>F. p F r)) \<Longrightarrow> mono_option (\<lambda>F. readMap (p F) ty r)"
  unfolding readMap_def by (rule bindP_mono) (auto simp: if_app intro!: const_mono if_mono bindP_mono parsePairs_mono)

lemma parseTag_mono [partial_function_mono]:
  assumes "\<And>r. mono_option (\<lambda>F. p F r)"
  shows "mono_option (\<lambda>F. bindP readTag (\<lambda>tag. parseTag pf (p F) tag) r)"
  by (rule bindP_mono [OF const_mono]) (unfold parseTag_def if_app, intro if_mono const_mono readArray_mono readMap_mono assms)

partial_function (option) parse :: "(byte list \<Rightarrow> 'f::zero option) \<Rightarrow> 'f Value parsing" where
  "parse parseFloat r = bindP readTag (\<lambda>tag. parseTag parseFloat (\<lambda>r1. parse parseFloat r1) tag) r"

declare parse.simps [code]

definition Next :: "(byte list \<Rightarrow> 'f::zero option) \<Rightarrow> 'f Value parsing" where
  "Next parseFloat r =
     (case parse parseFloat r of
        None \<Rightarrow> None
      | Some (Inl e, r1) \<Rightarrow> Some (Inl e, if e = ErrIncomplete then r1\<lparr>rdPos := rdPos r\<rparr> else r1)
      | Some (Inr v, r1) \<Rightarrow> Some (Inr v, r1))"

subsection \<open>The writer\<close>

text \<open>\<^verbatim>\<open>strconv.AppendInt\<close> and \<^verbatim>\<open>FormatInt\<close> in base ten.\<close>

fun decimal :: "nat \<Rightarrow> byte list" where
  "decimal n = (if n < 10 then [0x30 + of_nat n] else decimal (n div 10) @ [0x30 + of_nat (n mod 10)])"

declare decimal.simps [simp del]

definition formatInt :: "int \<Rightarrow> byte list" where
  "formatInt n = (if n < 0 then 0x2D # decimal (nat (- n)) else decimal (nat n))"

type_synonym writer = "byte list"

definition appendBulk :: "gostring \<Rightarrow> writer \<Rightarrow> writer" where
  "appendBulk s w = w @ [0x24] @ formatInt (int (length s)) @ bCRLF @ s @ bCRLF"

definition AppendCommand :: "gostring list \<Rightarrow> writer \<Rightarrow> writer" where
  "AppendCommand args w = fold appendBulk args (w @ [0x2A] @ formatInt (int (length args)) @ bCRLF)"

definition AppendCommand1 :: "gostring \<Rightarrow> writer \<Rightarrow> writer" where
  "AppendCommand1 a0 w = appendBulk a0 (w @ [0x2A, 0x31, CR, LF])"

definition AppendCommand2 :: "gostring \<Rightarrow> gostring \<Rightarrow> writer \<Rightarrow> writer" where
  "AppendCommand2 a0 a1 w = appendBulk a1 (appendBulk a0 (w @ [0x2A, 0x32, CR, LF]))"

definition AppendCommand3 :: "gostring \<Rightarrow> gostring \<Rightarrow> gostring \<Rightarrow> writer \<Rightarrow> writer" where
  "AppendCommand3 a0 a1 a2 w = appendBulk a2 (appendBulk a1 (appendBulk a0 (w @ [0x2A, 0x33, CR, LF])))"

definition AppendCommand4 :: "gostring \<Rightarrow> gostring \<Rightarrow> gostring \<Rightarrow> gostring \<Rightarrow> writer \<Rightarrow> writer" where
  "AppendCommand4 a0 a1 a2 a3 w = appendBulk a3 (appendBulk a2 (appendBulk a1 (appendBulk a0 (w @ [0x2A, 0x34, CR, LF]))))"

definition AppendCommand5 :: "gostring \<Rightarrow> gostring \<Rightarrow> gostring \<Rightarrow> gostring \<Rightarrow> gostring \<Rightarrow> writer \<Rightarrow> writer" where
  "AppendCommand5 a0 a1 a2 a3 a4 w =
     appendBulk a4 (appendBulk a3 (appendBulk a2 (appendBulk a1 (appendBulk a0 (w @ [0x2A, 0x35, CR, LF])))))"

definition WriteCommand :: "gostring list \<Rightarrow> writer \<Rightarrow> writer" where
  "WriteCommand args w = AppendCommand args []"

definition WriteCommand2 :: "gostring \<Rightarrow> gostring \<Rightarrow> writer \<Rightarrow> writer" where
  "WriteCommand2 a0 a1 w = AppendCommand2 a0 a1 []"

definition WriteCommand3 :: "gostring \<Rightarrow> gostring \<Rightarrow> gostring \<Rightarrow> writer \<Rightarrow> writer" where
  "WriteCommand3 a0 a1 a2 w = AppendCommand3 a0 a1 a2 []"

text \<open>\<^verbatim>\<open>AppendCommandBytes\<close> writes out \<^verbatim>\<open>appendBulk\<close> in its loop.\<close>

definition AppendCommandBytes :: "byte list list \<Rightarrow> writer \<Rightarrow> writer" where
  "AppendCommandBytes args w =
     fold (\<lambda>a w. w @ [0x24] @ formatInt (int (length a)) @ bCRLF @ a @ bCRLF) args (w @ [0x2A] @ formatInt (int (length args)) @ bCRLF)"

definition WriteCommandBytes :: "byte list list \<Rightarrow> writer \<Rightarrow> writer" where
  "WriteCommandBytes args w = AppendCommandBytes args []"

section \<open>Parsing returns, moves forward and depends only on what it has read\<close>

definition unread :: "Reader \<Rightarrow> byte list" where
  "unread r = drop (rdPos r) (rdBuf r)"

definition posOk :: "Reader \<Rightarrow> bool" where
  "posOk r \<longleftrightarrow> rdPos r \<le> length (rdBuf r)"

definition advance :: "nat \<Rightarrow> Reader \<Rightarrow> Reader" where
  "advance k r = r\<lparr>rdPos := rdPos r + k\<rparr>"

lemma advance_0: "advance 0 r = r"
  by (simp add: advance_def)

lemma advance_advance: "advance k (advance j r) = advance (j + k) r"
  by (simp add: advance_def add.assoc)

lemma advance_inject: "advance j r = advance k r \<longleftrightarrow> j = k"
  by (cases r) (simp add: advance_def)

lemma unread_advance: "unread (advance k r) = drop k (unread r)"
  by (simp add: unread_def advance_def add.commute)

lemma posOk_advance: "posOk r \<Longrightarrow> k \<le> length (unread r) \<Longrightarrow> posOk (advance k r)"
  by (simp add: unread_def advance_def posOk_def)

lemma readTag_unread: "posOk r \<Longrightarrow> readTag r = (case unread r of [] \<Rightarrow> Some (Inl ErrIncomplete, r) | b # bs \<Rightarrow> Some (Inr b, advance 1 r))"
  by (cases "rdPos r < length (rdBuf r)") (auto simp: readTag_def unread_def advance_def posOk_def simp flip: Cons_nth_drop_Suc)

lemma readLine_unread:
  "readLine r = (case bytes_Index (unread r) bCRLF of None \<Rightarrow> Some (Inl ErrIncomplete, r) | Some i \<Rightarrow> Some (Inr (take i (unread r)), advance (i + 2) r))"
  by (simp add: readLine_def unread_def advance_def add.assoc split: option.split)

lemma readBody_unread:
  assumes "0 \<le> n" "posOk r"
  shows "readBody n r =
    (if length (unread r) < nat n + 2 then Some (Inl ErrIncomplete, r)
     else if unread r ! nat n \<noteq> CR \<or> unread r ! (nat n + 1) \<noteq> LF then Some (Inl ErrProtocol, r)
     else Some (Inr (take (nat n) (unread r)), advance (nat n + 2) r))"
proof -
  have "int (length (rdBuf r)) - int (rdPos r) < n + 2 \<longleftrightarrow> length (unread r) < nat n + 2"
    using assms unfolding posOk_def unread_def length_drop by linarith
  then show ?thesis using assms(2) by (simp add: readBody_def Let_def add.assoc unread_def advance_def posOk_def)
qed

text \<open>
  A step is good on inputs of at most \<open>N\<close> bytes if it returns, moves the cursor forward within the input, and on
  every reader whose input goes on with more bytes does the same, unless it has found the input incomplete.
\<close>

definition agreesFrom :: "'a parsing \<Rightarrow> byte list \<Rightarrow> resp_error + 'a \<Rightarrow> nat \<Rightarrow> bool" where
  "agreesFrom m b res k \<longleftrightarrow> (\<forall>r c. posOk r \<longrightarrow> unread r = b @ c \<longrightarrow> (res \<noteq> Inl ErrIncomplete \<or> c = []) \<longrightarrow> m r = Some (res, advance k r))"

definition goodUpto :: "nat \<Rightarrow> 'a parsing \<Rightarrow> bool" where
  "goodUpto N m \<longleftrightarrow> (\<forall>b. length b \<le> N \<longrightarrow> (\<exists>res k. k \<le> length b \<and> agreesFrom m b res k))"

lemma agreesFromD:
  "agreesFrom m b res k \<Longrightarrow> posOk r \<Longrightarrow> unread r = b @ c \<Longrightarrow> res \<noteq> Inl ErrIncomplete \<or> c = [] \<Longrightarrow> m r = Some (res, advance k r)"
  unfolding agreesFrom_def by blast

lemma agreesFromI:
  "(\<And>r c. posOk r \<Longrightarrow> unread r = b @ c \<Longrightarrow> res \<noteq> Inl ErrIncomplete \<or> c = [] \<Longrightarrow> m r = Some (res, advance k r)) \<Longrightarrow> agreesFrom m b res k"
  unfolding agreesFrom_def by blast

lemma goodUptoI: "(\<And>b. length b \<le> N \<Longrightarrow> \<exists>res k. k \<le> length b \<and> agreesFrom m b res k) \<Longrightarrow> goodUpto N m"
  unfolding goodUpto_def by blast

lemma goodUptoD:
  assumes "goodUpto N m" "length b \<le> N"
  obtains res k where "k \<le> length b" "agreesFrom m b res k"
  using assms unfolding goodUpto_def by blast

lemma good_const:
  assumes "\<And>r. m r = Some (res, r)"
  shows "goodUpto N m"
proof (rule goodUptoI)
  fix b
  have "agreesFrom m b res 0" by (rule agreesFromI) (simp add: assms advance_0)
  then show "\<exists>res k. k \<le> length b \<and> agreesFrom m b res k" by blast
qed

lemma good_return: "goodUpto N (returnP a)"
  by (rule good_const) (simp add: returnP_def)

lemma good_fail: "goodUpto N (failP e)"
  by (rule good_const) (simp add: failP_def)

lemma agrees_bind:
  assumes "k \<le> length b" "agreesFrom m b (Inr a) k" "agreesFrom (f a) (drop k b) res k'"
  shows "agreesFrom (bindP m f) b res (k + k')"
proof (rule agreesFromI)
  fix r c assume r: "posOk r" "unread r = b @ c" "res \<noteq> Inl ErrIncomplete \<or> c = []"
  have "m r = Some (Inr a, advance k r)" using agreesFromD [OF assms(2) r(1,2)] by simp
  moreover have "unread (advance k r) = drop k b @ c" "posOk (advance k r)" using r assms(1) by (simp_all add: unread_advance posOk_advance)
  ultimately show "bindP m f r = Some (res, advance (k + k') r)"
    using agreesFromD [OF assms(3) _ _ r(3)] by (simp add: bindP_def advance_advance)
qed

lemma good_bind:
  assumes "goodUpto N m" "\<And>a. goodUpto N (f a)"
  shows "goodUpto N (bindP m f)"
proof (rule goodUptoI)
  fix b :: "byte list" assume b: "length b \<le> N"
  obtain res k where m: "k \<le> length b" "agreesFrom m b res k" by (rule goodUptoD [OF assms(1) b])
  show "\<exists>res k. k \<le> length b \<and> agreesFrom (bindP m f) b res k"
  proof (cases res)
    case (Inl e)
    have "agreesFrom (bindP m f) b (Inl e) k"
      by (rule agreesFromI) (use agreesFromD [OF m(2)] Inl in \<open>simp add: bindP_def\<close>)
    then show ?thesis using m(1) by blast
  next
    case (Inr a)
    have "length (drop k b) \<le> N" using b by simp
    then obtain res' k' where f: "k' \<le> length (drop k b)" "agreesFrom (f a) (drop k b) res' k'" by (rule goodUptoD [OF assms(2)])
    have "k + k' \<le> length b" using m(1) f(1) by simp
    moreover have "agreesFrom (bindP m f) b res' (k + k')" using agrees_bind [of k b m a f res' k'] m f(2) Inr by simp
    ultimately show ?thesis by blast
  qed
qed

lemma agrees_readTag: "agreesFrom readTag [] (Inl ErrIncomplete) 0" "agreesFrom readTag (t # b) (Inr t) 1"
  by (rule agreesFromI, simp add: readTag_unread advance_0)+

lemma good_readLine: "goodUpto N readLine"
proof (rule goodUptoI)
  fix b :: "byte list"
  show "\<exists>res k. k \<le> length b \<and> agreesFrom readLine b res k"
  proof (cases "bytes_Index b bCRLF")
    case None
    have "agreesFrom readLine b (Inl ErrIncomplete) 0" by (rule agreesFromI) (use None in \<open>simp add: readLine_unread advance_0\<close>)
    then show ?thesis by blast
  next
    case (Some i)
    have i: "i + 2 \<le> length b" using bytes_Index_bound [OF Some] by simp
    have "agreesFrom readLine b (Inr (take i b)) (i + 2)"
      by (rule agreesFromI) (use bytes_Index_append [OF Some] i in \<open>simp add: readLine_unread\<close>)
    then show ?thesis using i by blast
  qed
qed

lemma good_readBody:
  assumes "0 \<le> n"
  shows "goodUpto N (readBody n)"
proof (rule goodUptoI)
  fix b :: "byte list"
  show "\<exists>res k. k \<le> length b \<and> agreesFrom (readBody n) b res k"
  proof (cases "length b < nat n + 2")
    case True
    have "agreesFrom (readBody n) b (Inl ErrIncomplete) 0"
      by (rule agreesFromI) (use True readBody_unread [OF assms] in \<open>simp add: advance_0\<close>)
    then show ?thesis by blast
  next
    case False
    show ?thesis
    proof (cases "b ! nat n \<noteq> CR \<or> b ! (nat n + 1) \<noteq> LF")
      case True
      have "agreesFrom (readBody n) b (Inl ErrProtocol) 0"
        by (rule agreesFromI) (use True False readBody_unread [OF assms] in \<open>auto simp: advance_0 nth_append\<close>)
      then show ?thesis by blast
    next
      case crlf: False
      have "agreesFrom (readBody n) b (Inr (take (nat n) b)) (nat n + 2)"
        by (rule agreesFromI) (use crlf False readBody_unread [OF assms] in \<open>simp add: nth_append\<close>)
      moreover have "nat n + 2 \<le> length b" using False by simp
      ultimately show ?thesis by blast
    qed
  qed
qed

lemma good_case_option: "goodUpto N a \<Longrightarrow> (\<And>x. goodUpto N (g x)) \<Longrightarrow> goodUpto N (case v of None \<Rightarrow> a | Some x \<Rightarrow> g x)"
  by (cases v) simp_all

lemma good_if: "goodUpto N a \<Longrightarrow> goodUpto N b \<Longrightarrow> goodUpto N (if c then a else b)"
  by simp

lemma good_readInt: "goodUpto N readInt"
  unfolding readInt_def by (intro good_bind good_readLine good_case_option good_fail good_return)

lemma good_readBulk: "goodUpto N (readBulk ty)"
  unfolding readBulk_def by (intro good_bind good_readInt) (auto intro!: good_fail good_return good_bind good_readBody)

lemma good_parseMany: "goodUpto N p \<Longrightarrow> goodUpto N (parseMany p n)"
  by (induction n) (simp_all add: good_return good_bind)

lemma good_parsePairs: "goodUpto N p \<Longrightarrow> goodUpto N (parsePairs p n)"
  by (induction n) (simp_all add: good_return good_bind)

lemma good_readArray: "goodUpto N p \<Longrightarrow> goodUpto N (readArray p ty)"
  unfolding readArray_def by (intro good_bind good_readInt good_if good_fail good_return good_parseMany)

lemma good_readMap: "goodUpto N p \<Longrightarrow> goodUpto N (readMap p ty)"
  unfolding readMap_def by (intro good_bind good_readInt good_if good_fail good_return good_parsePairs)

lemma good_parseTag: "goodUpto N p \<Longrightarrow> goodUpto N (parseTag pf p tag)"
  unfolding parseTag_def
  by (intro good_if good_bind good_readLine good_readInt good_readBulk good_readArray good_readMap good_return good_fail good_case_option)

text \<open>The tag is one byte, so what follows it has a shorter input.\<close>

lemma parse_tagged: "parse pf = bindP readTag (parseTag pf (parse pf))"
  by (rule ext) (subst parse.simps, rule refl)

lemma good_parse: "goodUpto N (parse pf)"
proof (induction N)
  case 0
  have "agreesFrom (parse pf) [] (Inl ErrIncomplete) 0"
    by (rule agreesFromI, subst parse_tagged) (simp add: bindP_def readTag_unread advance_0)
  then show ?case by (intro goodUptoI) auto
next
  case (Suc N)
  show ?case
  proof (rule goodUptoI)
    fix b :: "byte list" assume b: "length b \<le> Suc N"
    show "\<exists>res k. k \<le> length b \<and> agreesFrom (parse pf) b res k"
    proof (cases b)
      case Nil
      have "agreesFrom (parse pf) [] (Inl ErrIncomplete) 0"
        by (rule agreesFromI, subst parse_tagged) (simp add: bindP_def readTag_unread advance_0)
      then show ?thesis using Nil by auto
    next
      case (Cons t bs)
      obtain res k where g: "k \<le> length bs" "agreesFrom (parseTag pf (parse pf) t) bs res k"
        by (rule goodUptoD [OF good_parseTag [OF Suc, of pf t], of bs]) (use b Cons in auto)
      have "agreesFrom (parse pf) (t # bs) res (1 + k)"
        using agrees_bind [of 1 "t # bs" readTag t "parseTag pf (parse pf)" res k] agrees_readTag(2) g(2) by (subst parse_tagged) simp
      then show ?thesis using g(1) Cons by (intro exI [of _ res] exI [of _ "1 + k"]) simp
    qed
  qed
qed

lemma parse_progress:
  assumes "posOk r" "parse pf r = Some (Inr v, r')"
  shows "\<exists>k. r' = advance k r \<and> 0 < k \<and> k \<le> length (unread r)"
proof (cases "unread r")
  case Nil
  then show ?thesis using assms by (subst (asm) parse_tagged) (simp add: bindP_def readTag_unread)
next
  case (Cons t bs)
  have ok: "posOk (advance 1 r)" using assms(1) Cons by (simp add: posOk_advance)
  obtain res k where g: "k \<le> length bs" "agreesFrom (parseTag pf (parse pf) t) bs res k"
    by (rule goodUptoD [OF good_parseTag [OF good_parse [of "length bs" pf]], of bs]) auto
  have "parseTag pf (parse pf) t (advance 1 r) = Some (res, advance (1 + k) r)"
    using agreesFromD [OF g(2) ok, of "[]"] Cons by (simp add: unread_advance advance_advance)
  moreover have "parse pf r = parseTag pf (parse pf) t (advance 1 r)"
    using assms(1) Cons by (subst parse_tagged) (simp add: bindP_def readTag_unread)
  ultimately show ?thesis using assms(2) g(1) Cons by (intro exI [of _ "1 + k"]) simp
qed

section \<open>The reader is an incremental parser\<close>

definition resp_outcome :: "(byte list \<Rightarrow> 'f::zero option) \<Rightarrow> byte list \<Rightarrow> (resp_error, 'f Value) outcome" where
  "resp_outcome pf b =
     (case Next pf \<lparr>rdBuf = b, rdPos = 0\<rparr> of
        Some (Inr v, r) \<Rightarrow> Done v (rdPos r)
      | Some (Inl e, r) \<Rightarrow> if e = ErrIncomplete then More else Fail e
      | None \<Rightarrow> More)"

text \<open>What \<^verbatim>\<open>Next\<close> does depends only on the bytes from the cursor on.\<close>

lemma Next_outcome:
  assumes "posOk r"
  obtains (got) v k where "resp_outcome pf (unread r) = Done v k" "Next pf r = Some (Inr v, advance k r)" "0 < k" "k \<le> length (unread r)"
    | (failed) e k where "resp_outcome pf (unread r) = Fail e" "e \<noteq> ErrIncomplete" "Next pf r = Some (Inl e, advance k r)" "k \<le> length (unread r)"
    | (short) "resp_outcome pf (unread r) = More" "Next pf r = Some (Inl ErrIncomplete, r)"
proof -
  let ?z = "\<lparr>rdBuf = unread r, rdPos = 0\<rparr>"
  obtain res k where g: "k \<le> length (unread r)" "agreesFrom (parse pf) (unread r) res k"
    by (rule goodUptoD [OF good_parse [of "length (unread r)" pf], of "unread r"]) auto
  have z: "parse pf ?z = Some (res, advance k ?z)" using agreesFromD [OF g(2), of ?z "[]"] by (simp add: posOk_def unread_def)
  have r: "parse pf r = Some (res, advance k r)" using agreesFromD [OF g(2) assms, of "[]"] by simp
  show ?thesis
  proof (cases res)
    case (Inr v)
    have "0 < k" using parse_progress [OF assms, of pf v] r Inr g(1) by (auto simp: advance_inject)
    then show ?thesis using got [of v k] z r Inr g(1) by (simp add: resp_outcome_def Next_def advance_def)
  next
    case (Inl e)
    show ?thesis
    proof (cases "e = ErrIncomplete")
      case True
      then show ?thesis using short z r Inl by (simp add: resp_outcome_def Next_def advance_def)
    next
      case False
      then show ?thesis using failed [of e k] z r Inl g(1) by (simp add: resp_outcome_def Next_def advance_def)
    qed
  qed
qed

lemma outcome_append:
  assumes "resp_outcome pf b \<noteq> More"
  shows "resp_outcome pf (b @ c) = resp_outcome pf b"
proof -
  obtain res k where g: "k \<le> length b" "agreesFrom (parse pf) b res k"
    by (rule goodUptoD [OF good_parse [of "length b" pf], of b]) auto
  have b: "parse pf \<lparr>rdBuf = b, rdPos = 0\<rparr> = Some (res, advance k \<lparr>rdBuf = b, rdPos = 0\<rparr>)"
    using agreesFromD [OF g(2), of "\<lparr>rdBuf = b, rdPos = 0\<rparr>" "[]"] by (simp add: posOk_def unread_def)
  then have "res \<noteq> Inl ErrIncomplete" using assms by (auto simp: resp_outcome_def Next_def)
  then have "parse pf \<lparr>rdBuf = b @ c, rdPos = 0\<rparr> = Some (res, advance k \<lparr>rdBuf = b @ c, rdPos = 0\<rparr>)"
    using agreesFromD [OF g(2), of "\<lparr>rdBuf = b @ c, rdPos = 0\<rparr>" c] by (simp add: posOk_def unread_def)
  then show ?thesis using b \<open>res \<noteq> Inl ErrIncomplete\<close>
    by (cases res) (simp_all add: resp_outcome_def Next_def advance_def)
qed

lemma outcome_bound:
  assumes "resp_outcome pf b = Done v n"
  shows "0 < n \<and> n \<le> length b"
proof -
  have r: "posOk \<lparr>rdBuf = b, rdPos = 0\<rparr>" "unread \<lparr>rdBuf = b, rdPos = 0\<rparr> = b" by (simp_all add: posOk_def unread_def)
  show ?thesis using assms by (cases rule: Next_outcome [OF r(1), of pf, unfolded r(2)]) auto
qed

interpretation resp: strict_parser "resp_outcome pf" for pf :: "byte list \<Rightarrow> 'f::zero option"
proof
  fix b c :: "byte list" and v :: "'f Value" and n and e
  show "resp_outcome pf b = Done v n \<Longrightarrow> n \<le> length b" using outcome_bound by blast
  show "resp_outcome pf b = Done v n \<Longrightarrow> resp_outcome pf (b @ c) = Done v n" using outcome_append [of pf b c] by simp
  show "resp_outcome pf b = Fail e \<Longrightarrow> resp_outcome pf (b @ c) = Fail e" using outcome_append [of pf b c] by simp
qed

section \<open>Integers\<close>

lemma wrap64_above:
  assumes "2 ^ 63 \<le> x" "x < 2 ^ 64"
  shows "wrap64 x = x - 2 ^ 64"
proof -
  have "(x + 2 ^ 63) mod 2 ^ 64 = (x + 2 ^ 63 - 2 ^ 64) mod 2 ^ 64" by (simp only: minus_mod_self2)
  also have "\<dots> = x + 2 ^ 63 - 2 ^ 64" using assms by (intro mod_pos_pos_trivial) simp_all
  finally show ?thesis by (simp add: wrap64_def)
qed

lemma parseUintLoop_iff:
  assumes "0 \<le> n" "n \<le> MaxInt64"
  shows "parseUintLoop n b = Some m \<longleftrightarrow>
     list_all isDigit b \<and> m = foldl (\<lambda>n c. n * 10 + (uint c - 48)) n b \<and> m \<le> MaxInt64"
  using assms
proof (induction b arbitrary: n)
  case Nil
  then show ?case by auto
next
  case (Cons d b)
  show ?case
  proof (cases "isDigit d")
    case False
    then show ?thesis by (auto simp: isDigit_def)
  next
    case True
    let ?n = "n * 10 + (uint d - 48)"
    have d: "uint (d - 0x30) = uint d - 48" "0 \<le> uint d - 48" "uint d - 48 \<le> 9" using digit_value [OF True] by auto
    have nd: "\<not> (d < 0x30 \<or> 0x39 < d)" using True by (auto simp: isDigit_def)
    show ?thesis
    proof (cases "?n \<le> MaxInt64")
      case le: True
      then have "\<not> n > MaxInt64 div 10" "wrap64 ?n = ?n" using Cons.prems d by (auto simp: MaxInt64_def MinInt64_def intro!: wrap64_id)
      then have "parseUintLoop n (d # b) = parseUintLoop ?n b" using nd d Cons.prems by (simp add: Let_def)
      then show ?thesis using Cons.IH [of ?n] le True Cons.prems d by simp
    next
      case gt: False
      have "parseUintLoop n (d # b) = None"
      proof (cases "n > MaxInt64 div 10")
        case False
        then have "2 ^ 63 \<le> ?n" "?n < 2 ^ 64" using gt d by (auto simp: MaxInt64_def)
        then have "wrap64 ?n < 0" by (simp add: wrap64_above)
        then show ?thesis using d by (simp add: Let_def)
      qed simp
      moreover have "\<not> foldl (\<lambda>n c. n * 10 + (uint c - 48)) ?n b \<le> MaxInt64" if "list_all isDigit b"
        using foldl_dec_mono [OF that, of ?n] gt Cons.prems d by linarith
      ultimately show ?thesis by auto
    qed
  qed
qed

lemma parseUint_iff: "parseUint b = Some m \<longleftrightarrow> b \<noteq> [] \<and> list_all isDigit b \<and> m = decVal b \<and> decVal b \<le> MaxInt64"
  unfolding parseUint_def decVal_def using parseUintLoop_iff [of 0 b m] by (auto simp: MaxInt64_def)

lemma digit_byte:
  assumes "n < 10"
  shows "isDigit (0x30 + of_nat n) \<and> uint (0x30 + of_nat n :: byte) = 48 + int n"
proof -
  have "n \<in> set [0, 1, 2, 3, 4, 5, 6, 7, 8, 9]" using assms by auto
  then show ?thesis by (auto simp: isDigit_def)
qed

lemma decVal_snoc: "decVal (b @ [c]) = decVal b * 10 + (uint c - 48)"
  by (simp add: decVal_def)

lemma decimal_digits: "list_all isDigit (decimal n) \<and> decimal n \<noteq> [] \<and> decVal (decimal n) = int n"
proof (induction n rule: decimal.induct)
  case (1 n)
  show ?case
  proof (cases "n < 10")
    case True
    then show ?thesis using digit_byte [OF True] by (subst (1 2 3) decimal.simps) (simp add: decVal_def)
  next
    case False
    have m: "n mod 10 < 10" by simp
    have e: "decimal n = decimal (n div 10) @ [0x30 + of_nat (n mod 10)]" using False by (subst decimal.simps) simp
    have "decVal (decimal n) = int (n div 10) * 10 + int (n mod 10)"
      unfolding e decVal_snoc using 1 [OF False] digit_byte [OF m] by simp
    also have "\<dots> = int n" by (metis div_mult_mod_eq of_nat_add of_nat_mult of_nat_numeral)
    finally show ?thesis unfolding e using 1 [OF False] digit_byte [OF m] by simp
  qed
qed

lemma decimal_hd: "0x30 \<le> hd (decimal n) \<and> hd (decimal n) \<le> 0x39"
  using decimal_digits [of n] by (cases "decimal n") (auto simp: isDigit_def)

lemma digits_no_CR: "list_all isDigit b \<Longrightarrow> CR \<notin> set b"
  by (auto simp: list_all_iff isDigit_def)

lemma formatInt_no_CR: "CR \<notin> set (formatInt n)"
  using digits_no_CR decimal_digits by (auto simp: formatInt_def)

lemma decimal_9223372036854775808: "decimal 9223372036854775808 = str ''9223372036854775808''"
  by (simp add: decimal.simps str_simps)

text \<open>Every 64-bit integer is read back as it is written.\<close>

lemma parseInt_formatInt:
  assumes "MinInt64 \<le> n" "n \<le> MaxInt64"
  shows "parseInt (formatInt n) = Some n"
proof (cases "n < 0")
  case False
  have u: "parseUint (decimal (nat n)) = Some n" using decimal_digits [of "nat n"] False assms(2) by (simp add: parseUint_iff)
  have "decimal (nat n) ! 0 \<ge> 0x30 \<and> decimal (nat n) ! 0 \<le> 0x39" using decimal_hd [of "nat n"] decimal_digits [of "nat n"] by (simp add: hd_conv_nth)
  then show ?thesis using u False decimal_digits [of "nat n"] by (simp add: parseInt_def formatInt_def)
next
  case True
  let ?d = "decimal (nat (- n))"
  have ne: "?d \<noteq> []" using decimal_digits by blast
  have e: "parseInt (formatInt n) = (case parseUint ?d of None \<Rightarrow> if ?d = str ''9223372036854775808'' then Some MinInt64 else None | Some m \<Rightarrow> Some (- m))"
    using True ne by (simp add: parseInt_def formatInt_def split: option.split)
  show ?thesis
  proof (cases "n = MinInt64")
    case min: True
    then have "nat (- n) = 9223372036854775808" by (simp add: MinInt64_def)
    moreover have "parseUint ?d = None"
    proof (rule ccontr)
      assume "parseUint ?d \<noteq> None"
      then obtain m where "parseUint ?d = Some m" by blast
      then show False using decimal_digits [of "nat (- n)"] min by (simp add: parseUint_iff MinInt64_def MaxInt64_def)
    qed
    ultimately show ?thesis using e min decimal_9223372036854775808 by simp
  next
    case False
    then have "- n \<le> MaxInt64" using assms(1) by (simp add: MinInt64_def MaxInt64_def)
    then have "parseUint ?d = Some (- n)" using decimal_digits [of "nat (- n)"] True by (simp add: parseUint_iff)
    then show ?thesis using e by simp
  qed
qed

section \<open>Encodings of values\<close>

text \<open>
  The encoding of a value that RESP3 prescribes. \<open>fmt\<close> writes a double; a value is well-formed when its fields are
  those the parser sets for its type and its strings and lengths are within the limits of the protocol.
\<close>

fun tagOf :: "Type \<Rightarrow> byte" where
  "tagOf TySimple = 0x2B" | "tagOf TyError = 0x2D" | "tagOf TyInt = 0x3A" | "tagOf TyBulk = 0x24" | "tagOf TyArray = 0x2A"
| "tagOf TyNull = 0x5F" | "tagOf TyBool = 0x23" | "tagOf TyDouble = 0x2C" | "tagOf TyBigInt = 0x28" | "tagOf TyBlobErr = 0x21"
| "tagOf TyVerbatim = 0x3D" | "tagOf TySet = 0x7E" | "tagOf TyMap = 0x25" | "tagOf TyAttr = 0x7C" | "tagOf TyPush = 0x3E"

fun encodeValue :: "('f \<Rightarrow> byte list) \<Rightarrow> 'f Value \<Rightarrow> byte list" where
  "encodeValue fmt (Value ty s n f b g arr m pa pm) = tagOf ty #
     (case ty of
        TySimple \<Rightarrow> s @ bCRLF
      | TyError \<Rightarrow> s @ bCRLF
      | TyInt \<Rightarrow> formatInt n @ bCRLF
      | TyBulk \<Rightarrow> formatInt (int (length s)) @ bCRLF @ s @ bCRLF
      | TyVerbatim \<Rightarrow> formatInt (int (length s)) @ bCRLF @ s @ bCRLF
      | TyBlobErr \<Rightarrow> formatInt (int (length s)) @ bCRLF @ s @ bCRLF
      | TyNull \<Rightarrow> bCRLF
      | TyBool \<Rightarrow> (if b then 0x74 else 0x66) # bCRLF
      | TyDouble \<Rightarrow> fmt f @ bCRLF
      | TyBigInt \<Rightarrow> g @ bCRLF
      | TyMap \<Rightarrow> formatInt (int (length m)) @ bCRLF @ concat (map (\<lambda>(k, v). encodeValue fmt k @ encodeValue fmt v) m)
      | TyAttr \<Rightarrow> formatInt (int (length m)) @ bCRLF @ concat (map (\<lambda>(k, v). encodeValue fmt k @ encodeValue fmt v) m)
      | _ \<Rightarrow> formatInt (int (length arr)) @ bCRLF @ concat (map (encodeValue fmt) arr))"

fun wfValue :: "(byte list \<Rightarrow> 'f::zero option) \<Rightarrow> ('f \<Rightarrow> byte list) \<Rightarrow> 'f Value \<Rightarrow> bool" where
  "wfValue pf fmt (Value ty s n f b g arr m pa pm) =
     (case ty of
        TyInt \<Rightarrow> Value ty s n f b g arr m pa pm = intValue n \<and> MinInt64 \<le> n \<and> n \<le> MaxInt64
      | TyNull \<Rightarrow> Value ty s n f b g arr m pa pm = nullValue
      | TyBool \<Rightarrow> Value ty s n f b g arr m pa pm = boolValue b
      | TyDouble \<Rightarrow> Value ty s n f b g arr m pa pm = floatValue f \<and> CR \<notin> set (fmt f) \<and> pf (fmt f) = Some f
      | TyBigInt \<Rightarrow> Value ty s n f b g arr m pa pm = bigValue g \<and> CR \<notin> set g
      | _ \<Rightarrow>
          if ty \<in> {TySimple, TyError} then Value ty s n f b g arr m pa pm = strValue ty s \<and> CR \<notin> set s
          else if ty \<in> {TyBulk, TyVerbatim, TyBlobErr} then Value ty s n f b g arr m pa pm = strValue ty s \<and> int (length s) \<le> MaxBulkLen
          else if ty \<in> {TyMap, TyAttr} then
            Value ty s n f b g arr m pa pm = mapValue ty m \<and> int (length m) \<le> MaxArrayLen
            \<and> list_all (\<lambda>(k, v). wfValue pf fmt k \<and> wfValue pf fmt v) m
          else Value ty s n f b g arr m pa pm = arrayValue ty arr \<and> int (length arr) \<le> MaxArrayLen \<and> list_all (wfValue pf fmt) arr)"

text \<open>A step reads \<open>b\<close>: whatever follows, it returns \<open>a\<close> and consumes exactly \<open>b\<close>.\<close>

definition reads :: "'a parsing \<Rightarrow> byte list \<Rightarrow> 'a \<Rightarrow> bool" where
  "reads m b a \<longleftrightarrow> agreesFrom m b (Inr a) (length b)"

lemma readsI: "(\<And>r c. posOk r \<Longrightarrow> unread r = b @ c \<Longrightarrow> m r = Some (Inr a, advance (length b) r)) \<Longrightarrow> reads m b a"
  unfolding reads_def by (rule agreesFromI) blast

lemma reads_return: "reads (returnP a) [] a"
  by (rule readsI) (simp add: returnP_def advance_0)

lemma reads_bind: "reads m b a \<Longrightarrow> reads (f a) b' a' \<Longrightarrow> reads (bindP m f) (b @ b') a'"
  unfolding reads_def
  by (rule agreesFromI) (simp add: agreesFromD bindP_def unread_advance posOk_advance advance_advance)

lemma reads_bind_return: "reads m b a \<Longrightarrow> reads (bindP m (\<lambda>x. returnP (f x))) b (f a)"
  using reads_bind [of m b a "\<lambda>x. returnP (f x)" "[]" "f a"] reads_return [of "f a"] by simp

lemma reads_readLine: "CR \<notin> set s \<Longrightarrow> reads readLine (s @ bCRLF) s"
  by (rule readsI) (simp add: readLine_unread bytes_Index_CRLF_first)

lemma reads_readInt: "MinInt64 \<le> n \<Longrightarrow> n \<le> MaxInt64 \<Longrightarrow> reads readInt (formatInt n @ bCRLF) n"
  unfolding readInt_def
  by (rule reads_bind [where b' = "[]" and a = "formatInt n", simplified])
    (simp_all add: reads_readLine formatInt_no_CR parseInt_formatInt reads_return)

lemma reads_int_bind: "MinInt64 \<le> n \<Longrightarrow> n \<le> MaxInt64 \<Longrightarrow> reads (f n) b a \<Longrightarrow> reads (bindP readInt f) (formatInt n @ bCRLF @ b) a"
  using reads_bind [OF reads_readInt, of n f b a] by simp

lemma reads_readBody: "reads (readBody (int (length s))) (s @ bCRLF) s"
  by (rule readsI) (simp add: readBody_unread nth_append)

lemma reads_if: "\<not> c \<Longrightarrow> reads b x a \<Longrightarrow> reads (if c then m else b) x a"
  by simp

lemma len_int: "MinInt64 \<le> int k" "int k \<le> MaxArrayLen \<Longrightarrow> int k \<le> MaxInt64" "int k \<le> MaxBulkLen \<Longrightarrow> int k \<le> MaxInt64"
  by (simp_all add: MinInt64_def MaxInt64_def MaxArrayLen_def MaxBulkLen_def)

lemma reads_readBulk:
  assumes "int (length s) \<le> MaxBulkLen"
  shows "reads (readBulk ty) (formatInt (int (length s)) @ bCRLF @ s @ bCRLF) (strValue ty s)"
proof -
  have "reads (bindP (readBody (int (length s))) (\<lambda>data. returnP (strValue ty data))) (s @ bCRLF) (strValue ty s)"
    by (rule reads_bind_return [OF reads_readBody])
  then show ?thesis unfolding readBulk_def
    by (intro reads_int_bind) (use len_int(1,3) [of "length s"] assms in simp_all)
qed

lemma reads_parseMany:
  "list_all (\<lambda>v. reads p (enc v) v) vs \<Longrightarrow> reads (parseMany p (length vs)) (concat (map enc vs)) vs"
proof (induction vs)
  case (Cons v vs)
  have "reads (bindP (parseMany p (length vs)) (\<lambda>vs. returnP (v # vs))) (concat (map enc vs)) (v # vs)"
    using Cons by (intro reads_bind_return) simp
  then show ?case using Cons.prems by (auto intro: reads_bind)
qed (simp add: reads_return)

lemma reads_parsePairs:
  "list_all (\<lambda>(k, v). reads p (enc k) k \<and> reads p (enc v) v) m \<Longrightarrow>
    reads (parsePairs p (length m)) (concat (map (\<lambda>(k, v). enc k @ enc v) m)) m"
proof (induction m)
  case (Cons kv m)
  obtain k v where kv: "kv = (k, v)" by (cases kv)
  have "reads (bindP (parsePairs p (length m)) (\<lambda>kvs. returnP ((k, v) # kvs))) (concat (map (\<lambda>(k, v). enc k @ enc v) m)) ((k, v) # m)"
    using Cons by (intro reads_bind_return) simp
  then show ?case using Cons.prems kv by (auto intro!: reads_bind)
qed (simp add: reads_return)

lemma reads_readArray:
  assumes "int (length vs) \<le> MaxArrayLen" "list_all (\<lambda>v. reads p (enc v) v) vs"
  shows "reads (readArray p ty) (formatInt (int (length vs)) @ bCRLF @ concat (map enc vs)) (arrayValue ty vs)"
proof -
  have "reads (bindP (parseMany p (nat (int (length vs)))) (\<lambda>arr. returnP (arrayValue ty arr))) (concat (map enc vs)) (arrayValue ty vs)"
    using reads_bind_return [OF reads_parseMany [OF assms(2)]] by simp
  then show ?thesis unfolding readArray_def
    by (intro reads_int_bind) (use len_int(1,2) [of "length vs"] assms(1) in simp_all)
qed

lemma reads_readMap:
  assumes "int (length m) \<le> MaxArrayLen" "list_all (\<lambda>(k, v). reads p (enc k) k \<and> reads p (enc v) v) m"
  shows "reads (readMap p ty) (formatInt (int (length m)) @ bCRLF @ concat (map (\<lambda>(k, v). enc k @ enc v) m)) (mapValue ty m)"
proof -
  have "reads (bindP (parsePairs p (nat (int (length m)))) (\<lambda>m. returnP (mapValue ty m))) (concat (map (\<lambda>(k, v). enc k @ enc v) m)) (mapValue ty m)"
    using reads_bind_return [OF reads_parsePairs [OF assms(2)]] by simp
  then show ?thesis unfolding readMap_def
    by (intro reads_int_bind) (use len_int(1,2) [of "length m"] assms(1) in simp_all)
qed

lemma reads_parse:
  assumes "reads (parseTag pf (parse pf) t) b v"
  shows "reads (parse pf) (t # b) v"
  using reads_bind [of readTag "[t]" t "parseTag pf (parse pf)" b v] assms agrees_readTag(2) [of t "[]"]
  by (subst parse_tagged) (simp add: reads_def)

lemma reads_value: "wfValue pf fmt v \<Longrightarrow> reads (parse pf) (encodeValue fmt v) v"
proof (induction v)
  case (Value ty s n f b g arr m pa pm)
  have arr: "list_all (\<lambda>v. reads (parse pf) (encodeValue fmt v) v) arr" if "list_all (wfValue pf fmt) arr"
    using Value.IH(1) that by (auto simp: list_all_iff)
  have m: "list_all (\<lambda>(k, v). reads (parse pf) (encodeValue fmt k) k \<and> reads (parse pf) (encodeValue fmt v) v) m"
    if "list_all (\<lambda>(k, v). wfValue pf fmt k \<and> wfValue pf fmt v) m"
    using Value.IH(2,3) that by (fastforce simp: list_all_iff)
  define W where "W = Value ty s n f b g arr m pa pm"
  note w = Value.prems [unfolded wfValue.simps, folded W_def]
  have "reads (parseTag pf (parse pf) (tagOf ty)) (tl (encodeValue fmt (Value ty s n f b g arr m pa pm))) W"
  proof (cases ty)
    case TyNull
    then show ?thesis using w reads_bind_return [OF reads_readLine [of "[]"], of "\<lambda>_. nullValue"] by (simp add: parseTag_def)
  next
    case TyBool
    let ?s = "[if b then 0x74 else 0x66 :: byte]"
    have "reads (bindP readLine (\<lambda>s. if length s \<noteq> 1 \<or> s ! 0 \<noteq> 0x74 \<and> s ! 0 \<noteq> 0x66 then failP ErrProtocol else returnP (boolValue (s ! 0 = 0x74))))
      ((?s @ bCRLF) @ []) (boolValue b)"
      by (rule reads_bind [OF reads_readLine]) (simp_all add: reads_return)
    then show ?thesis using w TyBool by (simp add: parseTag_def)
  next
    case TyDouble
    have "reads (bindP readLine (\<lambda>s. case pf s of None \<Rightarrow> failP ErrProtocol | Some f \<Rightarrow> returnP (floatValue f))) ((fmt f @ bCRLF) @ []) (floatValue f)"
      by (rule reads_bind [OF reads_readLine]) (use w TyDouble in \<open>simp_all add: reads_return\<close>)
    then show ?thesis using w TyDouble by (simp add: parseTag_def)
  next
    case TyInt
    then show ?thesis using w reads_bind_return [OF reads_readInt [of n], of intValue] by (simp add: parseTag_def)
  next
    case TyBigInt
    then show ?thesis using w reads_bind_return [OF reads_readLine [of g], of bigValue] by (simp add: parseTag_def)
  next
    case TySimple
    then show ?thesis using w reads_bind_return [OF reads_readLine [of s], of "strValue TySimple"] by (simp add: parseTag_def)
  next
    case TyError
    then show ?thesis using w reads_bind_return [OF reads_readLine [of s], of "strValue TyError"] by (simp add: parseTag_def)
  next
    case TyMap
    then show ?thesis using w reads_readMap [OF _ m] by (simp add: parseTag_def)
  next
    case TyAttr
    then show ?thesis using w reads_readMap [OF _ m] by (simp add: parseTag_def)
  qed (use w reads_readBulk [of s] reads_readArray [OF _ arr] in \<open>simp_all add: parseTag_def\<close>)
  then show ?case using reads_parse [of pf "tagOf ty" _ W] by (simp add: W_def)
qed

lemma reads_outcome:
  assumes "reads (parse pf) b v"
  shows "resp_outcome pf (b @ c) = Done v (length b)"
  using agreesFromD [OF assms [unfolded reads_def], of "\<lparr>rdBuf = b @ c, rdPos = 0\<rparr>" c]
  by (simp add: resp_outcome_def Next_def posOk_def unread_def advance_def)

interpretation respFrames: framing "resp_outcome pf" "encodeValue fmt" "wfValue pf fmt" id
  for pf :: "byte list \<Rightarrow> 'f::zero option" and fmt :: "'f \<Rightarrow> byte list"
proof
  fix v :: "'f Value" and c
  assume w: "wfValue pf fmt v"
  show "resp_outcome pf (encodeValue fmt v @ c) = Done (id v) (length (encodeValue fmt v))" using reads_outcome [OF reads_value [OF w]] by simp
  show "encodeValue fmt v \<noteq> []" by (cases v) simp
qed

lemma outcome_Nil:
  fixes pf :: "byte list \<Rightarrow> 'f::zero option"
  shows "resp_outcome pf [] = More"
proof (cases "resp_outcome pf []")
  case (Fail e)
  have "wfValue pf (\<lambda>_. []) nullValue" by (simp add: nullValue_def)
  then have "resp_outcome pf ([] @ encodeValue (\<lambda>_. []) (nullValue :: 'f Value)) = Done nullValue (length (encodeValue (\<lambda>_. []) (nullValue :: 'f Value)))"
    using respFrames.read_back [of pf "\<lambda>_. []" nullValue "[]"] by simp
  then show ?thesis using outcome_append [of pf "[]"] Fail by simp
qed (use outcome_bound [of pf "[]"] in auto)

lemma drain_encoded:
  assumes "list_all (wfValue pf fmt) vs"
  shows "drain (resp_outcome pf) (concat (map (encodeValue fmt) vs)) = (vs, None, [])"
  using respFrames.drain_written [of vs pf fmt "[]"] assms by (simp add: list_all_iff drain.simps [of "resp_outcome pf" "[]"] outcome_Nil)

section \<open>Commands\<close>

lemma appendBulk_append: "fold appendBulk args w = w @ concat (map (\<lambda>a. [0x24] @ formatInt (int (length a)) @ bCRLF @ a @ bCRLF) args)"
  by (induction args arbitrary: w) (simp_all add: appendBulk_def)

lemma AppendCommand_encodes: "AppendCommand args w = w @ encodeValue fmt (arrayValue TyArray (map (strValue TyBulk) args))"
  by (simp add: AppendCommand_def appendBulk_append arrayValue_def strValue_def comp_def)

lemma formatInt_digit:
  "formatInt 1 = [0x31]" "formatInt 2 = [0x32]" "formatInt 3 = [0x33]" "formatInt 4 = [0x34]" "formatInt 5 = [0x35]"
  by (simp_all add: formatInt_def decimal.simps)

lemma fixed_arity_commands:
  "AppendCommand1 a0 w = AppendCommand [a0] w" "AppendCommand2 a0 a1 w = AppendCommand [a0, a1] w"
  "AppendCommand3 a0 a1 a2 w = AppendCommand [a0, a1, a2] w" "AppendCommand4 a0 a1 a2 a3 w = AppendCommand [a0, a1, a2, a3] w"
  "AppendCommand5 a0 a1 a2 a3 a4 w = AppendCommand [a0, a1, a2, a3, a4] w" "AppendCommandBytes args w = AppendCommand args w"
  by (simp_all add: AppendCommand_def AppendCommand1_def AppendCommand2_def AppendCommand3_def AppendCommand4_def AppendCommand5_def
      AppendCommandBytes_def appendBulk_def [abs_def] formatInt_digit)

definition commandOk :: "gostring list \<Rightarrow> bool" where
  "commandOk args \<longleftrightarrow> int (length args) \<le> MaxArrayLen \<and> list_all (\<lambda>a. int (length a) \<le> MaxBulkLen) args"

lemma command_wf: "commandOk args \<Longrightarrow> wfValue pf fmt (arrayValue TyArray (map (strValue TyBulk) args))"
  by (simp add: commandOk_def arrayValue_def strValue_def list_all_iff)

text \<open>
  C11. Commands cannot be confused. Commands appended one after the other to any buffer, whatever bytes their
  arguments hold, are read back by the reader as exactly those commands, arrays of their arguments in
  order, with nothing left over; and the variants for a fixed number of arguments write the same bytes as
  the general one.
\<close>

theorem command_roundtrip:
  fixes pf :: "byte list \<Rightarrow> 'f::zero option"
  assumes "list_all commandOk cmds"
  shows "drain (resp_outcome pf) (fold AppendCommand cmds []) = (map (\<lambda>args. arrayValue TyArray (map (strValue TyBulk) args)) cmds, None, [])
    \<and> AppendCommand1 a0 w = AppendCommand [a0] w \<and> AppendCommand2 a0 a1 w = AppendCommand [a0, a1] w
    \<and> AppendCommand3 a0 a1 a2 w = AppendCommand [a0, a1, a2] w \<and> AppendCommand4 a0 a1 a2 a3 w = AppendCommand [a0, a1, a2, a3] w
    \<and> AppendCommand5 a0 a1 a2 a3 a4 w = AppendCommand [a0, a1, a2, a3, a4] w \<and> AppendCommandBytes args w = AppendCommand args w"
proof -
  let ?fmt = "\<lambda>_::'f. []" and ?v = "\<lambda>args. arrayValue TyArray (map (strValue TyBulk) args) :: 'f Value"
  have f: "fold AppendCommand cmds w = w @ concat (map (encodeValue ?fmt) (map ?v cmds))" for w
    by (induction cmds arbitrary: w) (simp_all add: AppendCommand_encodes [where fmt = ?fmt])
  have "drain (resp_outcome pf) (concat (map (encodeValue ?fmt) (map ?v cmds))) = (map ?v cmds, None, [])"
    by (rule drain_encoded) (use assms command_wf in \<open>auto simp: list_all_iff\<close>)
  then show ?thesis using f [of "[]"] fixed_arity_commands by simp
qed

theorem command_roundtrip_witness:
  "drain (resp_outcome (\<lambda>_. None :: int option)) (AppendCommand [str ''GET'', [0x0D, 0x0A]] (AppendCommand2 (str ''DEL'') [] []))
   = ([arrayValue TyArray [strValue TyBulk (str ''DEL''), strValue TyBulk []], arrayValue TyArray [strValue TyBulk (str ''GET''), strValue TyBulk [0x0D, 0x0A]]], None, [])"
  using command_roundtrip [of "[[str ''DEL'', []], [str ''GET'', [0x0D, 0x0A]]]" "\<lambda>_. None :: int option" "str ''DEL''" "[]" "[]"]
  by (simp add: commandOk_def MaxArrayLen_def MaxBulkLen_def str_def)

end
