(* ===== verification/Redis_Bridge.thy ===== *)
theory Redis_Bridge
  imports Prelude
begin

unbundle bit_operations_syntax

text \<open>
  The queue of requests that wait for a reply (\<^verbatim>\<open>driver/internal/async/bridge.go\<close>): a ring buffer whose capacity is a
  power of two. The operations run under the mutex of the bridge, so each of them is a step. A queue
  interface states what the drivers rely on; the ring buffer implements it.
\<close>

section \<open>Definitions\<close>

text \<open>A slot that holds no request is \<open>None\<close> (Go: \<^verbatim>\<open>nil\<close>).\<close>

record 'a Bridge =
  ring :: "'a option list"
  qmask :: nat
  qhead :: nat
  qsize :: nat

definition NewBridge :: "'a Bridge" where
  "NewBridge = \<lparr>ring = replicate 16 None, qmask = 15, qhead = 0, qsize = 0\<rparr>"

text \<open>The slot of the \<open>i\<close>-th live entry.\<close>

definition slot :: "'a Bridge \<Rightarrow> nat \<Rightarrow> nat" where
  "slot b i = (qhead b + i) AND qmask b"

definition grow :: "'a Bridge \<Rightarrow> 'a Bridge" where
  "grow b =
     (let n0 = length (ring b) * 2; n = (if n0 = 0 then 16 else n0) in
      \<lparr>ring = map (\<lambda>i. ring b ! slot b i) [0..<qsize b] @ replicate (n - qsize b) None, qmask = n - 1, qhead = 0, qsize = qsize b\<rparr>)"

definition Enqueue :: "'a \<Rightarrow> 'a Bridge \<Rightarrow> 'a Bridge" where
  "Enqueue req b0 =
     (let b = (if qsize b0 = length (ring b0) then grow b0 else b0) in
      b\<lparr>ring := (ring b)[slot b (qsize b) := Some req], qsize := qsize b + 1\<rparr>)"

definition Head :: "'a Bridge \<Rightarrow> 'a option" where
  "Head b = (if qsize b = 0 then None else ring b ! qhead b)"

definition Pop :: "'a Bridge \<Rightarrow> 'a option \<times> 'a Bridge" where
  "Pop b =
     (if qsize b = 0 then (None, b)
      else (ring b ! qhead b, b\<lparr>ring := (ring b)[qhead b := None], qhead := (qhead b + 1) AND qmask b, qsize := qsize b - 1\<rparr>))"

definition PopTail :: "'a Bridge \<Rightarrow> 'a option \<times> 'a Bridge" where
  "PopTail b =
     (if qsize b = 0 then (None, b)
      else (let idx = (qhead b + qsize b - 1) AND qmask b in
            (ring b ! idx, b\<lparr>ring := (ring b)[idx := None], qsize := qsize b - 1\<rparr>)))"

definition Len :: "'a Bridge \<Rightarrow> nat" where
  "Len b = qsize b"

text \<open>The loop of \<^verbatim>\<open>takeAll\<close> from index \<open>i\<close> with \<open>k\<close> entries to go.\<close>

fun takeLoop :: "nat \<Rightarrow> nat \<Rightarrow> 'a Bridge \<Rightarrow> 'a option list \<times> 'a Bridge" where
  "takeLoop i 0 b = ([], b)"
| "takeLoop i (Suc k) b =
     (let idx = slot b i; (rest, b') = takeLoop (i + 1) k (b\<lparr>ring := (ring b)[idx := None]\<rparr>) in (ring b ! idx # rest, b'))"

definition takeAll :: "'a Bridge \<Rightarrow> 'a option list \<times> 'a Bridge" where
  "takeAll b = (case takeLoop 0 (qsize b) b of (drained, b') \<Rightarrow> (drained, b'\<lparr>qhead := 0, qsize := 0\<rparr>))"

text \<open>\<^verbatim>\<open>DrainWithError\<close>: \<open>notify\<close> runs on the state of the caller for every request taken, in queue order.\<close>

fun notifyAll :: "('a \<Rightarrow> 's \<Rightarrow> 's) \<Rightarrow> 'a option list \<Rightarrow> 's \<Rightarrow> 's" where
  "notifyAll notify [] s = s"
| "notifyAll notify (None # rs) s = notifyAll notify rs s"
| "notifyAll notify (Some r # rs) s = notifyAll notify rs (notify r s)"

definition DrainWithError :: "('a \<Rightarrow> 's \<Rightarrow> 's) \<Rightarrow> 'a Bridge \<Rightarrow> 's \<Rightarrow> 's \<times> 'a Bridge" where
  "DrainWithError notify b s = (case takeAll b of (drained, b') \<Rightarrow> (notifyAll notify drained s, b'))"

section \<open>The queue interface\<close>

locale request_queue =
  fixes ok :: "'b \<Rightarrow> bool" and entries :: "'b \<Rightarrow> 'a list"
    and new :: 'b and enq :: "'a \<Rightarrow> 'b \<Rightarrow> 'b" and pop :: "'b \<Rightarrow> 'a option \<times> 'b"
  assumes new_ok: "ok new" "entries new = []"
    and enq_ok: "ok b \<Longrightarrow> ok (enq r b)" "ok b \<Longrightarrow> entries (enq r b) = entries b @ [r]"
    and pop_ok: "ok b \<Longrightarrow> ok (snd (pop b))"
    and pop_entries: "ok b \<Longrightarrow> pop b = (case entries b of [] \<Rightarrow> (None, b) | r # rs \<Rightarrow> (Some r, snd (pop b)))"
      "ok b \<Longrightarrow> entries (snd (pop b)) = tl (entries b)"
begin

lemma enq_all: "ok b \<Longrightarrow> ok (fold enq rs b) \<and> entries (fold enq rs b) = entries b @ rs"
  by (induction rs arbitrary: b) (auto simp: enq_ok)

lemma pop_Nil: "ok b \<Longrightarrow> entries b = [] \<Longrightarrow> pop b = (None, b)"
  using pop_entries(1) [of b] by simp

lemma pop_Cons:
  assumes "ok b" "entries b = r # rs"
  obtains b' where "pop b = (Some r, b')" "ok b'" "entries b' = rs"
  using pop_entries [OF assms(1)] pop_ok [OF assms(1)] assms(2) by fastforce

end

section \<open>The ring buffer is a queue\<close>

definition bridgeOk :: "'a Bridge \<Rightarrow> bool" where
  "bridgeOk b \<longleftrightarrow> (\<exists>k. length (ring b) = 2 ^ k \<and> qmask b = 2 ^ k - 1) \<and> qhead b < length (ring b) \<and> qsize b \<le> length (ring b)
     \<and> (\<forall>i < qsize b. ring b ! ((qhead b + i) mod length (ring b)) \<noteq> None)"

definition entriesOf :: "'a Bridge \<Rightarrow> 'a list" where
  "entriesOf b = map (\<lambda>i. the (ring b ! ((qhead b + i) mod length (ring b)))) [0..<qsize b]"

lemma and_ring:
  assumes "bridgeOk b"
  shows "x AND qmask b = x mod length (ring b)"
proof -
  obtain k where k: "length (ring b) = 2 ^ k" "qmask b = 2 ^ k - 1" using assms unfolding bridgeOk_def by blast
  have "x AND (2 ^ k - 1) = take_bit k x" by (simp only: take_bit_eq_mask mask_eq_exp_minus_1)
  then show ?thesis using k by (simp add: take_bit_eq_mod)
qed

lemma slot_mod: "bridgeOk b \<Longrightarrow> slot b i = (qhead b + i) mod length (ring b)"
  by (simp add: slot_def and_ring)

lemma ring_nonempty: "bridgeOk b \<Longrightarrow> 0 < length (ring b)"
  by (auto simp: bridgeOk_def)

text \<open>Two live entries have different slots.\<close>

lemma slots_less:
  assumes "i < j" "j < n"
  shows "(h + i) mod n \<noteq> (h + j) mod (n::nat)"
proof
  assume "(h + i) mod n = (h + j) mod n"
  then have "n dvd (h + j) - (h + i)" using assms(1) by (metis mod_eq_dvd_iff_nat add_le_cancel_left less_imp_le)
  then have "n dvd j - i" by simp
  then show False using assms by (auto dest: dvd_imp_le)
qed

lemma slots_differ: "i < n \<Longrightarrow> j < n \<Longrightarrow> i \<noteq> j \<Longrightarrow> (h + i) mod n \<noteq> (h + j) mod (n::nat)"
  using slots_less [of i j n h] slots_less [of j i n h] by fastforce

lemma entriesOf_nth: "i < qsize b \<Longrightarrow> entriesOf b ! i = the (ring b ! ((qhead b + i) mod length (ring b)))"
  by (simp add: entriesOf_def)

lemma length_entriesOf: "length (entriesOf b) = qsize b"
  by (simp add: entriesOf_def)

lemma NewBridge_ok: "bridgeOk NewBridge" "entriesOf NewBridge = []"
  by (auto simp: bridgeOk_def NewBridge_def entriesOf_def intro: exI [of _ 4])

lemma grow_ok:
  assumes "bridgeOk b" "qsize b = length (ring b)"
  shows "bridgeOk (grow b)" "entriesOf (grow b) = entriesOf b" "qsize (grow b) < length (ring (grow b))"
proof -
  obtain k where k: "length (ring b) = 2 ^ k" using assms(1) unfolding bridgeOk_def by blast
  have n: "length (ring b) * 2 = 2 ^ Suc k" using k by simp
  have r: "ring (grow b) = map (\<lambda>i. ring b ! ((qhead b + i) mod length (ring b))) [0..<qsize b] @ replicate (2 ^ Suc k - qsize b) None"
    "qmask (grow b) = 2 ^ Suc k - 1" "qhead (grow b) = 0" "qsize (grow b) = qsize b"
    using n assms by (simp_all add: grow_def Let_def slot_mod)
  have l: "length (ring (grow b)) = 2 ^ Suc k" using assms(2) k r(1) by simp
  show "qsize (grow b) < length (ring (grow b))" using l assms(2) k r(4) by simp
  have e: "ring (grow b) ! ((qhead (grow b) + i) mod length (ring (grow b))) = ring b ! ((qhead b + i) mod length (ring b))" if "i < qsize b" for i
    using that l assms(2) k r by (simp add: nth_append)
  show "bridgeOk (grow b)" unfolding bridgeOk_def using l e r assms k by (auto simp: bridgeOk_def intro: exI [of _ "Suc k"])
  show "entriesOf (grow b) = entriesOf b" using e r(4) by (simp add: entriesOf_def)
qed

lemma put_ok:
  fixes r :: 'a
  assumes "bridgeOk b" "qsize b < length (ring b)"
  defines "b' \<equiv> b\<lparr>ring := (ring b)[(qhead b + qsize b) mod length (ring b) := Some r], qsize := qsize b + 1\<rparr>"
  shows "bridgeOk b'" "entriesOf b' = entriesOf b @ [r]"
proof -
  let ?n = "length (ring b)"
  have l: "length (ring b') = ?n" "qhead b' = qhead b" "qsize b' = qsize b + 1" by (simp_all add: b'_def)
  have old: "ring b' ! ((qhead b + i) mod ?n) = ring b ! ((qhead b + i) mod ?n)" if "i < qsize b" for i
    using slots_differ [of i ?n "qsize b" "qhead b"] that assms(2) by (simp add: b'_def)
  have new: "ring b' ! ((qhead b + qsize b) mod ?n) = Some r" using ring_nonempty [OF assms(1)] by (simp add: b'_def)
  have "ring b' ! ((qhead b + i) mod ?n) \<noteq> None" if "i < qsize b + 1" for i
    using old [of i] new that assms(1) by (cases "i = qsize b") (auto simp: bridgeOk_def)
  then show "bridgeOk b'" using assms(1,2) l by (auto simp: bridgeOk_def b'_def)
  show "entriesOf b' = entriesOf b @ [r]" using old new l by (simp add: entriesOf_def)
qed

lemma Enqueue_ok:
  assumes "bridgeOk b"
  shows "bridgeOk (Enqueue r b)" "entriesOf (Enqueue r b) = entriesOf b @ [r]"
proof -
  let ?g = "if qsize b = length (ring b) then grow b else b"
  have g: "bridgeOk ?g" "entriesOf ?g = entriesOf b" "qsize ?g < length (ring ?g)"
    using assms grow_ok [OF assms] by (auto simp: bridgeOk_def)
  have "Enqueue r b = ?g\<lparr>ring := (ring ?g)[(qhead ?g + qsize ?g) mod length (ring ?g) := Some r], qsize := qsize ?g + 1\<rparr>"
    unfolding Enqueue_def Let_def using slot_mod [OF g(1)] by simp
  then show "bridgeOk (Enqueue r b)" "entriesOf (Enqueue r b) = entriesOf b @ [r]"
    using put_ok [OF g(1,3), of r] g(2) by simp_all
qed

lemma Pop_nonempty:
  assumes "bridgeOk b" "0 < qsize b"
  shows "fst (Pop b) = Some (hd (entriesOf b))" "bridgeOk (snd (Pop b))" "entriesOf (snd (Pop b)) = tl (entriesOf b)"
proof -
  let ?n = "length (ring b)" and ?b = "snd (Pop b)"
  have h: "qhead b < ?n" using assms(1) by (simp add: bridgeOk_def)
  have b: "ring ?b = (ring b)[qhead b := None]" "qhead ?b = (qhead b + 1) mod ?n" "qsize ?b = qsize b - 1" "qmask ?b = qmask b"
    using assms(2) and_ring [OF assms(1)] by (simp_all add: Pop_def)
  have live: "ring b ! ((qhead b + i) mod ?n) \<noteq> None" if "i < qsize b" for i using assms(1) that by (simp add: bridgeOk_def)
  have "entriesOf b \<noteq> []" using assms(2) by (simp add: entriesOf_def)
  then have "hd (entriesOf b) = the (ring b ! qhead b)" using assms(2) h by (simp add: hd_conv_nth entriesOf_nth)
  then show "fst (Pop b) = Some (hd (entriesOf b))" using live [of 0] assms(2) h by (auto simp: Pop_def)
  have e: "ring ?b ! ((qhead ?b + i) mod ?n) = ring b ! ((qhead b + Suc i) mod ?n)" if "i < qsize b - 1" for i
  proof -
    have "qsize b \<le> ?n" using assms(1) by (simp add: bridgeOk_def)
    then have "Suc i < ?n" using that by linarith
    then have "(qhead b + Suc i) mod ?n \<noteq> qhead b" using slots_less [of 0 "Suc i" ?n "qhead b"] h by auto
    moreover have "(qhead ?b + i) mod ?n = (qhead b + Suc i) mod ?n" using b(2) by (simp add: mod_simps)
    ultimately show ?thesis using b(1) by simp
  qed
  have "ring ?b ! ((qhead ?b + i) mod ?n) \<noteq> None" if "i < qsize b - 1" for i using e [OF that] live [of "Suc i"] that by simp
  then show "bridgeOk ?b" using assms(1) b h by (auto simp: bridgeOk_def)
  show "entriesOf ?b = tl (entriesOf b)"
    by (rule nth_equalityI) (use b e in \<open>auto simp: length_entriesOf nth_tl entriesOf_nth\<close>)
qed

interpretation ringQueue: request_queue bridgeOk entriesOf NewBridge Enqueue Pop
proof
  fix b :: "'a Bridge"
  assume ok: "bridgeOk b"
  have empty: "Pop b = (None, b)" if "entriesOf b = []" using that length_entriesOf [of b] by (simp add: Pop_def)
  have size: "0 < qsize b" if "entriesOf b \<noteq> []" using that length_entriesOf [of b] by (metis length_greater_0_conv)
  show "bridgeOk (snd (Pop b))" using empty size Pop_nonempty(2) [OF ok] ok by (cases "entriesOf b = []") auto
  show "entriesOf (snd (Pop b)) = tl (entriesOf b)" using empty size Pop_nonempty(3) [OF ok] by (cases "entriesOf b = []") auto
  show "Pop b = (case entriesOf b of [] \<Rightarrow> (None, b) | r # rs \<Rightarrow> (Some r, snd (Pop b)))"
    using empty size Pop_nonempty(1) [OF ok] by (cases "entriesOf b") (auto simp: prod_eq_iff)
qed (simp_all add: NewBridge_ok Enqueue_ok)

text \<open>The other operations, against the list of entries.\<close>

lemma Head_entries: "bridgeOk b \<Longrightarrow> Head b = (case entriesOf b of [] \<Rightarrow> None | r # rs \<Rightarrow> Some r)"
proof -
  assume ok: "bridgeOk b"
  show ?thesis
  proof (cases "qsize b = 0")
    case False
    then have "Head b = fst (Pop b)" by (simp add: Head_def Pop_def)
    moreover have "entriesOf b \<noteq> []" using False by (simp add: entriesOf_def)
    ultimately show ?thesis using Pop_nonempty(1) [OF ok] False by (simp add: neq_Nil_conv) force
  qed (simp add: Head_def entriesOf_def)
qed

lemma PopTail_nonempty:
  assumes "bridgeOk b" "0 < qsize b"
  shows "fst (PopTail b) = Some (last (entriesOf b))" "bridgeOk (snd (PopTail b))" "entriesOf (snd (PopTail b)) = butlast (entriesOf b)"
proof -
  let ?n = "length (ring b)" and ?b = "snd (PopTail b)" and ?k = "qsize b - 1"
  have n: "?k < ?n" "0 < ?n" using assms by (auto simp: bridgeOk_def)
  have i: "(qhead b + qsize b - 1) AND qmask b = (qhead b + ?k) mod ?n" using and_ring [OF assms(1)] assms(2) by simp
  have b: "ring ?b = (ring b)[(qhead b + ?k) mod ?n := None]" "qhead ?b = qhead b" "qsize ?b = ?k" "qmask ?b = qmask b"
    "fst (PopTail b) = ring b ! ((qhead b + ?k) mod ?n)"
    using assms(2) i by (simp_all add: PopTail_def Let_def)
  have live: "ring b ! ((qhead b + i) mod ?n) \<noteq> None" if "i < qsize b" for i using assms(1) that by (simp add: bridgeOk_def)
  have "last (entriesOf b) = the (ring b ! ((qhead b + ?k) mod ?n))"
    using assms(2) by (simp add: last_conv_nth entriesOf_nth length_entriesOf flip: length_greater_0_conv)
  then show "fst (PopTail b) = Some (last (entriesOf b))" using live [of ?k] assms(2) b(5) by auto
  have e: "ring ?b ! ((qhead b + i) mod ?n) = ring b ! ((qhead b + i) mod ?n)" if "i < ?k" for i
    using slots_differ [of i ?n ?k "qhead b"] that n b(1) by simp
  have "ring ?b ! ((qhead b + i) mod ?n) \<noteq> None" if "i < ?k" for i using e [OF that] live [of i] that by simp
  then show "bridgeOk ?b" using assms(1) b(1-4) by (auto simp: bridgeOk_def)
  show "entriesOf ?b = butlast (entriesOf b)"
    by (rule nth_equalityI) (use b(1-4) e in \<open>auto simp: length_entriesOf nth_butlast entriesOf_nth\<close>)
qed

lemma takeLoop_entries:
  assumes "bridgeOk b0" "length (ring b) = length (ring b0)" "qmask b = qmask b0" "qhead b = qhead b0" "i + k \<le> length (ring b0)"
    "\<forall>j. i \<le> j \<and> j < i + k \<longrightarrow> ring b ! ((qhead b0 + j) mod length (ring b0)) = ring b0 ! ((qhead b0 + j) mod length (ring b0))"
  shows "fst (takeLoop i k b) = map (\<lambda>j. ring b0 ! ((qhead b0 + j) mod length (ring b0))) [i..<i + k]
    \<and> length (ring (snd (takeLoop i k b))) = length (ring b0) \<and> qmask (snd (takeLoop i k b)) = qmask b0"
  using assms(2-)
proof (induction k arbitrary: i b)
  case (Suc k)
  let ?n = "length (ring b0)" and ?s = "(qhead b0 + i) mod length (ring b0)"
  have s: "slot b i = ?s" using Suc.prems(2,3) assms(1) by (simp add: slot_def and_ring)
  let ?b = "b\<lparr>ring := (ring b)[?s := None]\<rparr>"
  have "ring ?b ! ((qhead b0 + j) mod ?n) = ring b0 ! ((qhead b0 + j) mod ?n)" if "i + 1 \<le> j \<and> j < i + 1 + k" for j
  proof -
    have "(qhead b0 + i) mod ?n \<noteq> (qhead b0 + j) mod ?n" using slots_less [of i j ?n] that Suc.prems(4) by simp
    then show ?thesis using Suc.prems(5) that by simp
  qed
  then have IH: "fst (takeLoop (i + 1) k ?b) = map (\<lambda>j. ring b0 ! ((qhead b0 + j) mod ?n)) [i + 1..<i + 1 + k]
      \<and> length (ring (snd (takeLoop (i + 1) k ?b))) = ?n \<and> qmask (snd (takeLoop (i + 1) k ?b)) = qmask b0"
    using Suc.prems(1-4) by (intro Suc.IH) simp_all
  have "ring b ! ?s = ring b0 ! ?s" using Suc.prems(5) by simp
  moreover have "[i..<i + Suc k] = i # [i + 1..<i + 1 + k]" using upt_conv_Cons [of i "i + Suc k"] by simp
  ultimately show ?case using IH s by (simp only: takeLoop.simps Let_def case_prod_beta fst_conv snd_conv list.map)
qed simp

lemma takeAll_entries:
  assumes "bridgeOk b"
  shows "fst (takeAll b) = map Some (entriesOf b)" "bridgeOk (snd (takeAll b))" "entriesOf (snd (takeAll b)) = []"
proof -
  let ?n = "length (ring b)"
  have "qsize b \<le> ?n" using assms by (simp add: bridgeOk_def)
  then have t: "fst (takeLoop 0 (qsize b) b) = map (\<lambda>j. ring b ! ((qhead b + j) mod ?n)) [0..<qsize b]"
    "length (ring (snd (takeLoop 0 (qsize b) b))) = ?n" "qmask (snd (takeLoop 0 (qsize b) b)) = qmask b"
    using takeLoop_entries [OF assms, of b 0 "qsize b"] by simp_all
  have "\<forall>i < qsize b. ring b ! ((qhead b + i) mod ?n) = Some (the (ring b ! ((qhead b + i) mod ?n)))"
    using assms by (force simp: bridgeOk_def)
  then show "fst (takeAll b) = map Some (entriesOf b)" using t(1) by (simp add: takeAll_def entriesOf_def case_prod_beta)
  have r: "ring (snd (takeAll b)) = ring (snd (takeLoop 0 (qsize b) b))" "qmask (snd (takeAll b)) = qmask b" "qhead (snd (takeAll b)) = 0" "qsize (snd (takeAll b)) = 0"
    using t(3) by (simp_all add: takeAll_def case_prod_beta)
  then show "entriesOf (snd (takeAll b)) = []" by (simp add: entriesOf_def)
  show "bridgeOk (snd (takeAll b))" using assms t(2) r by (auto simp: bridgeOk_def)
qed

lemma notifyAll_Some: "notifyAll f (map Some rs) s = fold f rs s"
  by (induction rs arbitrary: s) simp_all

lemma DrainWithError_entries:
  assumes "bridgeOk b"
  shows "fst (DrainWithError f b s) = fold f (entriesOf b) s" "bridgeOk (snd (DrainWithError f b s))" "entriesOf (snd (DrainWithError f b s)) = []"
  using takeAll_entries [OF assms] by (simp_all add: DrainWithError_def notifyAll_Some case_prod_beta)

section \<open>Sequences of operations\<close>

datatype 'a bridge_op = OpEnqueue 'a | OpHead | OpPop | OpPopTail | OpLen | OpDrain

text \<open>What an operation answers (the requests, and the length for \<open>OpLen\<close>) and the queue after it.\<close>

fun bridgeRun :: "'a bridge_op \<Rightarrow> 'a Bridge \<Rightarrow> ('a option list \<times> nat) \<times> 'a Bridge" where
  "bridgeRun (OpEnqueue r) b = (([], 0), Enqueue r b)"
| "bridgeRun OpHead b = (([Head b], 0), b)"
| "bridgeRun OpPop b = (([fst (Pop b)], 0), snd (Pop b))"
| "bridgeRun OpPopTail b = (([fst (PopTail b)], 0), snd (PopTail b))"
| "bridgeRun OpLen b = (([], Len b), b)"
| "bridgeRun OpDrain b = ((fst (takeAll b), 0), snd (takeAll b))"

fun listRun :: "'a bridge_op \<Rightarrow> 'a list \<Rightarrow> ('a option list \<times> nat) \<times> 'a list" where
  "listRun (OpEnqueue r) q = (([], 0), q @ [r])"
| "listRun OpHead q = (([if q = [] then None else Some (hd q)], 0), q)"
| "listRun OpPop q = (([if q = [] then None else Some (hd q)], 0), tl q)"
| "listRun OpPopTail q = (([if q = [] then None else Some (last q)], 0), butlast q)"
| "listRun OpLen q = (([], length q), q)"
| "listRun OpDrain q = ((map Some q, 0), [])"

fun runOps :: "('o \<Rightarrow> 's \<Rightarrow> 'r \<times> 's) \<Rightarrow> 'o list \<Rightarrow> 's \<Rightarrow> 'r list" where
  "runOps f [] s = []"
| "runOps f (x # xs) s = fst (f x s) # runOps f xs (snd (f x s))"

lemma bridgeRun_step:
  assumes "bridgeOk b"
  shows "fst (bridgeRun x b) = fst (listRun x (entriesOf b)) \<and> bridgeOk (snd (bridgeRun x b))
    \<and> entriesOf (snd (bridgeRun x b)) = snd (listRun x (entriesOf b))"
proof -
  have ne: "entriesOf b = [] \<longleftrightarrow> qsize b = 0" using length_entriesOf [of b] by (metis length_0_conv)
  show ?thesis
  proof (cases x)
    case OpHead
    then show ?thesis using assms Head_entries [OF assms] by (simp add: list.case_eq_if)
  next
    case OpPop
    then show ?thesis using assms Pop_nonempty [OF assms] ne by (cases "qsize b = 0") (simp_all add: Pop_def)
  next
    case OpPopTail
    then show ?thesis using assms PopTail_nonempty [OF assms] ne by (cases "qsize b = 0") (simp_all add: PopTail_def)
  qed (use assms Enqueue_ok [OF assms] takeAll_entries [OF assms] in \<open>simp_all add: Len_def length_entriesOf\<close>)
qed

lemma runOps_bridge: "bridgeOk b \<Longrightarrow> runOps bridgeRun xs b = runOps listRun xs (entriesOf b)"
proof (induction xs arbitrary: b)
  case (Cons x xs)
  note step = bridgeRun_step [OF Cons.prems, of x]
  then have "runOps bridgeRun xs (snd (bridgeRun x b)) = runOps listRun xs (snd (listRun x (entriesOf b)))"
    using Cons.IH [of "snd (bridgeRun x b)"] by simp
  then show ?case using step by simp
qed simp

text \<open>
  C12. The ring buffer is a queue. Whatever requests are added, taken from the front, unwound from the back or
  drained, in any order and with the ring wrapping and growing as it must, every answer is that of a plain
  first-in first-out list.
\<close>

theorem bridge_refines_queue: "runOps bridgeRun xs NewBridge = runOps listRun xs []"
  using runOps_bridge [OF NewBridge_ok(1), of xs] by (simp add: NewBridge_ok)

end
