(* ===== verification/Redis_State.thy ===== *)
theory Redis_State
  imports Redis_Resp Redis_Bridge
begin

text \<open>
  The decoding side of a Redis connection (\<^verbatim>\<open>driver/redis/state.go\<close>, with the callers in \<^verbatim>\<open>conn.go\<close>): replies are matched to
  the requests that wait for them, through the queue or, in a synchronous pipeline, by index; push frames go
  to the callback or the subscriber. A request is a pointer; here it is a number, and \<open>requests\<close> is the
  memory. What a \<^verbatim>\<open>PubSub\<close> or a push callback is called with is recorded in \<open>events\<close>.
\<close>

section \<open>Definitions\<close>

subsection \<open>Requests\<close>

datatype rmode = modeCmd | modePubSub

datatype expectKind = expectNone | expectString | expectInt | expectStatus | expectFloat | expectBool

datatype redis_error =
    RedisError gostring gostring
  | ErrNil
  | ErrResp resp_error
  | ErrPipelineOverflow
  | ErrUnexpectedReply
  | ErrConn

record 'f redisRequest =
  result :: "'f Value"
  resultErr :: "redis_error option"
  owned :: bool
  doneCh :: nat
  finished :: bool
  expect :: expectKind
  strResult :: gostring
  intResult :: int
  floatResult :: 'f
  boolResult :: bool

definition getRequest :: "'f::zero redisRequest" where
  "getRequest = \<lparr>result = strValue TySimple [], resultErr = None, owned = False, doneCh = 0, finished = False, expect = expectNone,
     strResult = [], intResult = 0, floatResult = 0, boolResult = False\<rparr>"

text \<open>\<^verbatim>\<open>doneCh\<close> has room for one signal.\<close>

definition finish :: "'f redisRequest \<Rightarrow> 'f redisRequest" where
  "finish r = (if finished r then r else r\<lparr>finished := True, doneCh := (if doneCh r < 1 then doneCh r + 1 else doneCh r)\<rparr>)"

fun parseErrorLoop :: "gostring \<Rightarrow> gostring \<Rightarrow> redis_error" where
  "parseErrorLoop pre [] = RedisError [] pre"
| "parseErrorLoop pre (c # s) = (if c = SP then RedisError pre s else parseErrorLoop (pre @ [c]) s)"

definition parseError :: "byte list \<Rightarrow> redis_error" where
  "parseError body = parseErrorLoop [] body"

subsection \<open>State\<close>

record Message =
  Channel :: gostring
  Pattern :: gostring
  Payload :: gostring
  Shard :: bool

datatype 'f event = Pushed gostring "'f Value list" | Delivered Message | ShardUnsubscribed gostring | ControlError gostring

record 'f redisState =
  reader :: Reader
  bridge :: "nat Bridge"
  requests :: "nat \<Rightarrow> 'f redisRequest"
  stMode :: rmode
  hasTarget :: bool
  hasOnPush :: bool
  events :: "'f event list"
  syncPipeReqs :: "nat list option"
  syncPipeIdx :: nat
  multiPollLastReq :: "nat option"
  copySlab :: "byte list"

definition newRedisState :: "'f::zero redisState" where
  "newRedisState = \<lparr>reader = NewReader, bridge = NewBridge, requests = (\<lambda>_. getRequest), stMode = modeCmd, hasTarget = False,
     hasOnPush = False, events = [], syncPipeReqs = None, syncPipeIdx = 0, multiPollLastReq = None, copySlab = []\<rparr>"

subsection \<open>Copies\<close>

definition scalarType :: "Type \<Rightarrow> bool" where
  "scalarType ty \<longleftrightarrow> ty \<in> {TyInt, TyBool, TyDouble, TyNull}"

definition stringType :: "Type \<Rightarrow> bool" where
  "stringType ty \<longleftrightarrow> ty \<in> {TySimple, TyError, TyBulk, TyVerbatim, TyBlobErr}"

fun copyValueDetached :: "'f Value \<Rightarrow> 'f Value" where
  "copyValueDetached (Value ty s n f b g arr m pa pm) =
     (if scalarType ty then Value ty s n f b g arr m pa pm
      else if stringType ty \<or> ty = TyBigInt then ClearPooledFlags (Value ty s n f b g arr m pa pm)
      else ClearPooledFlags (Value ty s n f b g (map copyValueDetached arr) (map (map_prod copyValueDetached copyValueDetached) m) pa pm))"

text \<open>The copy and the slab after it; the strings of the copy are the bytes appended to the slab.\<close>

function (sequential) copyValueSlab :: "'f Value \<Rightarrow> byte list \<Rightarrow> 'f Value \<times> byte list"
  and copyArraySlab :: "'f Value list \<Rightarrow> byte list \<Rightarrow> 'f Value list \<times> byte list"
  and copyMapSlab :: "('f Value \<times> 'f Value) list \<Rightarrow> byte list \<Rightarrow> ('f Value \<times> 'f Value) list \<times> byte list" where
  "copyValueSlab (Value ty s n f b g arr m pa pm) slab =
     (if scalarType ty then (Value ty s n f b g arr m pa pm, slab)
      else if stringType ty then (ClearPooledFlags (Value ty s n f b g arr m pa pm), slab @ s)
      else if ty = TyBigInt then (ClearPooledFlags (Value ty s n f b g arr m pa pm), slab @ g)
      else (case copyArraySlab arr (slab @ s @ g) of
              (arr', slab1) \<Rightarrow> (case copyMapSlab m slab1 of
                (m', slab2) \<Rightarrow> (ClearPooledFlags (Value ty s n f b g arr' m' pa pm), slab2))))"
| "copyArraySlab [] slab = ([], slab)"
| "copyArraySlab (v # vs) slab =
     (case copyValueSlab v slab of (v', slab1) \<Rightarrow> (case copyArraySlab vs slab1 of (vs', slab2) \<Rightarrow> (v' # vs', slab2)))"
| "copyMapSlab [] slab = ([], slab)"
| "copyMapSlab ((k, v) # m) slab =
     (case copyValueSlab k slab of (k', slab1) \<Rightarrow> (case copyValueSlab v slab1 of (v', slab2) \<Rightarrow>
       (case copyMapSlab m slab2 of (m', slab3) \<Rightarrow> ((k', v') # m', slab3))))"
  by pat_completeness auto
termination
  by (relation "measure (case_sum (\<lambda>(v, _). size v) (case_sum (\<lambda>(vs, _). size_list size vs) (\<lambda>(m, _). size_list (size_prod size size) m)))") auto

definition copyFallback :: "bool \<Rightarrow> 'f Value \<Rightarrow> byte list \<Rightarrow> 'f Value \<times> byte list" where
  "copyFallback sync v slab = (if sync then copyValueSlab v slab else (copyValueDetached v, slab))"

definition internedStrings :: "gostring list" where
  "internedStrings = [str ''OK'', str ''QUEUED'', str ''PONG'']"

definition slabString :: "byte list \<Rightarrow> byte list \<Rightarrow> gostring \<times> byte list" where
  "slabString b slab = (if length b = 0 then ([], slab) else if b \<in> set internedStrings then (b, slab) else (b, slab @ b))"

subsection \<open>Typed extraction\<close>

text \<open>\<^verbatim>\<open>strconv.ParseInt\<close> in base ten with 64 bits.\<close>

definition strconvParseInt :: "gostring \<Rightarrow> int option" where
  "strconvParseInt s =
     (if s = [] then None
      else (let neg = (hd s = 0x2D); digits = (if neg \<or> hd s = 0x2B then tl s else s) in
            if digits = [] \<or> \<not> list_all isDigit digits then None
            else (let n = (if neg then - decVal digits else decVal digits) in if MinInt64 \<le> n \<and> n \<le> MaxInt64 then Some n else None)))"

text \<open>The reply as it is, for the caller to look at.\<close>

definition keepValue :: "bool \<Rightarrow> 'f Value \<Rightarrow> 'f redisRequest \<times> byte list \<Rightarrow> 'f redisRequest \<times> byte list" where
  "keepValue sync v = (\<lambda>(req, slab). case copyFallback sync v slab of (w, slab') \<Rightarrow> (req\<lparr>result := w, expect := expectNone\<rparr>, slab'))"

definition keepString :: "byte list \<Rightarrow> 'f redisRequest \<times> byte list \<Rightarrow> 'f redisRequest \<times> byte list" where
  "keepString b = (\<lambda>(req, slab). case slabString b slab of (x, slab') \<Rightarrow> (req\<lparr>strResult := x\<rparr>, slab'))"

definition extractDirect ::
  "(byte list \<Rightarrow> 'f option) \<Rightarrow> bool \<Rightarrow> 'f Value \<Rightarrow> 'f redisRequest \<times> byte list \<Rightarrow> 'f redisRequest \<times> byte list" where
  "extractDirect parseFloat sync v = (\<lambda>(req, slab).
     (case expect req of
        expectString \<Rightarrow>
          if vType v \<in> {TyBulk, TySimple} then keepString (vStr v) (req, slab)
          else if vType v = TyVerbatim then
            keepString (if length (vStr v) \<ge> 4 \<and> vStr v ! 3 = 0x3A then drop 4 (vStr v) else vStr v) (req, slab)
          else if vType v = TyNull then (req\<lparr>resultErr := Some ErrNil\<rparr>, slab)
          else if vType v = TyInt then (req\<lparr>strResult := formatInt (vInt v)\<rparr>, slab)
          else keepValue sync v (req, slab)
      | expectStatus \<Rightarrow>
          if vType v \<in> {TySimple, TyBulk} then keepString (vStr v) (req, slab)
          else if vType v = TyNull then (req\<lparr>resultErr := Some ErrNil\<rparr>, slab)
          else keepValue sync v (req, slab)
      | expectInt \<Rightarrow>
          if vType v = TyInt then (req\<lparr>intResult := vInt v\<rparr>, slab)
          else if vType v \<in> {TyBulk, TySimple} then
            (case strconvParseInt (vStr v) of None \<Rightarrow> keepValue sync v (req, slab) | Some n \<Rightarrow> (req\<lparr>intResult := n\<rparr>, slab))
          else if vType v = TyNull then (req\<lparr>resultErr := Some ErrNil\<rparr>, slab)
          else keepValue sync v (req, slab)
      | expectFloat \<Rightarrow>
          if vType v = TyDouble then (req\<lparr>floatResult := vFloat v\<rparr>, slab)
          else if vType v \<in> {TyBulk, TySimple} then
            (case parseFloat (vStr v) of None \<Rightarrow> keepValue sync v (req, slab) | Some f \<Rightarrow> (req\<lparr>floatResult := f\<rparr>, slab))
          else if vType v = TyNull then (req\<lparr>resultErr := Some ErrNil\<rparr>, slab)
          else keepValue sync v (req, slab)
      | expectBool \<Rightarrow>
          if vType v = TyBool then (req\<lparr>boolResult := vBool v\<rparr>, slab)
          else if vType v = TyInt then (req\<lparr>boolResult := (vInt v \<noteq> 0)\<rparr>, slab)
          else if vType v = TyNull then (req\<lparr>resultErr := Some ErrNil\<rparr>, slab)
          else keepValue sync v (req, slab)
      | expectNone \<Rightarrow> (case copyFallback sync v slab of (w, slab') \<Rightarrow> (req\<lparr>result := w\<rparr>, slab'))))"

subsection \<open>Push frames\<close>

definition routeCmdPush :: "'f Value \<Rightarrow> 'f redisState \<Rightarrow> 'f redisState" where
  "routeCmdPush v s =
     (if \<not> hasOnPush s \<or> length (vArray v) = 0 then s
      else s\<lparr>events := events s @ [Pushed (vStr (vArray v ! 0)) (map copyValueDetached (drop 1 (vArray v)))]\<rparr>)"

text \<open>The router calls its target, if there is one.\<close>

definition routed :: "'f event \<Rightarrow> 'f redisState \<Rightarrow> 'f redisState" where
  "routed e s = (if hasTarget s then s\<lparr>events := events s @ [e]\<rparr> else s)"

definition routePush :: "'f Value \<Rightarrow> 'f redisState \<Rightarrow> 'f redisState" where
  "routePush v s =
     (let a = (\<lambda>i. vStr (vArray v ! i)); n = length (vArray v) in
      if n < 3 then s
      else if a 0 = str ''message'' then
        (if n \<ge> 3 then routed (Delivered \<lparr>Channel = a 1, Pattern = [], Payload = a 2, Shard = False\<rparr>) s else s)
      else if a 0 = str ''pmessage'' then
        (if n \<ge> 4 then routed (Delivered \<lparr>Channel = a 2, Pattern = a 1, Payload = a 3, Shard = False\<rparr>) s else s)
      else if a 0 = str ''smessage'' then
        (if n \<ge> 3 then routed (Delivered \<lparr>Channel = a 1, Pattern = [], Payload = a 2, Shard = True\<rparr>) s else s)
      else if a 0 = str ''sunsubscribe'' then routed (ShardUnsubscribed (a 1)) s
      else s)"

definition isPubSubArray :: "'f Value \<Rightarrow> bool" where
  "isPubSubArray v \<longleftrightarrow> length (vArray v) \<ge> 3 \<and> vType (vArray v ! 0) \<in> {TyBulk, TySimple}
     \<and> vStr (vArray v ! 0) \<in> {str ''message'', str ''pmessage'', str ''smessage'', str ''subscribe'', str ''unsubscribe'', str ''psubscribe'',
          str ''punsubscribe'', str ''ssubscribe'', str ''sunsubscribe''}"

subsection \<open>Dispatch\<close>

definition errorType :: "Type \<Rightarrow> bool" where
  "errorType ty \<longleftrightarrow> ty = TyError \<or> ty = TyBlobErr"

text \<open>The reply \<open>v\<close> goes into a request; \<open>sync\<close> tells the synchronous pipeline.\<close>

definition fillRequest ::
  "(byte list \<Rightarrow> 'f option) \<Rightarrow> bool \<Rightarrow> 'f Value \<Rightarrow> 'f redisRequest \<times> byte list \<Rightarrow> 'f redisRequest \<times> byte list" where
  "fillRequest parseFloat sync v = (\<lambda>(req, slab).
     if errorType (vType v) then (req\<lparr>resultErr := Some (parseError (vStr v)), expect := expectNone\<rparr>, slab)
     else if expect req \<noteq> expectNone then extractDirect parseFloat sync v (req, slab)
     else (case (if sync then copyValueSlab v slab else (copyValueDetached v, slab)) of
             (w, slab') \<Rightarrow> (req\<lparr>result := w, owned := False\<rparr>, slab')))"

definition complete :: "(byte list \<Rightarrow> 'f option) \<Rightarrow> bool \<Rightarrow> nat \<Rightarrow> 'f Value \<Rightarrow> 'f redisState \<Rightarrow> 'f redisState" where
  "complete parseFloat sync i v s =
     (case fillRequest parseFloat sync v (requests s i, copySlab s) of
        (req, slab) \<Rightarrow>
          s\<lparr>requests := (requests s)(i :=
               (if \<not> sync \<or> syncPipeIdx s \<ge> length (the (syncPipeReqs s)) then finish req else req)), copySlab := slab\<rparr>)"

definition dispatch :: "(byte list \<Rightarrow> 'f option) \<Rightarrow> 'f Value \<Rightarrow> 'f redisState \<Rightarrow> redis_error option \<times> 'f redisState" where
  "dispatch parseFloat v s =
     (if vType v = TyAttr then (None, s)
      else if vType v = TyPush then (None, if stMode s = modeCmd then routeCmdPush v s else routePush v s)
      else if stMode s = modePubSub \<and> vType v = TyArray \<and> isPubSubArray v then (None, routePush v s)
      else (case syncPipeReqs s of
              Some reqs \<Rightarrow>
                if syncPipeIdx s \<ge> length reqs then (Some ErrPipelineOverflow, s)
                else (None, complete parseFloat True (reqs ! syncPipeIdx s) v (s\<lparr>syncPipeIdx := syncPipeIdx s + 1\<rparr>))
            | None \<Rightarrow>
                (case Pop (bridge s) of
                   (None, b) \<Rightarrow>
                     if stMode s = modePubSub then
                       (None, if errorType (vType v) \<and> vStr v \<noteq> [] then routed (ControlError (vStr v)) (s\<lparr>bridge := b\<rparr>) else s\<lparr>bridge := b\<rparr>)
                     else (Some ErrUnexpectedReply, s\<lparr>bridge := b\<rparr>)
                 | (Some i, b) \<Rightarrow> (None, complete parseFloat False i v (s\<lparr>bridge := b\<rparr>)))))"

partial_function (option) processLoop ::
  "(byte list \<Rightarrow> 'f::zero option) \<Rightarrow> 'f redisState \<Rightarrow> (redis_error option \<times> 'f redisState) option" where
  "processLoop parseFloat s =
     (case Next parseFloat (reader s) of
        None \<Rightarrow> None
      | Some (Inl e, r) \<Rightarrow> Some (if e = ErrIncomplete then None else Some (ErrResp e), s\<lparr>reader := r\<rparr>)
      | Some (Inr v, r) \<Rightarrow>
          (case dispatch parseFloat v (s\<lparr>reader := r\<rparr>) of
             (Some e, s1) \<Rightarrow> Some (Some e, s1)
           | (None, s1) \<Rightarrow> processLoop parseFloat s1))"

declare processLoop.simps [code]

definition processRedis ::
  "(byte list \<Rightarrow> 'f::zero option) \<Rightarrow> byte list \<Rightarrow> 'f redisState \<Rightarrow> (redis_error option \<times> 'f redisState) option" where
  "processRedis parseFloat data s =
     (case processLoop parseFloat (s\<lparr>reader := Feed data (reader s)\<rparr>) of
        None \<Rightarrow> None
      | Some (Some e, s1) \<Rightarrow> Some (Some e, s1)
      | Some (None, s1) \<Rightarrow> Some (None, s1\<lparr>reader := Compact (reader s1)\<rparr>))"

definition failRequest :: "redis_error \<Rightarrow> nat \<Rightarrow> (nat \<Rightarrow> 'f redisRequest) \<Rightarrow> (nat \<Rightarrow> 'f redisRequest)" where
  "failRequest e i h = h(i := finish ((h i)\<lparr>resultErr := Some e\<rparr>))"

definition drainWithError :: "redis_error \<Rightarrow> 'f redisState \<Rightarrow> 'f redisState" where
  "drainWithError e s =
     (case DrainWithError (failRequest e) (bridge s) (requests s) of (h, b) \<Rightarrow> s\<lparr>requests := h, bridge := b\<rparr>)"

subsection \<open>The connection\<close>

record 'f redisConn =
  state :: "'f redisState"
  connClosed :: bool
  connErr :: "redis_error option"


definition onClose :: "redis_error \<Rightarrow> 'f redisConn \<Rightarrow> 'f redisConn" where
  "onClose e c = \<lparr>state = drainWithError e (state c), connClosed = True, connErr = Some e\<rparr>"



text \<open>
  The start of a pipeline: \<^verbatim>\<open>execManyCore\<close> installs its requests for dispatch by index, \<^verbatim>\<open>execManyDirect\<close> queues
  them.
\<close>

definition beginSyncPipe :: "nat list \<Rightarrow> 'f redisConn \<Rightarrow> 'f redisConn" where
  "beginSyncPipe reqs c =
     c\<lparr>state := (state c)\<lparr>copySlab := [], syncPipeReqs := Some reqs, syncPipeIdx := 0, multiPollLastReq := Some (last reqs)\<rparr>\<rparr>"

definition beginQueued :: "nat list \<Rightarrow> 'f redisConn \<Rightarrow> 'f redisConn" where
  "beginQueued reqs c = c\<lparr>state := (state c)\<lparr>copySlab := [], bridge := fold Enqueue reqs (bridge (state c))\<rparr>\<rparr>"

section \<open>Copies keep the value\<close>

lemma ClearPooledFlags_idem: "ClearPooledFlags (ClearPooledFlags v) = ClearPooledFlags v"
proof (induction v)
  case (Value ty s n f b g arr m pa pm)
  have "map (map_prod ClearPooledFlags ClearPooledFlags \<circ> map_prod ClearPooledFlags ClearPooledFlags) m = map (map_prod ClearPooledFlags ClearPooledFlags) m"
    using Value.IH(2,3) by (intro map_cong refl) fastforce
  moreover have "map (ClearPooledFlags \<circ> ClearPooledFlags) arr = map ClearPooledFlags arr" using Value.IH(1) by simp
  ultimately show ?case by simp
qed

text \<open>The copy into the slab and the copy onto the heap are the same value.\<close>

lemma copySlab_detached:
  fixes v :: "'f Value" and vs :: "'f Value list" and m :: "('f Value \<times> 'f Value) list"
  shows "fst (copyValueSlab v slab) = copyValueDetached v"
  "fst (copyArraySlab vs slab) = map copyValueDetached vs"
  "fst (copyMapSlab m slab) = map (map_prod copyValueDetached copyValueDetached) m"
proof (induction v slab and vs slab and m slab rule: copyValueSlab_copyArraySlab_copyMapSlab.induct)
  case (1 ty s n f b g arr m pa pm slab)
  then show ?case by (auto split: prod.splits)
qed (auto split: prod.splits)

text \<open>What the parser returns is copied with every mark of a pooled slice removed.\<close>

lemma copyValueDetached_parsed: "wfValue pf fmt v \<Longrightarrow> copyValueDetached v = ClearPooledFlags v"
proof (induction v)
  case (Value ty s n f b g arr m pa pm)
  show ?case
  proof (cases "scalarType ty \<or> stringType ty \<or> ty = TyBigInt")
    case True
    then show ?thesis using Value.prems
      by (auto simp: scalarType_def stringType_def intValue_def boolValue_def floatValue_def nullValue_def)
  next
    case False
    have wf: "list_all (wfValue pf fmt) arr" "list_all (\<lambda>(k, v). wfValue pf fmt k \<and> wfValue pf fmt v) m"
      using Value.prems False by (cases ty; auto simp: scalarType_def stringType_def arrayValue_def mapValue_def)+
    have "map copyValueDetached arr = map ClearPooledFlags arr" using wf(1) Value.IH(1) by (auto simp: list_all_iff)
    moreover have "map (map_prod copyValueDetached copyValueDetached) m = map (map_prod ClearPooledFlags ClearPooledFlags) m"
      using wf(2) Value.IH(2,3) by (intro map_cong refl) (fastforce simp: list_all_iff)
    moreover have "ClearPooledFlags (ClearPooledFlags (Value ty s n f b g arr m pa pm)) = ClearPooledFlags (Value ty s n f b g arr m pa pm)"
      by (rule ClearPooledFlags_idem)
    ultimately show ?thesis using False by simp
  qed
qed

section \<open>What a reply does to a request\<close>

text \<open>The result does not depend on the slab, nor on the way the reply is dispatched.\<close>

definition filled :: "(byte list \<Rightarrow> 'f option) \<Rightarrow> 'f Value \<Rightarrow> 'f redisRequest \<Rightarrow> 'f redisRequest" where
  "filled pf v req = fst (fillRequest pf False v (req, []))"

lemma keepValue_slab: "fst (keepValue sync v (req, slab)) = req\<lparr>result := copyValueDetached v, expect := expectNone\<rparr>"
  using copySlab_detached(1) [of v slab] by (auto simp: keepValue_def copyFallback_def split: prod.splits)

lemma keepString_slab: "fst (keepString b (req, slab)) = req\<lparr>strResult := b\<rparr>"
  by (simp add: keepString_def slabString_def)

lemma extractDirect_slab: "fst (extractDirect pf sync v (req, slab)) = fst (extractDirect pf False v (req, []))"
  by (cases "expect req")
    (auto simp: extractDirect_def keepValue_slab keepString_slab copyFallback_def copySlab_detached(1) case_prod_beta split: option.splits)

lemma fillRequest_filled: "fst (fillRequest pf sync v (req, slab)) = filled pf v req"
  using extractDirect_slab [of pf sync v req slab] copySlab_detached(1) [of v slab]
  by (auto simp: filled_def fillRequest_def case_prod_beta)

section \<open>Segments\<close>

fun dispatchAll :: "(byte list \<Rightarrow> 'f option) \<Rightarrow> 'f Value list \<Rightarrow> 'f redisState \<Rightarrow> redis_error option \<times> 'f redisState" where
  "dispatchAll pf [] s = (None, s)"
| "dispatchAll pf (v # vs) s = (case dispatch pf v s of (Some e, s1) \<Rightarrow> (Some e, s1) | (None, s1) \<Rightarrow> dispatchAll pf vs s1)"

text \<open>The connection receives one segment after the other, until an error.\<close>

fun receiveAll :: "(byte list \<Rightarrow> 'f::zero option) \<Rightarrow> byte list list \<Rightarrow> 'f redisState \<Rightarrow> (redis_error option \<times> 'f redisState) option" where
  "receiveAll pf [] s = Some (None, s)"
| "receiveAll pf (d # ds) s =
     (case processRedis pf d s of
        None \<Rightarrow> None
      | Some (Some e, s1) \<Rightarrow> Some (Some e, s1)
      | Some (None, s1) \<Rightarrow> receiveAll pf ds s1)"

lemma routes_reader:
  "routed e (s\<lparr>reader := r\<rparr>) = (routed e s)\<lparr>reader := r\<rparr>"
  "routeCmdPush v (s\<lparr>reader := r\<rparr>) = (routeCmdPush v s)\<lparr>reader := r\<rparr>"
  "complete pf sync i v (s\<lparr>reader := r\<rparr>) = (complete pf sync i v s)\<lparr>reader := r\<rparr>"
  by (simp_all add: routed_def routeCmdPush_def complete_def case_prod_beta)

lemma routePush_reader: "routePush v (s\<lparr>reader := r\<rparr>) = (routePush v s)\<lparr>reader := r\<rparr>"
  by (simp add: routePush_def Let_def routes_reader)

lemma dispatch_reader: "dispatch pf v (s\<lparr>reader := r\<rparr>) = (fst (dispatch pf v s), (snd (dispatch pf v s))\<lparr>reader := r\<rparr>)"
proof -
  have swap: "s\<lparr>reader := r, bridge := b\<rparr> = (s\<lparr>bridge := b\<rparr>)\<lparr>reader := r\<rparr>" "s\<lparr>reader := r, syncPipeIdx := k\<rparr> = (s\<lparr>syncPipeIdx := k\<rparr>)\<lparr>reader := r\<rparr>" for b k
    by simp_all
  show ?thesis
    by (cases "Pop (bridge s)"; cases "fst (Pop (bridge s))"; cases "syncPipeReqs s")
      (simp_all add: dispatch_def routes_reader routePush_reader swap)
qed

lemma dispatchAll_reader: "dispatchAll pf vs (s\<lparr>reader := r\<rparr>) = (fst (dispatchAll pf vs s), (snd (dispatchAll pf vs s))\<lparr>reader := r\<rparr>)"
proof (induction vs arbitrary: s)
  case (Cons v vs)
  obtain e s1 where d: "dispatch pf v s = (e, s1)" by fastforce
  then have "dispatch pf v (s\<lparr>reader := r\<rparr>) = (e, s1\<lparr>reader := r\<rparr>)" using dispatch_reader [of pf v r s] by simp
  then show ?case using Cons.IH [of s1] d by (cases e) simp_all
qed simp

lemma dispatchAll_append:
  "dispatchAll pf (vs @ ws) s = (case dispatchAll pf vs s of (Some e, s1) \<Rightarrow> (Some e, s1) | (None, s1) \<Rightarrow> dispatchAll pf ws s1)"
  by (induction vs arbitrary: s) (simp_all split: prod.split option.split)

text \<open>The loop over the buffer hands on the values that draining it gives.\<close>

lemma processLoop_values:
  assumes "posOk (reader s)" "drain (resp_outcome pf) (unread (reader s)) = (vs, None, left)" "dispatchAll pf vs s = (None, s1)"
  shows "\<exists>r. processLoop pf s = Some (None, s1\<lparr>reader := r\<rparr>) \<and> posOk r \<and> unread r = left"
  using assms
proof (induction "length (unread (reader s))" arbitrary: s vs s1 rule: less_induct)
  case less
  let ?run = "resp_outcome pf"
  from less.prems(1) show ?case
  proof (cases rule: Next_outcome [of "reader s" pf])
    case (got v k)
    have rd: "unread (advance k (reader s)) = drop k (unread (reader s))" "posOk (advance k (reader s))"
      using less.prems(1) got by (simp_all add: unread_advance posOk_advance)
    obtain ys where ys: "drain ?run (drop k (unread (reader s))) = (ys, None, left)" "vs = v # ys"
      using less.prems(2) got by (subst (asm) drain.simps) (auto split: prod.splits)
    obtain s2 where d: "dispatch pf v s = (None, s2)" "dispatchAll pf ys s2 = (None, s1)"
      using less.prems(3) ys(2) by (cases "dispatch pf v s"; cases "fst (dispatch pf v s)") auto
    let ?s2 = "s2\<lparr>reader := advance k (reader s)\<rparr>"
    have d': "dispatch pf v (s\<lparr>reader := advance k (reader s)\<rparr>) = (None, ?s2)" "dispatchAll pf ys ?s2 = (None, s1\<lparr>reader := advance k (reader s)\<rparr>)"
      using dispatch_reader [of pf v _ s] dispatchAll_reader [of pf ys _ s2] d by simp_all
    have "length (unread (reader ?s2)) < length (unread (reader s))" using rd(1) got(3,4) by simp
    then obtain r where "processLoop pf ?s2 = Some (None, (s1\<lparr>reader := advance k (reader s)\<rparr>)\<lparr>reader := r\<rparr>)" "posOk r" "unread r = left"
      using less.hyps [of ?s2 ys "s1\<lparr>reader := advance k (reader s)\<rparr>"] rd ys(1) d'(2) by auto
    moreover have "processLoop pf s = processLoop pf ?s2" by (subst processLoop.simps) (simp add: got(2) d'(1))
    ultimately show ?thesis by auto
  next
    case (failed e k)
    then show ?thesis using less.prems(2) by (simp add: drain.simps)
  next
    case short
    then have "vs = []" "left = unread (reader s)" using less.prems(2) by (simp_all add: drain.simps)
    moreover have "processLoop pf s = Some (None, s)" by (subst processLoop.simps) (simp add: short(2))
    ultimately show ?thesis using less.prems(1,3) by (intro exI [of _ "reader s"]) auto
  qed
qed

text \<open>On any bytes the loop returns: each frame it dispatches takes some of them.\<close>

lemma processLoop_returns:
  "posOk (reader s) \<Longrightarrow> \<exists>x. processLoop pf s = Some x"
proof (induction "length (unread (reader s))" arbitrary: s rule: less_induct)
  case less
  from less.prems show ?case
  proof (cases rule: Next_outcome [of "reader s" pf])
    case (got v k)
    obtain e s2 where d: "dispatch pf v s = (e, s2)" by fastforce
    let ?s2 = "s2\<lparr>reader := advance k (reader s)\<rparr>"
    have d': "dispatch pf v (s\<lparr>reader := advance k (reader s)\<rparr>) = (e, ?s2)" using dispatch_reader [of pf v _ s] d by simp
    have "length (unread (reader ?s2)) < length (unread (reader s))" "posOk (reader ?s2)"
      using less.prems got by (simp_all add: unread_advance posOk_advance)
    then obtain x where "processLoop pf ?s2 = Some x" using less.hyps [of ?s2] by blast
    then show ?thesis by (subst processLoop.simps) (cases e; simp add: got(2) d')
  next
    case (failed e k)
    then show ?thesis by (subst processLoop.simps) simp
  next
    case short
    then show ?thesis by (subst processLoop.simps) simp
  qed
qed

lemma Feed_unread: "posOk r \<Longrightarrow> posOk (Feed d r) \<and> unread (Feed d r) = unread r @ d"
  by (simp add: Feed_def posOk_def unread_def)

lemma Compact_unread: "posOk r \<Longrightarrow> posOk (Compact r) \<and> unread (Compact r) = unread r"
  by (simp add: Compact_def posOk_def unread_def)

lemma resp_progress: "resp_outcome pf b = Done a n \<Longrightarrow> 0 < n"
  using outcome_bound by blast

lemma resp_drain_prefix: "drain (resp_outcome pf) (b @ c) = (xs, None, r) \<Longrightarrow> \<exists>ys r1. drain (resp_outcome pf) b = (ys, None, r1)"
  by (rule resp.drain_prefix) (auto dest: resp_progress)

lemma resp_drain_append:
  "drain (resp_outcome pf) b = (xs, None, r) \<Longrightarrow>
    drain (resp_outcome pf) (b @ c) = (let (ys, e, r') = drain (resp_outcome pf) (r @ c) in (xs @ ys, e, r'))"
  by (rule resp.drain_append) (auto dest: resp_progress)

lemma resp_drain_left: "drain (resp_outcome pf) b = (xs, None, r) \<Longrightarrow> resp_outcome pf r = More"
  by (rule resp.drain_left) (auto dest: resp_progress)

lemma receive_values:
  assumes "posOk (reader s)" "resp_outcome pf (unread (reader s)) = More"
    "drain (resp_outcome pf) (unread (reader s) @ concat ss) = (vs, None, left)" "dispatchAll pf vs s = (None, s1)"
  shows "\<exists>r. receiveAll pf ss s = Some (None, s1\<lparr>reader := r\<rparr>) \<and> posOk r \<and> unread r = left"
  using assms
proof (induction ss arbitrary: s vs s1)
  case Nil
  then have "vs = []" "left = unread (reader s)" by (simp_all add: drain.simps)
  then show ?case using Nil by (intro exI [of _ "reader s"]) auto
next
  case (Cons d ds)
  let ?run = "resp_outcome pf" and ?u = "unread (reader s)" and ?s = "s\<lparr>reader := Feed d (reader s)\<rparr>"
  have fd: "posOk (Feed d (reader s))" "unread (Feed d (reader s)) = ?u @ d" using Feed_unread Cons.prems(1) by blast+
  have whole: "drain ?run ((?u @ d) @ concat ds) = (vs, None, left)" using Cons.prems(3) by simp
  obtain vs1 left1 where first: "drain ?run (?u @ d) = (vs1, None, left1)"
    using resp_drain_prefix [OF whole] by blast
  obtain vs2 where second: "drain ?run (left1 @ concat ds) = (vs2, None, left)" "vs = vs1 @ vs2"
    using resp_drain_append [OF first, of "concat ds"] whole by (auto simp: Let_def split: prod.splits)
  obtain s2 where d: "dispatchAll pf vs1 s = (None, s2)" "dispatchAll pf vs2 s2 = (None, s1)"
    using Cons.prems(4) second(2) by (auto simp: dispatchAll_append split: prod.splits option.splits)
  have "dispatchAll pf vs1 ?s = (None, s2\<lparr>reader := Feed d (reader s)\<rparr>)" using dispatchAll_reader [of pf vs1 _ s] d(1) by simp
  then obtain r where r: "processLoop pf ?s = Some (None, (s2\<lparr>reader := Feed d (reader s)\<rparr>)\<lparr>reader := r\<rparr>)" "posOk r" "unread r = left1"
    using processLoop_values [of ?s pf vs1 left1] fd first by auto
  let ?s2 = "s2\<lparr>reader := Compact r\<rparr>"
  have p: "processRedis pf d s = Some (None, ?s2)" using r(1) by (simp add: processRedis_def)
  have c: "posOk (Compact r)" "unread (Compact r) = left1" using Compact_unread r(2,3) by blast+
  have "?run left1 = More" by (rule resp_drain_left [OF first])
  moreover have "dispatchAll pf vs2 ?s2 = (None, s1\<lparr>reader := Compact r\<rparr>)" using dispatchAll_reader [of pf vs2 _ s2] d(2) by simp
  ultimately obtain r' where "receiveAll pf ds ?s2 = Some (None, (s1\<lparr>reader := Compact r\<rparr>)\<lparr>reader := r'\<rparr>)" "posOk r'" "unread r' = left"
    using Cons.IH [of ?s2 vs2 "s1\<lparr>reader := Compact r\<rparr>"] c second(1) by auto
  then show ?case using p by auto
qed

section \<open>Matching\<close>

definition isReply :: "'f Value \<Rightarrow> bool" where
  "isReply v \<longleftrightarrow> vType v \<noteq> TyAttr \<and> vType v \<noteq> TyPush"

definition replies :: "'f Value list \<Rightarrow> 'f Value list" where
  "replies vs = filter isReply vs"

text \<open>What the push callback of a connection in command mode is called with.\<close>

definition pushEvents :: "bool \<Rightarrow> 'f Value list \<Rightarrow> 'f event list" where
  "pushEvents hooked vs =
     (if hooked then map (\<lambda>v. Pushed (vStr (vArray v ! 0)) (map copyValueDetached (drop 1 (vArray v)))) (filter (\<lambda>v. vType v = TyPush \<and> vArray v \<noteq> []) vs)
      else [])"

lemma pushEvents_Cons: "pushEvents hooked (v # vs) = pushEvents hooked [v] @ pushEvents hooked vs"
  by (simp add: pushEvents_def)

lemma dispatch_push:
  assumes "stMode s = modeCmd" "\<not> isReply v"
  shows "dispatch pf v s = (None, s\<lparr>events := events s @ pushEvents (hasOnPush s) [v]\<rparr>)"
  using assms by (auto simp: dispatch_def isReply_def routeCmdPush_def pushEvents_def)

lemma complete_queue:
  "complete pf False i v s = s\<lparr>requests := (requests s)(i := finish (filled pf v (requests s i))), copySlab := snd (fillRequest pf False v (requests s i, copySlab s))\<rparr>"
  using fillRequest_filled [of pf False v "requests s i" "copySlab s"] by (simp add: complete_def case_prod_beta)

lemma dispatch_queue:
  assumes "stMode s = modeCmd" "isReply v" "syncPipeReqs s = None" "bridgeOk (bridge s)" "entriesOf (bridge s) = i # is"
  obtains b slab where "dispatch pf v s = (None, s\<lparr>bridge := b, requests := (requests s)(i := finish (filled pf v (requests s i))), copySlab := slab\<rparr>)"
    "bridgeOk b" "entriesOf b = is"
proof -
  obtain b where b: "Pop (bridge s) = (Some i, b)" "bridgeOk b" "entriesOf b = is" by (rule ringQueue.pop_Cons [OF assms(4,5)])
  have "dispatch pf v s = (None, complete pf False i v (s\<lparr>bridge := b\<rparr>))"
    using assms(1-3) b(1) by (simp add: dispatch_def isReply_def)
  then show ?thesis using that b(2,3) by (simp add: complete_queue)
qed

lemma dispatchAll_queue:
  assumes "stMode s = modeCmd" "syncPipeReqs s = None" "bridgeOk (bridge s)" "entriesOf (bridge s) = ids @ later" "distinct ids"
    "length (replies vs) = length ids"
  obtains s1 where "dispatchAll pf vs s = (None, s1)" "bridgeOk (bridge s1)" "entriesOf (bridge s1) = later"
    "\<And>j. j < length ids \<Longrightarrow> requests s1 (ids ! j) = finish (filled pf (replies vs ! j) (requests s (ids ! j)))"
    "\<And>i. i \<notin> set ids \<Longrightarrow> requests s1 i = requests s i" "events s1 = events s @ pushEvents (hasOnPush s) vs"
    "stMode s1 = modeCmd" "syncPipeReqs s1 = None" "reader s1 = reader s"
proof -
  have "\<exists>s1. dispatchAll pf vs s = (None, s1) \<and> bridgeOk (bridge s1) \<and> entriesOf (bridge s1) = later
    \<and> (\<forall>j < length ids. requests s1 (ids ! j) = finish (filled pf (replies vs ! j) (requests s (ids ! j))))
    \<and> (\<forall>i. i \<notin> set ids \<longrightarrow> requests s1 i = requests s i) \<and> events s1 = events s @ pushEvents (hasOnPush s) vs
    \<and> stMode s1 = modeCmd \<and> syncPipeReqs s1 = None \<and> reader s1 = reader s"
    using assms
  proof (induction vs arbitrary: s ids)
    case Nil
    then show ?case by (simp add: replies_def pushEvents_def)
  next
    case (Cons v vs)
    show ?case
    proof (cases "isReply v")
      case False
      then show ?thesis
        using Cons.IH [of "s\<lparr>events := events s @ pushEvents (hasOnPush s) [v]\<rparr>" ids] Cons.prems
        by (simp add: dispatch_push replies_def pushEvents_Cons [of _ v vs])
    next
      case True
      then obtain i "is" where ids: "ids = i # is" using Cons.prems(6) by (cases ids) (simp_all add: replies_def)
      have e: "entriesOf (bridge s) = i # is @ later" using Cons.prems(4) ids by simp
      obtain b slab where d: "dispatch pf v s = (None, s\<lparr>bridge := b, requests := (requests s)(i := finish (filled pf v (requests s i))), copySlab := slab\<rparr>)"
          "bridgeOk b" "entriesOf b = is @ later"
        by (rule dispatch_queue [OF Cons.prems(1) True Cons.prems(2,3) e])
      have "pushEvents h (v # vs) = pushEvents h vs" for h using True by (simp add: pushEvents_def isReply_def)
      moreover have "replies (v # vs) = v # replies vs" using True by (simp add: replies_def)
      ultimately show ?thesis
        using Cons.IH [of "s\<lparr>bridge := b, requests := (requests s)(i := finish (filled pf v (requests s i))), copySlab := slab\<rparr>" "is"] d Cons.prems ids
        by (auto simp: nth_Cons' less_Suc_eq_0_disj all_conj_distrib)
    qed
  qed
  then show ?thesis using that by blast
qed

lemma complete_sync:
  assumes "syncPipeReqs s = Some ids"
  shows "complete pf True i v s = s\<lparr>requests := (requests s)(i :=
      (if syncPipeIdx s \<ge> length ids then finish (filled pf v (requests s i)) else filled pf v (requests s i))),
    copySlab := snd (fillRequest pf True v (requests s i, copySlab s))\<rparr>"
  using fillRequest_filled [of pf True v "requests s i" "copySlab s"] assms by (simp add: complete_def case_prod_beta)

lemma dispatchAll_sync:
  assumes "stMode s = modeCmd" "syncPipeReqs s = Some ids" "distinct ids" "syncPipeIdx s + length (replies vs) = length ids"
  shows "\<exists>s1. dispatchAll pf vs s = (None, s1)
    \<and> (\<forall>j. syncPipeIdx s \<le> j \<and> j < length ids \<longrightarrow>
          requests s1 (ids ! j) = (let r = filled pf (replies vs ! (j - syncPipeIdx s)) (requests s (ids ! j)) in if Suc j = length ids then finish r else r))
    \<and> (\<forall>i. i \<notin> set (drop (syncPipeIdx s) ids) \<longrightarrow> requests s1 i = requests s i)"
  using assms
proof (induction vs arbitrary: s)
  case Nil
  then show ?case by (auto simp: replies_def)
next
  case (Cons v vs)
  show ?case
  proof (cases "isReply v")
    case False
    then show ?thesis
      using Cons.IH [of "s\<lparr>events := events s @ pushEvents (hasOnPush s) [v]\<rparr>"] Cons.prems by (simp add: dispatch_push replies_def)
  next
    case True
    let ?k = "syncPipeIdx s"
    have rep: "replies (v # vs) = v # replies vs" using True by (simp add: replies_def)
    have k: "?k < length ids" "Suc ?k + length (replies vs) = length ids" using Cons.prems(4) rep by simp_all
    have dr: "drop ?k ids = ids ! ?k # drop (Suc ?k) ids" using k(1) by (simp add: Cons_nth_drop_Suc)
    have fresh: "ids ! ?k \<notin> set (drop (Suc ?k) ids)" using Cons.prems(3) dr by (metis distinct.simps(2) distinct_drop)
    let ?i = "ids ! ?k" and ?r = "filled pf v (requests s (ids ! ?k))"
    obtain s2 where d: "dispatch pf v s = (None, s2)" "stMode s2 = modeCmd" "syncPipeReqs s2 = Some ids" "syncPipeIdx s2 = Suc ?k"
        "requests s2 = (requests s)(?i := (if Suc ?k = length ids then finish ?r else ?r))"
      using Cons.prems(1,2) True k by (simp add: dispatch_def isReply_def complete_sync)
    obtain s1 where s1: "dispatchAll pf vs s2 = (None, s1)"
        "\<And>j. Suc ?k \<le> j \<and> j < length ids \<Longrightarrow>
          requests s1 (ids ! j) = (let r = filled pf (replies vs ! (j - Suc ?k)) (requests s2 (ids ! j)) in if Suc j = length ids then finish r else r)"
        "\<And>i. i \<notin> set (drop (Suc ?k) ids) \<Longrightarrow> requests s1 i = requests s2 i"
      using Cons.IH [OF d(2,3) Cons.prems(3)] d(4) k(2) by auto
    have "requests s1 (ids ! j) = (let r = filled pf (replies (v # vs) ! (j - ?k)) (requests s (ids ! j)) in if Suc j = length ids then finish r else r)"
      if j: "?k \<le> j" "j < length ids" for j
    proof (cases "j = ?k")
      case True
      then show ?thesis using s1(3) [OF fresh] d(5) rep by (simp add: Let_def)
    next
      case False
      then have "ids ! j \<noteq> ?i" "j - ?k = Suc (j - Suc ?k)" using j Cons.prems(3) k(1) by (auto simp: nth_eq_iff_index_eq)
      then show ?thesis using s1(2) [of j] False j d(5) rep by simp
    qed
    moreover have "requests s1 i = requests s i" if "i \<notin> set (drop ?k ids)" for i
      using s1(3) [of i] that dr d(5) by simp
    ultimately show ?thesis using d(1) s1(1) by auto
  qed
qed

section \<open>Properties\<close>

lemma fresh_answer:
  "finished (finish (filled pf v getRequest)) \<and> doneCh (finish (filled pf v getRequest)) = 1
   \<and> resultErr (finish (filled pf v getRequest)) = (if errorType (vType v) then Some (parseError (vStr v)) else None)
   \<and> (\<not> errorType (vType v) \<longrightarrow> result (finish (filled pf v getRequest)) = copyValueDetached v)"
  by (simp add: filled_def fillRequest_def getRequest_def finish_def)

text \<open>
  C6. Replies reach the requests they answer. Whatever a server sends, replies of any shape with attributes and
  push frames between them, and however its bytes are cut into segments, the replies are matched to the
  waiting requests in order: each request is signalled once and holds its reply, without references into
  shared buffers, or the error the server reported; other requests are untouched and still wait, and the push frames
  reach the callback in order.
\<close>

theorem redis_replies_matched:
  assumes "list_all (wfValue pf fmt) vs" "concat ss = concat (map (encodeValue fmt) vs)"
    "stMode s = modeCmd" "syncPipeReqs s = None" "reader s = NewReader" "bridgeOk (bridge s)" "entriesOf (bridge s) = ids @ later"
    "distinct ids" "length (replies vs) = length ids" "\<And>i. i \<in> set ids \<Longrightarrow> requests s i = getRequest"
  shows "\<exists>s1. receiveAll pf ss s = Some (None, s1) \<and> entriesOf (bridge s1) = later \<and> unread (reader s1) = []
    \<and> (\<forall>j < length ids. finished (requests s1 (ids ! j)) \<and> doneCh (requests s1 (ids ! j)) = 1
         \<and> (if errorType (vType (replies vs ! j)) then resultErr (requests s1 (ids ! j)) = Some (parseError (vStr (replies vs ! j)))
            else resultErr (requests s1 (ids ! j)) = None \<and> result (requests s1 (ids ! j)) = ClearPooledFlags (replies vs ! j)))
    \<and> (\<forall>i. i \<notin> set ids \<longrightarrow> requests s1 i = requests s i) \<and> events s1 = events s @ pushEvents (hasOnPush s) vs"
proof -
  obtain s1 where s1: "dispatchAll pf vs s = (None, s1)" "entriesOf (bridge s1) = later"
      "\<And>j. j < length ids \<Longrightarrow> requests s1 (ids ! j) = finish (filled pf (replies vs ! j) (requests s (ids ! j)))"
      "\<And>i. i \<notin> set ids \<Longrightarrow> requests s1 i = requests s i" "events s1 = events s @ pushEvents (hasOnPush s) vs"
    by (rule dispatchAll_queue [where pf = pf, OF assms(3,4,6,7,8,9)]) blast
  have rd: "posOk (reader s)" "unread (reader s) = []" using assms(5) by (simp_all add: NewReader_def posOk_def unread_def)
  obtain r where r: "receiveAll pf ss s = Some (None, s1\<lparr>reader := r\<rparr>)" "unread r = []"
    using receive_values [of s pf ss vs "[]" s1] rd outcome_Nil drain_encoded [OF assms(1)] assms(2) s1(1) by auto
  have copy: "copyValueDetached (replies vs ! j) = ClearPooledFlags (replies vs ! j)" if "j < length ids" for j
  proof -
    have "replies vs ! j \<in> set (replies vs)" using that assms(9) by (intro nth_mem) simp
    then have "replies vs ! j \<in> set vs" by (auto simp: replies_def)
    then have "wfValue pf fmt (replies vs ! j)" using assms(1) by (auto simp: list_all_iff)
    then show ?thesis by (rule copyValueDetached_parsed)
  qed
  have "requests s1 (ids ! j) = finish (filled pf (replies vs ! j) getRequest)" if "j < length ids" for j
    using s1(3) [OF that] assms(10) that by simp
  then show ?thesis using r s1(2,4,5) copy
    by (intro exI [of _ "s1\<lparr>reader := r\<rparr>"]) (use fresh_answer [of pf] in auto)
qed

definition sampleReplies :: "int Value list" where
  "sampleReplies =
     [strValue TySimple (str ''OK''), arrayValue TyPush [strValue TyBulk (str ''note''), intValue 7],
      strValue TyError (str ''ERR no''), arrayValue TyArray [intValue (-3), nullValue]]"

definition sampleState :: "int redisState" where
  "sampleState = newRedisState\<lparr>bridge := fold Enqueue [4, 2, 9, 5] NewBridge, hasOnPush := True\<rparr>"

theorem redis_replies_matched_witness:
  "\<exists>s1. receiveAll (\<lambda>_. None) (map (\<lambda>b. [b]) (concat (map (encodeValue (\<lambda>_. [])) sampleReplies))) sampleState = Some (None, s1)
     \<and> entriesOf (bridge s1) = [5] \<and> result (requests s1 4) = strValue TySimple (str ''OK'')
     \<and> resultErr (requests s1 2) = Some (parseError (str ''ERR no'')) \<and> finished (requests s1 9) \<and> \<not> finished (requests s1 5)
     \<and> events s1 = [Pushed (str ''note'') [intValue 7]]"
proof -
  let ?pf = "\<lambda>_. None :: int option" and ?fmt = "\<lambda>_ :: int. [] :: byte list" and ?ids = "[4, 2, 9] :: nat list"
  have single: "concat (map (\<lambda>b. [b]) xs) = xs" for xs :: "byte list" by (induction xs) simp_all
  have wf: "list_all (wfValue ?pf ?fmt) sampleReplies"
    by (simp add: sampleReplies_def strValue_def arrayValue_def intValue_def nullValue_def str_def MaxArrayLen_def MaxBulkLen_def MinInt64_def MaxInt64_def)
  have q: "bridgeOk (bridge sampleState)" "entriesOf (bridge sampleState) = ?ids @ [5]"
    using ringQueue.enq_all [OF NewBridge_ok(1), of "[4, 2, 9, 5] :: nat list"] by (simp_all add: sampleState_def NewBridge_ok(2))
  have rep: "replies sampleReplies = [strValue TySimple (str ''OK''), strValue TyError (str ''ERR no''), arrayValue TyArray [intValue (-3), nullValue]]"
    by (simp add: replies_def sampleReplies_def isReply_def strValue_def arrayValue_def)
  have st: "stMode sampleState = modeCmd" "syncPipeReqs sampleState = None" "reader sampleState = NewReader" "requests sampleState i = getRequest"
    "hasOnPush sampleState" "events sampleState = []" for i
    by (simp_all add: sampleState_def newRedisState_def)
  have d: "distinct ?ids" "length (replies sampleReplies) = length ?ids" using rep by simp_all
  obtain s1 where s1: "receiveAll ?pf (map (\<lambda>b. [b]) (concat (map (encodeValue ?fmt) sampleReplies))) sampleState = Some (None, s1)"
      "entriesOf (bridge s1) = [5]"
      and fin: "\<forall>j < length ?ids. finished (requests s1 (?ids ! j)) \<and> doneCh (requests s1 (?ids ! j)) = 1
         \<and> (if errorType (vType (replies sampleReplies ! j)) then resultErr (requests s1 (?ids ! j)) = Some (parseError (vStr (replies sampleReplies ! j)))
            else resultErr (requests s1 (?ids ! j)) = None \<and> result (requests s1 (?ids ! j)) = ClearPooledFlags (replies sampleReplies ! j))"
      and other: "\<forall>i. i \<notin> set ?ids \<longrightarrow> requests s1 i = requests sampleState i"
      and ev: "events s1 = events sampleState @ pushEvents (hasOnPush sampleState) sampleReplies"
    using redis_replies_matched [OF wf single st(1-3) q d st(4)] by (elim exE conjE)
  have "events s1 = [Pushed (str ''note'') [intValue 7]]"
    using ev st(5,6) by (simp add: pushEvents_def sampleReplies_def strValue_def arrayValue_def intValue_def scalarType_def)
  moreover have "requests s1 5 = getRequest" using other st(4) by simp
  moreover have "result (requests s1 4) = strValue TySimple (str ''OK'')" "resultErr (requests s1 2) = Some (parseError (str ''ERR no''))" "finished (requests s1 9)"
    using fin [rule_format, of 0] fin [rule_format, of 1] fin [rule_format, of 2] rep by (simp_all add: errorType_def strValue_def arrayValue_def)
  ultimately show ?thesis using s1 by (intro exI [of _ s1]) (simp add: getRequest_def)
qed

text \<open>
  C10. A pipeline dispatched by index gives its requests what a queued one gives them. For the same replies, in any
  segments, the requests of a synchronous pipeline and those of a queued one, with whatever typed results they
  expect, end with the same results and errors; only the signals differ, and in both the last request
  is signalled.
\<close>

theorem sync_pipeline_agrees:
  assumes "list_all (wfValue pf fmt) vs" "concat ss = concat (map (encodeValue fmt) vs)"
    "stMode (state c) = modeCmd" "syncPipeReqs (state c) = None" "reader (state c) = NewReader" "bridgeOk (bridge (state c))"
    "entriesOf (bridge (state c)) = []" "ids \<noteq> []" "distinct ids" "length (replies vs) = length ids"
    "\<And>i. i \<in> set ids \<Longrightarrow> \<not> finished (requests (state c) i) \<and> doneCh (requests (state c) i) = 0"
  shows "\<exists>s1 s2. receiveAll pf ss (state (beginSyncPipe ids c)) = Some (None, s1) \<and> receiveAll pf ss (state (beginQueued ids c)) = Some (None, s2)
    \<and> (\<forall>i. (requests s1 i)\<lparr>finished := False, doneCh := 0\<rparr> = (requests s2 i)\<lparr>finished := False, doneCh := 0\<rparr>)
    \<and> finished (requests s1 (last ids)) \<and> finished (requests s2 (last ids))"
proof -
  let ?s = "state c" and ?p = "state (beginSyncPipe ids c)" and ?q = "state (beginQueued ids c)"
  have rd: "posOk NewReader" "unread NewReader = []" by (simp_all add: NewReader_def posOk_def unread_def)
  have all: "drain (resp_outcome pf) (concat ss) = (vs, None, [])" using drain_encoded [OF assms(1)] assms(2) by simp
  have p: "stMode ?p = modeCmd" "syncPipeReqs ?p = Some ids" "syncPipeIdx ?p = 0" "requests ?p = requests ?s" "reader ?p = NewReader"
    using assms(3,5) by (simp_all add: beginSyncPipe_def)
  have q: "stMode ?q = modeCmd" "syncPipeReqs ?q = None" "bridgeOk (bridge ?q)" "entriesOf (bridge ?q) = ids @ []" "requests ?q = requests ?s" "reader ?q = NewReader"
    using assms(3-7) ringQueue.enq_all [OF assms(6), of ids] by (simp_all add: beginQueued_def)
  obtain s1 where s1: "dispatchAll pf vs ?p = (None, s1)"
      "\<And>j. j < length ids \<Longrightarrow> requests s1 (ids ! j) = (let r = filled pf (replies vs ! j) (requests ?s (ids ! j)) in if Suc j = length ids then finish r else r)"
      "\<And>i. i \<notin> set ids \<Longrightarrow> requests s1 i = requests ?s i"
    using dispatchAll_sync [OF p(1,2) assms(9), of vs pf] p(3,4) assms(10) by auto
  obtain s2 where s2: "dispatchAll pf vs ?q = (None, s2)"
      "\<And>j. j < length ids \<Longrightarrow> requests s2 (ids ! j) = finish (filled pf (replies vs ! j) (requests ?s (ids ! j)))"
      "\<And>i. i \<notin> set ids \<Longrightarrow> requests s2 i = requests ?s i"
    by (rule dispatchAll_queue [where pf = pf, OF q(1-4) assms(9,10)]) (use q(5) in auto)
  obtain r1 where r1: "receiveAll pf ss ?p = Some (None, s1\<lparr>reader := r1\<rparr>)"
    using receive_values [of ?p pf ss vs "[]" s1] rd p(5) outcome_Nil all s1(1) by auto
  obtain r2 where r2: "receiveAll pf ss ?q = Some (None, s2\<lparr>reader := r2\<rparr>)"
    using receive_values [of ?q pf ss vs "[]" s2] rd q(6) outcome_Nil all s2(1) by auto
  have fin: "(finish r)\<lparr>finished := False, doneCh := 0\<rparr> = r\<lparr>finished := False, doneCh := 0\<rparr>" "finished (finish r)" for r :: "'a redisRequest"
    by (simp_all add: finish_def)
  have "(requests s1 i)\<lparr>finished := False, doneCh := 0\<rparr> = (requests s2 i)\<lparr>finished := False, doneCh := 0\<rparr>" for i
  proof (cases "i \<in> set ids")
    case True
    then obtain j where "j < length ids" "i = ids ! j" by (auto simp: in_set_conv_nth)
    then show ?thesis using s1(2) s2(2) fin by (simp add: Let_def)
  qed (use s1(3) s2(3) in simp)
  moreover have "last ids = ids ! (length ids - 1)" "length ids - 1 < length ids" using assms(8) by (simp_all add: last_conv_nth)
  then have "finished (requests s1 (last ids))" "finished (requests s2 (last ids))" using s1(2) s2(2) fin(2) assms(8) by (simp_all add: Let_def)
  ultimately show ?thesis using r1 r2 by auto
qed

definition idleConn :: "int redisConn" where
  "idleConn = \<lparr>state = newRedisState\<lparr>requests := (\<lambda>i. getRequest\<lparr>expect := if i = 0 then expectString else expectInt\<rparr>)\<rparr>, connClosed = False, connErr = None\<rparr>"

theorem sync_pipeline_agrees_witness:
  "\<exists>s1 s2. receiveAll (\<lambda>_. None) [str ''$1'', [13, 10, 65, 13, 10, 58, 51], [13, 10]] (state (beginSyncPipe [0, 1] idleConn)) = Some (None, s1)
     \<and> receiveAll (\<lambda>_. None) [str ''$1'', [13, 10, 65, 13, 10, 58, 51], [13, 10]] (state (beginQueued [0, 1] idleConn)) = Some (None, s2)
     \<and> (\<forall>i. (requests s1 i)\<lparr>finished := False, doneCh := 0\<rparr> = (requests s2 i)\<lparr>finished := False, doneCh := 0\<rparr>) \<and> finished (requests s1 1)"
proof -
  let ?pf = "\<lambda>_. None :: int option" and ?fmt = "\<lambda>_ :: int. [] :: byte list" and ?vs = "[strValue TyBulk [65], intValue 3] :: int Value list"
  have wf: "list_all (wfValue ?pf ?fmt) ?vs" by (simp add: strValue_def intValue_def MaxBulkLen_def MinInt64_def MaxInt64_def)
  have bytes: "concat [str ''$1'', [13, 10, 65, 13, 10, 58, 51], [13, 10]] = concat (map (encodeValue ?fmt) ?vs)"
    by (simp add: strValue_def intValue_def formatInt_def decimal.simps str_def)
  have st: "stMode (state idleConn) = modeCmd" "syncPipeReqs (state idleConn) = None" "reader (state idleConn) = NewReader"
    "bridgeOk (bridge (state idleConn))" "entriesOf (bridge (state idleConn)) = []"
    by (simp_all add: idleConn_def newRedisState_def NewBridge_ok)
  have ids: "[0, 1] \<noteq> ([] :: nat list)" "distinct [0, 1 :: nat]" "length (replies ?vs) = length [0, 1 :: nat]"
    by (simp_all add: replies_def isReply_def strValue_def intValue_def)
  have "\<not> finished (requests (state idleConn) i) \<and> doneCh (requests (state idleConn) i) = 0" for i
    by (simp add: idleConn_def newRedisState_def getRequest_def)
  from sync_pipeline_agrees [OF wf bytes st ids this] show ?thesis by auto
qed


end
