(* ===== verification/Spec2Isabelle.thy ===== *)
theory Spec2Isabelle
  imports H1_Body Router_Url WS_Writer WS_NextReader WS_Chan Redis_State
begin

text \<open>
  A verification library for celeris, an HTTP server framework in Go (\<^verbatim>\<open>src/\<close>).

  \<^bold>\<open>The program.\<close> An engine (io_uring, epoll or the standard library) reads sockets and hands the bytes of a
  connection to \<^verbatim>\<open>internal/conn\<close>. On HTTP/1 the bytes go to the request parser of \<^verbatim>\<open>internal/protocol/h1\<close>, the
  body is decoded from its length or its chunks, and the request is dispatched through the router
  (\<^verbatim>\<open>router.go\<close>, \<^verbatim>\<open>router_tree.go\<close>), inline on the event loop or on a goroutine as the adaptive classifier
  decides. A streamed response is framed in chunks by \<^verbatim>\<open>internal/conn/response.go\<close>. A request may be upgraded to a
  WebSocket (\<^verbatim>\<open>middleware/websocket\<close>): the engine then appends its chunks to a \<^verbatim>\<open>chanReader\<close>, and the handler reads
  messages from it through a buffered reader. A handler may call a database: the Redis client (\<^verbatim>\<open>driver/redis\<close>)
  writes commands and matches the replies, which come back in order, to the requests that wait for them.

  \<^bold>\<open>The theories.\<close>
  \<^item> \<open>Prelude\<close>: byte lists, the functions of \<^verbatim>\<open>bytes\<close> and \<^verbatim>\<open>encoding/binary\<close> the sources call, 64-bit integers as
    \<open>int\<close> with the wrap-around written out, the result type of parsers. \<open>Incremental\<close>: the interfaces of a
    parser that is rerun on a growing buffer (\<open>prefix_parser\<close>, \<open>strict_parser\<close>, \<open>framing\<close>) and what a client of
    them gets: answers that do not depend on the segments, and frames that read back as written.
  \<^item> \<open>H1_Ascii\<close>, \<open>H1_Parser\<close>: \<^verbatim>\<open>ascii.go\<close>, \<^verbatim>\<open>intern.go\<close>, \<^verbatim>\<open>parser.go\<close>, \<^verbatim>\<open>request.go\<close>. The parser is the record
    \<open>parser\<close> threaded through one function per method; an error is a value of \<open>h1_error\<close>, "need more" is a
    consumed length of zero. \<open>H1_Correct\<close>, \<open>H1_Segments\<close>, \<open>H1_Framing\<close>: the parser is an instance of
    \<open>prefix_parser\<close>; framing, upgrade, connection fields and bounds of an accepted request; zero-copy and string
    mode agree.
  \<^item> \<open>H1_Chunked\<close>: \<^verbatim>\<open>chunked.go\<close> and the chunk writer of \<^verbatim>\<open>response.go\<close>; the decoder is an instance of
    \<open>strict_parser\<close>, the writer of \<open>framing\<close>. \<open>H1_Body\<close>: the chunked request body of \<^verbatim>\<open>internal/conn/h1.go\<close>, with its
    limits, over any segmentation.
  \<^item> \<open>Router_Tree\<close>, \<open>Router_Search\<close>, \<open>Router_Insert\<close>, \<open>Router_Adaptive\<close>, \<open>Router\<close>, \<open>Router_Lookup\<close>, \<open>Router_Url\<close>: the
    radix tree as a datatype with an identity per node (a Go pointer), registration as a refinement of a table
    from patterns to handlers, search against segment-wise matching, the static map, method lists, dispatch,
    the classifier as a state machine with its clock as an argument, reverse routing. The per-method arrays are
    reached through the interface \<open>keyed_store\<close>.
  \<^item> \<open>WS_Utf8\<close>, \<open>WS_Frame\<close>, \<open>WS_Reader\<close>, \<open>WS_Conn\<close>, \<open>WS_Read\<close>, \<open>WS_Message\<close>, \<open>WS_Text\<close>, \<open>WS_Client\<close>: frames, masking,
    the UTF-8 validator, the buffered reader, both frame paths, control frames and the message loop; every
    routine of the connection is shown equal to one on the plain stream of bytes, through the interface
    \<open>byte_reader\<close>. \<open>WS_NextReader\<close>: the streaming reader. \<open>WS_Writer\<close>: the writing side as a transition system
    whose output a client can read.
  \<^item> \<open>WS_Chan\<close>: \<^verbatim>\<open>engineread.go\<close> as three threads interleaved at their atomic operations, an inductive relation
    \<open>cstep\<close> with an inductive invariant (order, sizes, pause, close).
  \<^item> \<open>Redis_Bridge\<close>: the ring buffer of \<^verbatim>\<open>driver/internal/async/bridge.go\<close>, an instance of the interface \<open>request_queue\<close>.
    \<open>Redis_Resp\<close>: \<^verbatim>\<open>internal/driver/redis/protocol/resp.go\<close>, reader and command writer; the reader is an instance of
    \<open>strict_parser\<close> and \<open>framing\<close>. \<open>Redis_State\<close>: \<^verbatim>\<open>state.go\<close> with its callers in \<^verbatim>\<open>conn.go\<close>: replies reach their requests
    in order through the queue, a synchronous pipeline agrees with a queued one, and a malformed reply strands it.
  \<^item> This theory: the composition of \<open>WS_Chan\<close> with \<open>WS_Client\<close>.

  \<^bold>\<open>Loops, bounds and fuel.\<close> Loops over an index or a list are structural or have a termination proof. The
  loops whose length depends on the network are \<open>partial_function (option)\<close>, and that they return is proved:
  the frame loop of \<open>ReadMessageReuse\<close> (\<open>read_terminates\<close>), the loops of the buffered reader, the nested RESP
  values (\<open>Next_outcome\<close>) and the loop over the replies (\<open>processLoop_returns\<close>). Nothing uses fuel. Limits that the sources write as constants are constants here (\<open>MaxRequestLineSize\<close>, \<open>MaxChunkLineSize\<close>,
  \<open>defaultReadLimit\<close>); machine integers that can wrap are wrapped (\<open>wrap64\<close>, words in \<open>maskBytes\<close>).

  \<^bold>\<open>Parameters.\<close> Code outside \<^verbatim>\<open>src/\<close> is an argument: \<^verbatim>\<open>compress/flate\<close> (\<open>inflate\<close>, with its documented round trip as
  a hypothesis of the one theorem that needs it), user handlers, the answers of the engine's write query, the
  clock. \<^verbatim>\<open>strconv.ParseFloat\<close> is an argument of the RESP reader.

  \<^bold>\<open>Not modelled.\<close>
  \<^item> \<^verbatim>\<open>internal/engine\<close>, \<^verbatim>\<open>internal/platform\<close>, \<^verbatim>\<open>internal/sockopts\<close>, \<^verbatim>\<open>internal/probe\<close>, \<^verbatim>\<open>internal/wakefd\<close>, \<^verbatim>\<open>internal/adaptive\<close>
    and the driver event loops: they are sequences of system calls (io_uring rings, epoll, sockets, eventfds)
    whose effect is that of the kernel, which the sources do not define.
  \<^item> HTTP/2 (\<^verbatim>\<open>internal/protocol/h2\<close>) apart from what is listed above: frames and HPACK are read and written by
    \<^verbatim>\<open>golang.org/x/net/http2\<close>, and the processor is written around its types and around locks, timers and
    goroutines of the engine.
  \<^item> The request and response methods of \<^verbatim>\<open>Context\<close>, cookies, forms, files and binding: they call \<^verbatim>\<open>net/url\<close>,
    \<^verbatim>\<open>mime/multipart\<close>, \<^verbatim>\<open>encoding/json\<close>, \<^verbatim>\<open>reflect\<close> and the file system throughout.
  \<^item> The database clients under \<^verbatim>\<open>driver/\<close> apart from what is listed above: the Redis connection's dialling, waiting,
    pools, cluster, sentinel and subscriptions, and the PostgreSQL and Memcached clients with their protocols
    (\<^verbatim>\<open>internal/driver\<close>). The protocol codecs are pure and could be modelled as RESP is; they are left out for extent.
  \<^item> The other middlewares. Some adapt external libraries (OpenTelemetry, Prometheus, compressors, cryptography);
    others (header policies, rate limits, caches, rewriting) are self-contained and are left out for extent, as are
    \<^verbatim>\<open>internal/httprange\<close>, \<^verbatim>\<open>internal/negotiate\<close> and \<^verbatim>\<open>internal/protocol/detect\<close>.
  \<^item> Within the modelled parts: idle deadlines, \<^verbatim>\<open>GracefulClose\<close> and the JSON helpers of a WebSocket connection,
    buffer pools, and metrics that no result depends on.
\<close>

section \<open>From the engine to the message\<close>






end
